theory Spec2Isabelle
  imports Complex_Main
begin

section \<open>Output path derivation\<close>

text \<open>
  \<^verbatim>\<open>std::string::find_last_of(chars)\<close>: the largest index whose character is one of
  \<open>chars\<close>; \<open>None\<close> stands for \<^verbatim>\<open>std::string::npos\<close>.
\<close>

fun find_last_of :: "string \<Rightarrow> string \<Rightarrow> nat option" where
  "find_last_of [] cs = None"
| "find_last_of (x # xs) cs =
     (case find_last_of xs cs of
        Some i \<Rightarrow> Some (Suc i)
      | None \<Rightarrow> if x \<in> set cs then Some 0 else None)"

text \<open>
  \<^verbatim>\<open>make_output_path\<close> (lines 199-206). \<^verbatim>\<open>substr(0, n)\<close> is \<open>take n\<close> and
  \<^verbatim>\<open>substr(n)\<close> is \<open>drop n\<close>; the separators are the slash and the backslash
  (character \<open>0x5C\<close>).
\<close>

definition make_output_path :: "string \<Rightarrow> string \<Rightarrow> string" where
  "make_output_path inPath outFmt =
     (let p = find_last_of inPath [CHR ''/'', CHR 0x5C];
          dir = (case p of None \<Rightarrow> [] | Some i \<Rightarrow> take (i + 1) inPath);
          base = (case p of None \<Rightarrow> inPath | Some i \<Rightarrow> drop (i + 1) inPath);
          dot = find_last_of base [CHR ''.''];
          base' = (case dot of None \<Rightarrow> base | Some d \<Rightarrow> take d base)
      in dir @ base' @ ''_converted.'' @ outFmt)"

text \<open>
  The derivation in the specification's words: the directory of a path is everything up
  to and including its last separator, the base name is what follows it, and stripping
  the extension removes the last dot of the base name and what follows it.
\<close>

definition is_sep :: "char \<Rightarrow> bool" where
  "is_sep c = (c = CHR ''/'' \<or> c = CHR 0x5C)"

definition spec_dir :: "string \<Rightarrow> string" where
  "spec_dir path = rev (dropWhile (\<lambda>c. \<not> is_sep c) (rev path))"

definition spec_basename :: "string \<Rightarrow> string" where
  "spec_basename path = rev (takeWhile (\<lambda>c. \<not> is_sep c) (rev path))"

definition spec_strip_ext :: "string \<Rightarrow> string" where
  "spec_strip_ext b =
     (if CHR ''.'' \<in> set b then rev (tl (dropWhile (\<lambda>c. c \<noteq> CHR ''.'') (rev b))) else b)"

definition spec_output_path :: "string \<Rightarrow> string \<Rightarrow> string" where
  "spec_output_path inPath outFmt =
     spec_dir inPath @ spec_strip_ext (spec_basename inPath) @ ''_converted.'' @ outFmt"


section \<open>Data model\<close>

text \<open>
  The FFmpeg structures, with the fields the converter reads or writes. Payloads are
  opaque byte lists; pixel data of a frame is not modelled.
\<close>

record AVRational =
  num :: int
  den :: int

datatype AVMediaType =
    AVMEDIA_TYPE_UNKNOWN
  | AVMEDIA_TYPE_VIDEO
  | AVMEDIA_TYPE_AUDIO
  | AVMEDIA_TYPE_DATA
  | AVMEDIA_TYPE_SUBTITLE
  | AVMEDIA_TYPE_ATTACHMENT

record AVCodecParameters =
  codec_type :: AVMediaType
  codec_id :: nat
  codec_tag :: nat
  extradata :: "nat list"

record AVStream =
  codecpar :: AVCodecParameters
  time_base :: AVRational

record AVPacket =
  stream_index :: nat
  pts :: int
  dts :: int
  duration :: int
  pos :: int
  data :: "nat list"

record AVFrame =
  frame_pts :: int

text \<open>The two rounding flags the converter passes to \<^verbatim>\<open>av_rescale_q_rnd\<close>.\<close>

datatype AVRounding = AV_ROUND_NEAR_INF | AV_ROUND_PASS_MINMAX

text \<open>
  Constants of the FFmpeg and system headers: \<^verbatim>\<open>AVERROR(EAGAIN)\<close> on Linux,
  \<^verbatim>\<open>AVERROR_EOF = FFERRTAG('E','O','F',' ')\<close>,
  \<^verbatim>\<open>AVERROR_UNKNOWN = FFERRTAG('U','N','K','N')\<close> and
  \<^verbatim>\<open>AV_NOPTS_VALUE = INT64_MIN\<close>. The headers are not part of the repository; the
  converter only compares against these values, and the three error codes are negative.
\<close>

definition AVERROR_EAGAIN :: int where
  "AVERROR_EAGAIN = - 11"

definition AVERROR_EOF :: int where
  "AVERROR_EOF = - 541478725"

definition AVERROR_UNKNOWN :: int where
  "AVERROR_UNKNOWN = - 1313558101"

definition AV_NOPTS_VALUE :: int where
  "AV_NOPTS_VALUE = - (2 ^ 63)"

section \<open>The job, the libraries' answers and the observable calls\<close>

text \<open>The members of \<^verbatim>\<open>ConverterThread\<close> that describe the job.\<close>

record job =
  m_input :: string
  m_outFormat :: string
  m_reencode :: bool

text \<open>
  Answers that are consumed one per call while the packet loops run, in call order:
  the return values of \<^verbatim>\<open>avcodec_send_packet\<close>, \<^verbatim>\<open>avcodec_send_frame\<close> and
  \<^verbatim>\<open>av_interleaved_write_frame\<close>, and the results of \<^verbatim>\<open>TestDestroy()\<close>.
  A list that has run out answers success (\<open>0\<close>), respectively "not cancelled".
\<close>

record world =
  send_packet_rets :: "int list"
  send_frame_rets :: "int list"
  write_frame_rets :: "int list"
  test_destroy :: "bool list"

text \<open>
  Everything the libraries answer during one job. The FFmpeg libraries and wxWidgets
  are not part of the repository, so each call whose result the converter reads is a
  parameter here.
  \<^item> \<open>reads\<close>: the successive results of \<^verbatim>\<open>av_read_frame\<close> (return value and
    packet); when the list has run out the call answers \<^verbatim>\<open>AVERROR_EOF\<close>.
  \<^item> \<open>decoded\<close>, \<open>encoded\<close>: the successive results of
    \<^verbatim>\<open>avcodec_receive_frame\<close> and \<^verbatim>\<open>avcodec_receive_packet\<close>; when the list has
    run out the call answers \<^verbatim>\<open>AVERROR(EAGAIN)\<close>.
  \<^item> \<open>new_stream_ok i\<close>, \<open>parameters_copy_ret i\<close>: the results of
    \<^verbatim>\<open>avformat_new_stream\<close> and \<^verbatim>\<open>avcodec_parameters_copy\<close> for input stream \<open>i\<close>.
  \<^item> \<open>nofile\<close>: \<^verbatim>\<open>out_ctx->oformat->flags & AVFMT_NOFILE\<close>.
  \<^item> \<open>out_time_base k\<close>: the time base of output stream \<open>k\<close> once the header is
    written (the muxer chooses it).
  \<^item> \<open>written_pkt p\<close>: the caller's packet as \<^verbatim>\<open>av_interleaved_write_frame\<close>
    leaves it when it has been handed the packet \<open>p\<close>; the call takes the packet over,
    and the remux path reads \<^verbatim>\<open>pkt.pts\<close> again after it (line 318).
  \<^item> \<open>progress_raw p tb d\<close>: the value of the floating-point expression
    \<^verbatim>\<open>(int)((p * av_q2d(tb) * AV_TIME_BASE) * 100 / d)\<close>.
\<close>

record env =
  open_input_ret :: int
  av_strerror :: "int \<Rightarrow> string"
  find_stream_info_ret :: int
  streams :: "AVStream list"
  in_duration :: int
  alloc_output_ok :: bool
  new_stream_ok :: "nat \<Rightarrow> bool"
  parameters_copy_ret :: "nat \<Rightarrow> int"
  nofile :: bool
  avio_open_ret :: int
  write_header_ret :: int
  out_time_base :: "nat \<Rightarrow> AVRational"
  decoder_found :: bool
  dec_open_ret :: int
  encoder_found :: bool
  enc_open_ret :: int
  enc_time_base :: AVRational
  av_rescale_q_rnd :: "int \<Rightarrow> AVRational \<Rightarrow> AVRational \<Rightarrow> AVRounding set \<Rightarrow> int"
  av_rescale_q :: "int \<Rightarrow> AVRational \<Rightarrow> AVRational \<Rightarrow> int"
  av_packet_rescale_ts :: "AVPacket \<Rightarrow> AVRational \<Rightarrow> AVRational \<Rightarrow> AVPacket"
  written_pkt :: "AVPacket \<Rightarrow> AVPacket"
  progress_raw :: "int \<Rightarrow> AVRational \<Rightarrow> int \<Rightarrow> int"
  reads :: "(int \<times> AVPacket) list"
  decoded :: "(int \<times> AVFrame) list"
  encoded :: "(int \<times> AVPacket) list"
  answers :: world

text \<open>
  The calls a job makes, in order, each with the arguments and the result that matter.
  \<open>Log\<close>, \<open>PostProgress\<close> and \<open>SetRunning\<close> are the converter's own
  \<^verbatim>\<open>Log\<close>, \<^verbatim>\<open>PostProgress\<close> and \<^verbatim>\<open>m_handler->setRunning\<close>; the others are
  library calls. \<open>None\<close> as the argument of a send call is the \<^verbatim>\<open>NULL\<close> that
  signals end of input. Calls that only manage buffers (\<^verbatim>\<open>av_packet_unref\<close>,
  \<^verbatim>\<open>av_frame_alloc\<close>, \<^verbatim>\<open>av_frame_free\<close>, \<^verbatim>\<open>av_packet_free\<close>,
  \<^verbatim>\<open>sws_getContext\<close>, \<^verbatim>\<open>sws_freeContext\<close>) and the assignments that configure the
  encoder context return nothing the control flow reads and are left out.
\<close>

datatype event =
    Log string
  | PostProgress int
  | SetRunning bool
  | TestDestroy bool
  | avformat_open_input int
  | avformat_find_stream_info int
  | avformat_close_input
  | avformat_alloc_output_context2 bool
  | avformat_new_stream bool
  | avcodec_parameters_copy int
  | avformat_free_context
  | avio_open int
  | avio_closep
  | avformat_write_header int
  | av_write_trailer
  | av_read_frame int
  | av_interleaved_write_frame AVPacket int
  | avcodec_find_decoder bool
  | avcodec_open2_dec int
  | avcodec_find_encoder bool
  | avcodec_open2_enc int
  | avcodec_free_context_dec
  | avcodec_free_context_enc
  | avcodec_send_packet "AVPacket option" int
  | avcodec_receive_frame int
  | sws_scale
  | avcodec_send_frame "AVFrame option" int
  | avcodec_receive_packet int

text \<open>Taking the next answer of a list of return values, or of cancellation polls.\<close>

definition next_ret :: "int list \<Rightarrow> int \<times> int list" where
  "next_ret rs = (case rs of [] \<Rightarrow> (0, []) | r # rs' \<Rightarrow> (r, rs'))"

definition next_poll :: "bool list \<Rightarrow> bool \<times> bool list" where
  "next_poll bs = (case bs of [] \<Rightarrow> (False, []) | b # bs' \<Rightarrow> (b, bs'))"

text \<open>\<^verbatim>\<open>if (pct < 0) pct = 0; if (pct > 100) pct = 100;\<close>\<close>

definition clamp_pct :: "int \<Rightarrow> int" where
  "clamp_pct pct = (let p = (if pct < 0 then 0 else pct) in if p > 100 then 100 else p)"


section \<open>Remux path\<close>

text \<open>
  The stream loop of the remux path (lines 246-260), from input index \<open>i\<close> on. The
  arguments are the variables the loop updates: \<^verbatim>\<open>ret\<close>, \<^verbatim>\<open>stream_index\<close>,
  \<^verbatim>\<open>stream_mapping\<close> and the streams of \<^verbatim>\<open>out_ctx\<close> (the codec parameters of
  each; \<open>None\<close> for a stream whose parameters were not filled in). A \<^verbatim>\<open>break\<close>
  returns at once.
\<close>

fun remux_streams ::
  "env \<Rightarrow> nat \<Rightarrow> AVStream list \<Rightarrow> int \<Rightarrow> int \<Rightarrow> int list \<Rightarrow> AVCodecParameters option list
     \<Rightarrow> int \<times> event list \<times> int list \<times> AVCodecParameters option list" where
  "remux_streams e i [] ret sidx mapping outs = (ret, [], mapping, outs)"
| "remux_streams e i (in_stream # rest) ret sidx mapping outs =
     (if \<not> new_stream_ok e i then
        (AVERROR_UNKNOWN,
         [avformat_new_stream False, Log ''Failed allocating output stream''], mapping, outs)
      else
        let r = parameters_copy_ret e i in
        if r < 0 then
          (r, [avformat_new_stream True, avcodec_parameters_copy r,
               Log ''Failed to copy codec parameters''], mapping, outs @ [None])
        else
          (case remux_streams e (Suc i) rest r (sidx + 1) (mapping[i := sidx])
                  (outs @ [Some ((codecpar in_stream)\<lparr>codec_tag := 0\<rparr>)]) of
             (ret', evs, mapping', outs') \<Rightarrow>
               (ret', [avformat_new_stream True, avcodec_parameters_copy r] @ evs,
                mapping', outs')))"

text \<open>
  The rewriting of a copied packet (lines 300-308, and again lines 485-493): the stream
  index is mapped, \<^verbatim>\<open>pts\<close> and \<^verbatim>\<open>dts\<close> go through \<^verbatim>\<open>av_rescale_q_rnd\<close> with
  \<^verbatim>\<open>AV_ROUND_NEAR_INF|AV_ROUND_PASS_MINMAX\<close>, \<^verbatim>\<open>duration\<close> through
  \<^verbatim>\<open>av_rescale_q\<close>, and \<^verbatim>\<open>pos\<close> becomes \<open>-1\<close>.
\<close>

definition remux_packet :: "env \<Rightarrow> int list \<Rightarrow> AVPacket \<Rightarrow> AVPacket" where
  "remux_packet e mapping pkt =
     (let in_tb = time_base (streams e ! stream_index pkt);
          k = nat (mapping ! stream_index pkt);
          out_tb = out_time_base e k
      in pkt\<lparr>stream_index := k,
              pts := av_rescale_q_rnd e (pts pkt) in_tb out_tb
                       {AV_ROUND_NEAR_INF, AV_ROUND_PASS_MINMAX},
              dts := av_rescale_q_rnd e (dts pkt) in_tb out_tb
                       {AV_ROUND_NEAR_INF, AV_ROUND_PASS_MINMAX},
              duration := av_rescale_q e (duration pkt) in_tb out_tb,
              pos := - 1\<rparr>)"

text \<open>
  \<^verbatim>\<open>pkt.stream_index >= (int)stream_mapping.size() || stream_mapping[pkt.stream_index] < 0\<close>
\<close>

definition dropped :: "int list \<Rightarrow> AVPacket \<Rightarrow> bool" where
  "dropped mapping pkt =
     (stream_index pkt \<ge> length mapping \<or> mapping ! stream_index pkt < 0)"

text \<open>The progress report of both paths (lines 318-322 and 470-474).\<close>

definition progress :: "env \<Rightarrow> int \<Rightarrow> AVRational \<Rightarrow> event list" where
  "progress e p tb =
     (if in_duration e > 0 \<and> p \<noteq> AV_NOPTS_VALUE
      then [PostProgress (clamp_pct (progress_raw e p tb (in_duration e)))]
      else [])"

text \<open>
  The packet loop of the remux path (lines 292-326), over the results of
  \<^verbatim>\<open>av_read_frame\<close> still to come. The progress report reads \<^verbatim>\<open>pkt.pts\<close> after
  \<^verbatim>\<open>av_interleaved_write_frame(out_ctx, &pkt)\<close> has returned, so it sees the packet as
  that call left it; \<^verbatim>\<open>out_stream\<close> was fetched before the call (line 302).
\<close>

fun remux_loop :: "env \<Rightarrow> int list \<Rightarrow> (int \<times> AVPacket) list \<Rightarrow> world \<Rightarrow> event list" where
  "remux_loop e mapping [] w = [av_read_frame AVERROR_EOF]"
| "remux_loop e mapping ((ret, pkt) # rest) w =
     (if ret < 0 then [av_read_frame ret]
      else if dropped mapping pkt then av_read_frame ret # remux_loop e mapping rest w
      else
        let pkt' = remux_packet e mapping pkt;
            (wr, wrs) = next_ret (write_frame_rets w)
        in if wr < 0 then
             [av_read_frame ret, av_interleaved_write_frame pkt' wr, Log ''Error muxing packet'']
           else
             let (cancelled, polls) = next_poll (test_destroy w);
                 evs = [av_read_frame ret, av_interleaved_write_frame pkt' wr]
                       @ progress e (pts (written_pkt e pkt')) (out_time_base e (stream_index pkt'))
             in if cancelled then evs @ [TestDestroy True, Log ''Conversion cancelled'']
                else evs @ [TestDestroy False]
                     @ remux_loop e mapping rest
                         (w\<lparr>write_frame_rets := wrs, test_destroy := polls\<rparr>))"

text \<open>What follows the packet loop of the remux path (lines 328-335).\<close>

definition finalize :: "env \<Rightarrow> string \<Rightarrow> event list" where
  "finalize e out_filename =
     av_write_trailer #
     (if nofile e then [] else [avio_closep]) @
     [avformat_close_input, avformat_free_context,
      Log (''Remux finished. Output: '' @ out_filename), SetRunning False]"

text \<open>The remux branch of \<^verbatim>\<open>Entry\<close> (lines 237-336).\<close>

definition remux :: "env \<Rightarrow> string \<Rightarrow> event list" where
  "remux e out_filename =
     avformat_alloc_output_context2 (alloc_output_ok e) #
     (if \<not> alloc_output_ok e then
        [Log ''Could not create output context (unsupported format?)'',
         avformat_close_input, SetRunning False]
      else
        case remux_streams e 0 (streams e) (find_stream_info_ret e) 0
               (replicate (length (streams e)) (- 1)) [] of
          (ret, evs, mapping, outs) \<Rightarrow>
            evs @
            (if ret < 0 then [avformat_close_input, avformat_free_context, SetRunning False]
             else if \<not> nofile e \<and> avio_open_ret e < 0 then
               [avio_open (avio_open_ret e),
                Log (''Could not open output file: '' @ av_strerror e (avio_open_ret e)),
                avformat_close_input, avformat_free_context, SetRunning False]
             else
               (if nofile e then [] else [avio_open (avio_open_ret e)]) @
               avformat_write_header (write_header_ret e) #
               (if write_header_ret e < 0 then
                  Log ''Error occurred when writing header'' #
                  (if nofile e then [] else [avio_closep]) @
                  [avformat_close_input, avformat_free_context, SetRunning False]
                else
                  remux_loop e mapping (reads e) (answers e) @ finalize e out_filename)))"


section \<open>Transcode path\<close>

text \<open>
  The scan for the video stream (lines 339-342), from index \<open>i\<close> on; \<open>-1\<close> when the
  scan ends without a hit.
\<close>

fun find_video_stream :: "nat \<Rightarrow> AVStream list \<Rightarrow> int" where
  "find_video_stream i [] = - 1"
| "find_video_stream i (s # rest) =
     (if codec_type (codecpar s) = AVMEDIA_TYPE_VIDEO then int i
      else find_video_stream (Suc i) rest)"

text \<open>
  The stream loop of the transcode path (lines 363-378): the video stream gets a
  placeholder output stream, every other stream a copy of its parameters.
\<close>

fun transcode_streams ::
  "env \<Rightarrow> int \<Rightarrow> nat \<Rightarrow> AVStream list \<Rightarrow> int \<Rightarrow> int \<Rightarrow> int list
     \<Rightarrow> AVCodecParameters option list
     \<Rightarrow> int \<times> event list \<times> int list \<times> AVCodecParameters option list" where
  "transcode_streams e vsi i [] ret cnt mapping outs = (ret, [], mapping, outs)"
| "transcode_streams e vsi i (in_stream # rest) ret cnt mapping outs =
     (if int i = vsi then
        (if \<not> new_stream_ok e i then
           (AVERROR_UNKNOWN,
            [avformat_new_stream False, Log ''Failed allocating output video stream''],
            mapping, outs)
         else
           (case transcode_streams e vsi (Suc i) rest ret (cnt + 1) (mapping[i := cnt])
                   (outs @ [None]) of
              (ret', evs, mapping', outs') \<Rightarrow>
                (ret', avformat_new_stream True # evs, mapping', outs')))
      else
        (if \<not> new_stream_ok e i then
           (AVERROR_UNKNOWN,
            [avformat_new_stream False, Log ''Failed allocating output stream''],
            mapping, outs)
         else
           let r = parameters_copy_ret e i in
           if r < 0 then
             (r, [avformat_new_stream True, avcodec_parameters_copy r,
                  Log ''Failed to copy codec parameters for non-video stream''],
              mapping, outs @ [None])
           else
             (case transcode_streams e vsi (Suc i) rest r (cnt + 1) (mapping[i := cnt])
                     (outs @ [Some ((codecpar in_stream)\<lparr>codec_tag := 0\<rparr>)]) of
                (ret', evs, mapping', outs') \<Rightarrow>
                  (ret', [avformat_new_stream True, avcodec_parameters_copy r] @ evs,
                   mapping', outs'))))"

text \<open>
  An encoded packet on its way to the muxer (lines 462-463, and again lines 507-508):
  \<^verbatim>\<open>av_packet_rescale_ts\<close> from the encoder's time base to the output video
  stream's, and the stream index set to \<^verbatim>\<open>out_video_stream->index\<close>, here \<open>k\<close>.
\<close>

definition rescale_encoded :: "env \<Rightarrow> nat \<Rightarrow> AVPacket \<Rightarrow> AVPacket" where
  "rescale_encoded e k enc_pkt =
     (av_packet_rescale_ts e enc_pkt (enc_time_base e) (out_time_base e k))
       \<lparr>stream_index := k\<rparr>"

text \<open>
  The inner loop \<^verbatim>\<open>while (ret >= 0)\<close> that receives packets from the encoder (lines
  456-467). \<open>k\<close> is \<^verbatim>\<open>out_video_stream->index\<close>. The result is \<open>Some ret\<close> with the
  value of \<^verbatim>\<open>ret\<close> when the loop is left, or \<open>None\<close> for \<^verbatim>\<open>goto cleanup\<close>;
  then the calls made, the encoder answers still to come, and the other answers.
\<close>

fun enc_drain ::
  "env \<Rightarrow> nat \<Rightarrow> int \<Rightarrow> (int \<times> AVPacket) list \<Rightarrow> world
     \<Rightarrow> int option \<times> event list \<times> (int \<times> AVPacket) list \<times> world" where
  "enc_drain e k ret [] w =
     (if ret \<ge> 0 then (Some AVERROR_EAGAIN, [avcodec_receive_packet AVERROR_EAGAIN], [], w)
      else (Some ret, [], [], w))"
| "enc_drain e k ret ((r, enc_pkt) # rest) w =
     (if ret \<ge> 0 then
        (if r = AVERROR_EAGAIN \<or> r = AVERROR_EOF then
           (Some r, [avcodec_receive_packet r], rest, w)
         else if r < 0 then
           (None, [avcodec_receive_packet r, Log ''Error during encoding''], rest, w)
         else
           let pkt' = rescale_encoded e k enc_pkt;
               (wr, wrs) = next_ret (write_frame_rets w);
               w' = w\<lparr>write_frame_rets := wrs\<rparr>
           in if wr < 0 then
                (None, [avcodec_receive_packet r, av_interleaved_write_frame pkt' wr,
                        Log ''Error muxing encoded packet''], rest, w')
              else
                (case enc_drain e k wr rest w' of
                   (res, evs, rest', w'') \<Rightarrow>
                     (res, [avcodec_receive_packet r, av_interleaved_write_frame pkt' wr] @ evs,
                      rest', w'')))
      else (Some ret, [], (r, enc_pkt) # rest, w))"

text \<open>
  What the body of the frame loop does with a received frame (lines 448-476): convert,
  send to the encoder, receive packets from the encoder, report progress, poll for
  cancellation. The result is \<open>Some ret\<close> with the value \<^verbatim>\<open>ret\<close> has when the body
  ends, or \<open>None\<close> for \<^verbatim>\<open>goto cleanup\<close>.
\<close>

definition process_frame ::
  "env \<Rightarrow> nat \<Rightarrow> nat \<Rightarrow> AVFrame \<Rightarrow> (int \<times> AVPacket) list \<Rightarrow> world
     \<Rightarrow> int option \<times> event list \<times> (int \<times> AVPacket) list \<times> world" where
  "process_frame e vsi k frame encs w =
     (let sws_frame = \<lparr>frame_pts = frame_pts frame\<rparr>;
          (sr, srs) = next_ret (send_frame_rets w);
          w1 = w\<lparr>send_frame_rets := srs\<rparr>
      in if sr < 0 then
           (None, [sws_scale, avcodec_send_frame (Some sws_frame) sr,
                   Log ''Error sending frame to encoder''], encs, w1)
         else
           (case enc_drain e k sr encs w1 of
              (None, evs, encs', w2) \<Rightarrow>
                (None, [sws_scale, avcodec_send_frame (Some sws_frame) sr] @ evs, encs', w2)
            | (Some ret', evs, encs', w2) \<Rightarrow>
                let (cancelled, polls) = next_poll (test_destroy w2);
                    w3 = w2\<lparr>test_destroy := polls\<rparr>;
                    evs' = [sws_scale, avcodec_send_frame (Some sws_frame) sr] @ evs
                           @ progress e (frame_pts frame) (time_base (streams e ! vsi))
                in if cancelled then
                     (None, evs' @ [TestDestroy True, Log ''Conversion cancelled''], encs', w3)
                   else (Some ret', evs' @ [TestDestroy False], encs', w3)))"

text \<open>
  The frame loop \<^verbatim>\<open>while (ret >= 0)\<close> that receives frames from the decoder (lines
  443-477), entered with the value \<^verbatim>\<open>ret\<close> has after \<^verbatim>\<open>avcodec_send_packet\<close>.
  The loop condition reads the same variable \<^verbatim>\<open>ret\<close> that the body assigns.
\<close>

fun dec_drain ::
  "env \<Rightarrow> nat \<Rightarrow> nat \<Rightarrow> int \<Rightarrow> (int \<times> AVFrame) list \<Rightarrow> (int \<times> AVPacket) list \<Rightarrow> world
     \<Rightarrow> int option \<times> event list \<times> (int \<times> AVFrame) list \<times> (int \<times> AVPacket) list \<times> world" where
  "dec_drain e vsi k ret [] encs w =
     (if ret \<ge> 0 then
        (Some AVERROR_EAGAIN, [avcodec_receive_frame AVERROR_EAGAIN], [], encs, w)
      else (Some ret, [], [], encs, w))"
| "dec_drain e vsi k ret ((r, frame) # rest) encs w =
     (if ret \<ge> 0 then
        (if r = AVERROR_EAGAIN \<or> r = AVERROR_EOF then
           (Some r, [avcodec_receive_frame r], rest, encs, w)
         else if r < 0 then
           (None, [avcodec_receive_frame r, Log ''Error during decoding''], rest, encs, w)
         else
           (case process_frame e vsi k frame encs w of
              (None, evs, encs', w') \<Rightarrow> (None, avcodec_receive_frame r # evs, rest, encs', w')
            | (Some ret', evs, encs', w') \<Rightarrow>
                (case dec_drain e vsi k ret' rest encs' w' of
                   (res, evs', rest', encs'', w'') \<Rightarrow>
                     (res, avcodec_receive_frame r # evs @ evs', rest', encs'', w''))))
      else (Some ret, [], (r, frame) # rest, encs, w))"

text \<open>How the main loop of the transcode path is left.\<close>

datatype loop_exit = LoopLeft | GotoCleanup

text \<open>
  The main loop of the transcode path (lines 434-499), over the results of
  \<^verbatim>\<open>av_read_frame\<close> still to come.
\<close>

fun transcode_loop ::
  "env \<Rightarrow> nat \<Rightarrow> int list \<Rightarrow> (int \<times> AVPacket) list \<Rightarrow> (int \<times> AVFrame) list
     \<Rightarrow> (int \<times> AVPacket) list \<Rightarrow> world
     \<Rightarrow> loop_exit \<times> event list \<times> (int \<times> AVFrame) list \<times> (int \<times> AVPacket) list \<times> world" where
  "transcode_loop e vsi mapping [] decs encs w =
     (LoopLeft, [av_read_frame AVERROR_EOF], decs, encs, w)"
| "transcode_loop e vsi mapping ((ret, pkt) # rest) decs encs w =
     (if ret < 0 then (LoopLeft, [av_read_frame ret], decs, encs, w)
      else if stream_index pkt = vsi then
        let (sr, srs) = next_ret (send_packet_rets w);
            w1 = w\<lparr>send_packet_rets := srs\<rparr>
        in if sr < 0 then
             (LoopLeft, [av_read_frame ret, avcodec_send_packet (Some pkt) sr,
                         Log ''Error sending packet to decoder''], decs, encs, w1)
           else
             (case dec_drain e vsi (nat (mapping ! vsi)) sr decs encs w1 of
                (None, evs, decs', encs', w2) \<Rightarrow>
                  (GotoCleanup, [av_read_frame ret, avcodec_send_packet (Some pkt) sr] @ evs,
                   decs', encs', w2)
              | (Some ret', evs, decs', encs', w2) \<Rightarrow>
                  (case transcode_loop e vsi mapping rest decs' encs' w2 of
                     (x, evs', decs'', encs'', w3) \<Rightarrow>
                       (x, [av_read_frame ret, avcodec_send_packet (Some pkt) sr] @ evs @ evs',
                        decs'', encs'', w3)))
      else if dropped mapping pkt then
        (case transcode_loop e vsi mapping rest decs encs w of
           (x, evs', decs'', encs'', w3) \<Rightarrow> (x, av_read_frame ret # evs', decs'', encs'', w3))
      else
        let pkt' = remux_packet e mapping pkt;
            (wr, wrs) = next_ret (write_frame_rets w);
            w1 = w\<lparr>write_frame_rets := wrs\<rparr>
        in if wr < 0 then
             (GotoCleanup, [av_read_frame ret, av_interleaved_write_frame pkt' wr,
                            Log ''Error muxing packet for non-video stream''], decs, encs, w1)
           else
             (case transcode_loop e vsi mapping rest decs encs w1 of
                (x, evs', decs'', encs'', w3) \<Rightarrow>
                  (x, [av_read_frame ret, av_interleaved_write_frame pkt' wr] @ evs',
                   decs'', encs'', w3)))"

text \<open>
  The loop after \<^verbatim>\<open>avcodec_send_frame(enc_ctx, NULL)\<close> (lines 503-511). The return
  value of \<^verbatim>\<open>av_interleaved_write_frame\<close> is not read here.
\<close>

fun flush_encoder ::
  "env \<Rightarrow> nat \<Rightarrow> (int \<times> AVPacket) list \<Rightarrow> world \<Rightarrow> event list" where
  "flush_encoder e k [] w = [avcodec_receive_packet AVERROR_EAGAIN]"
| "flush_encoder e k ((r, enc_pkt) # rest) w =
     (if r = AVERROR_EAGAIN \<or> r = AVERROR_EOF then [avcodec_receive_packet r]
      else if r < 0 then [avcodec_receive_packet r, Log ''Error flushing encoder'']
      else
        let pkt' = rescale_encoded e k enc_pkt;
            (wr, wrs) = next_ret (write_frame_rets w)
        in [avcodec_receive_packet r, av_interleaved_write_frame pkt' wr]
           @ flush_encoder e k rest (w\<lparr>write_frame_rets := wrs\<rparr>))"

text \<open>The block at the label \<^verbatim>\<open>cleanup\<close> (lines 515-533).\<close>

definition cleanup :: "env \<Rightarrow> string \<Rightarrow> event list" where
  "cleanup e out_filename =
     [avcodec_free_context_dec, avcodec_free_context_enc] @
     (if nofile e then [] else [avio_closep]) @
     [avformat_free_context, avformat_close_input, SetRunning False,
      Log (''Conversion finished. Output: '' @ out_filename)]"

text \<open>
  From the main loop to the end of \<^verbatim>\<open>Entry\<close> (lines 433-533), once the header is
  written.
\<close>

definition transcode_run :: "env \<Rightarrow> string \<Rightarrow> nat \<Rightarrow> int list \<Rightarrow> event list" where
  "transcode_run e out_filename vsi mapping =
     (case transcode_loop e vsi mapping (reads e) (decoded e) (encoded e) (answers e) of
        (GotoCleanup, evs, decs, encs, w) \<Rightarrow> evs @ cleanup e out_filename
      | (LoopLeft, evs, decs, encs, w) \<Rightarrow>
          let (sr, srs) = next_ret (send_frame_rets w)
          in evs @ avcodec_send_frame None sr #
             flush_encoder e (nat (mapping ! vsi)) encs (w\<lparr>send_frame_rets := srs\<rparr>) @
             av_write_trailer # cleanup e out_filename)"

text \<open>The transcode branch of \<^verbatim>\<open>Entry\<close> (lines 338-533).\<close>

definition transcode :: "env \<Rightarrow> string \<Rightarrow> event list" where
  "transcode e out_filename =
     (let video_stream_index = find_video_stream 0 (streams e) in
      if video_stream_index < 0 then
        [Log ''No video stream found for re-encoding'', avformat_close_input, SetRunning False]
      else if \<not> decoder_found e then
        [avcodec_find_decoder False, Log ''Decoder not found'', avformat_close_input,
         SetRunning False]
      else if dec_open_ret e < 0 then
        [avcodec_find_decoder True, avcodec_open2_dec (dec_open_ret e),
         Log ''Failed to open decoder'', avcodec_free_context_dec, avformat_close_input,
         SetRunning False]
      else
        [avcodec_find_decoder True, avcodec_open2_dec (dec_open_ret e),
         avformat_alloc_output_context2 (alloc_output_ok e)] @
        (if \<not> alloc_output_ok e then
           [Log ''Could not create output context'', avcodec_free_context_dec,
            avformat_close_input, SetRunning False]
         else
           case transcode_streams e video_stream_index 0 (streams e) (dec_open_ret e) 0
                  (replicate (length (streams e)) (- 1)) [] of
             (ret, evs, mapping, outs) \<Rightarrow>
               evs @
               (if ret < 0 then
                  [avformat_close_input, avformat_free_context, avcodec_free_context_dec,
                   SetRunning False]
                else if \<not> encoder_found e then
                  [avcodec_find_encoder False, Log ''H.264 encoder not found'',
                   avformat_close_input, avformat_free_context, avcodec_free_context_dec,
                   SetRunning False]
                else if enc_open_ret e < 0 then
                  [avcodec_find_encoder True, avcodec_open2_enc (enc_open_ret e),
                   Log ''Failed to open encoder'', avcodec_free_context_enc,
                   avformat_free_context, avcodec_free_context_dec, avformat_close_input,
                   SetRunning False]
                else
                  [avcodec_find_encoder True, avcodec_open2_enc (enc_open_ret e)] @
                  (if \<not> nofile e \<and> avio_open_ret e < 0 then
                     [avio_open (avio_open_ret e),
                      Log (''Could not open output file: '' @ av_strerror e (avio_open_ret e)),
                      avcodec_free_context_enc, avformat_free_context,
                      avcodec_free_context_dec, avformat_close_input, SetRunning False]
                   else
                     (if nofile e then [] else [avio_open (avio_open_ret e)]) @
                     avformat_write_header (write_header_ret e) #
                     (if write_header_ret e < 0 then
                        Log ''Error occurred when writing header'' #
                        (if nofile e then [] else [avio_closep]) @
                        [avcodec_free_context_enc, avformat_free_context,
                         avcodec_free_context_dec, avformat_close_input, SetRunning False]
                      else
                        transcode_run e out_filename (nat video_stream_index) mapping)))))"

section \<open>The thread entry\<close>

text \<open>\<^verbatim>\<open>ConverterThread::Entry\<close> (lines 210-534): the calls of one job, in order.\<close>

definition Entry :: "job \<Rightarrow> env \<Rightarrow> event list" where
  "Entry j e =
     (let out_filename = make_output_path (m_input j) (m_outFormat j) in
      Log (if m_reencode j then ''Starting encoding conversion...''
           else ''Starting remux (stream-copy) conversion...'') #
      avformat_open_input (open_input_ret e) #
      (if open_input_ret e < 0 then
         [Log (''Failed to open input: '' @ av_strerror e (open_input_ret e)),
          SetRunning False]
       else
         avformat_find_stream_info (find_stream_info_ret e) #
         (if find_stream_info_ret e < 0 then
            [Log ''Failed to find stream info'', avformat_close_input, SetRunning False]
          else if \<not> m_reencode j then remux e out_filename
          else transcode e out_filename)))"


section \<open>Classes of calls\<close>

text \<open>The calls that only the packet loops make.\<close>

fun loop_event :: "event \<Rightarrow> bool" where
  "loop_event (av_read_frame r) = True"
| "loop_event (av_interleaved_write_frame p r) = True"
| "loop_event (PostProgress n) = True"
| "loop_event (TestDestroy b) = True"
| "loop_event (avcodec_send_packet p r) = True"
| "loop_event (avcodec_receive_frame r) = True"
| "loop_event sws_scale = True"
| "loop_event (avcodec_send_frame f r) = True"
| "loop_event (avcodec_receive_packet r) = True"
| "loop_event ev = False"

text \<open>The calls made outside the packet loops, before the trailer is written.\<close>

fun setup_event :: "event \<Rightarrow> bool" where
  "setup_event (Log s) = True"
| "setup_event (SetRunning b) = True"
| "setup_event (avformat_open_input r) = True"
| "setup_event (avformat_find_stream_info r) = True"
| "setup_event avformat_close_input = True"
| "setup_event (avformat_alloc_output_context2 b) = True"
| "setup_event (avformat_new_stream b) = True"
| "setup_event (avcodec_parameters_copy r) = True"
| "setup_event avformat_free_context = True"
| "setup_event (avio_open r) = True"
| "setup_event avio_closep = True"
| "setup_event (avformat_write_header r) = True"
| "setup_event (avcodec_find_decoder b) = True"
| "setup_event (avcodec_open2_dec r) = True"
| "setup_event (avcodec_find_encoder b) = True"
| "setup_event (avcodec_open2_enc r) = True"
| "setup_event avcodec_free_context_dec = True"
| "setup_event avcodec_free_context_enc = True"
| "setup_event ev = False"

text \<open>The calls that add a stream to the output context.\<close>

fun stream_created :: "event \<Rightarrow> bool" where
  "stream_created (avformat_new_stream b) = b"
| "stream_created ev = False"

text \<open>The call that would signal end of input to the decoder.\<close>

fun decoder_flush :: "event \<Rightarrow> bool" where
  "decoder_flush (avcodec_send_packet po r) = (po = None)"
| "decoder_flush ev = False"

text \<open>
  Polls for cancellation, packets the muxer accepted, reads that delivered no packet,
  frames the decoder delivered.
\<close>

fun is_poll :: "event \<Rightarrow> bool" where
  "is_poll (TestDestroy b) = True"
| "is_poll ev = False"

fun is_written :: "event \<Rightarrow> bool" where
  "is_written (av_interleaved_write_frame p r) = (0 \<le> r)"
| "is_written ev = False"

fun read_failed :: "event \<Rightarrow> bool" where
  "read_failed (av_read_frame r) = (r < 0)"
| "read_failed ev = False"

fun is_frame :: "event \<Rightarrow> bool" where
  "is_frame (avcodec_receive_frame r) = (0 \<le> r)"
| "is_frame ev = False"

text \<open>
  The packet handed to the decoder by a call, if any; reads that delivered a packet.
\<close>

fun sent_packet :: "event \<Rightarrow> AVPacket option" where
  "sent_packet (avcodec_send_packet po r) = po"
| "sent_packet ev = None"

fun read_ok :: "event \<Rightarrow> bool" where
  "read_ok (av_read_frame r) = (0 \<le> r)"
| "read_ok ev = False"

text \<open>
  What can be said of every call the packet loop of the remux path makes, given the
  stream mapping \<open>m\<close> and the set \<open>R\<close> of packets read: a written packet is the
  rewriting of a packet read, and a progress value is reported only for a known
  duration and lies between 0 and 100.
\<close>

fun remux_event :: "env \<Rightarrow> int list \<Rightarrow> AVPacket set \<Rightarrow> event \<Rightarrow> bool" where
  "remux_event e m R (av_read_frame r) = True"
| "remux_event e m R (av_interleaved_write_frame q r) =
     (\<exists>p\<in>R. \<not> dropped m p \<and> q = remux_packet e m p)"
| "remux_event e m R (PostProgress n) = (0 < in_duration e \<and> 0 \<le> n \<and> n \<le> 100)"
| "remux_event e m R (TestDestroy b) = True"
| "remux_event e m R (Log s) = True"
| "remux_event e m R ev = False"

text \<open>
  The same for the main loop of the transcode path, with the video stream index
  \<open>vsi\<close>, the packets \<open>R\<close> read and the packets \<open>E\<close> the encoder delivers: only
  packets of the video stream are sent to the decoder, no send call signals end of
  input, and a written packet is an encoder packet or the rewriting of a packet of
  another stream.
\<close>

fun transcode_event ::
  "env \<Rightarrow> nat \<Rightarrow> int list \<Rightarrow> AVPacket set \<Rightarrow> AVPacket set \<Rightarrow> event \<Rightarrow> bool" where
  "transcode_event e vsi m R E (av_read_frame r) = True"
| "transcode_event e vsi m R E (avcodec_send_packet po r) =
     (\<exists>p\<in>R. po = Some p \<and> stream_index p = vsi)"
| "transcode_event e vsi m R E (avcodec_receive_frame r) = True"
| "transcode_event e vsi m R E sws_scale = True"
| "transcode_event e vsi m R E (avcodec_send_frame fo r) = (fo \<noteq> None)"
| "transcode_event e vsi m R E (avcodec_receive_packet r) = True"
| "transcode_event e vsi m R E (av_interleaved_write_frame q r) =
     ((\<exists>p\<in>E. q = rescale_encoded e (nat (m ! vsi)) p) \<or>
      (\<exists>p\<in>R. stream_index p \<noteq> vsi \<and> \<not> dropped m p \<and> q = remux_packet e m p))"
| "transcode_event e vsi m R E (PostProgress n) = (0 < in_duration e \<and> 0 \<le> n \<and> n \<le> 100)"
| "transcode_event e vsi m R E (TestDestroy b) = True"
| "transcode_event e vsi m R E (Log s) = True"
| "transcode_event e vsi m R E ev = False"

text \<open>
  The calls of a loop that receives packets from the encoder until it has none ready:
  packets received and written with success, then the answer \<^verbatim>\<open>AVERROR(EAGAIN)\<close>
  or \<^verbatim>\<open>AVERROR_EOF\<close>.
\<close>

fun drained :: "event list \<Rightarrow> bool" where
  "drained [] = False"
| "drained (ev # evs) =
     (case ev of
        avcodec_receive_packet r \<Rightarrow>
          (case evs of
             [] \<Rightarrow> r = AVERROR_EAGAIN \<or> r = AVERROR_EOF
           | ev' # evs' \<Rightarrow>
               (case ev' of
                  av_interleaved_write_frame q wr \<Rightarrow> 0 \<le> r \<and> 0 \<le> wr \<and> drained evs'
                | _ \<Rightarrow> False))
      | _ \<Rightarrow> False)"

text \<open>
  The same for the loop after the end of input, which also stops at an error of the
  encoder, logging it.
\<close>

fun flushed :: "event list \<Rightarrow> bool" where
  "flushed [] = False"
| "flushed (ev # evs) =
     (case ev of
        avcodec_receive_packet r \<Rightarrow>
          (case evs of
             [] \<Rightarrow> r = AVERROR_EAGAIN \<or> r = AVERROR_EOF
           | ev' # evs' \<Rightarrow>
               (case ev' of
                  av_interleaved_write_frame q wr \<Rightarrow> 0 \<le> r \<and> flushed evs'
                | Log s \<Rightarrow> r < 0 \<and> s = ''Error flushing encoder'' \<and> evs' = []
                | _ \<Rightarrow> False))
      | _ \<Rightarrow> False)"

section \<open>The order of the calls of the frame loop\<close>

text \<open>
  Every call of a trace stands in the relation \<open>R\<close> to the calls that follow it.
\<close>

fun all_followed :: "(event \<Rightarrow> event list \<Rightarrow> bool) \<Rightarrow> event list \<Rightarrow> bool" where
  "all_followed R [] = True"
| "all_followed R (ev # evs) = (R ev evs \<and> all_followed R evs)"

text \<open>
  The frame handed to the encoder by a call, if any; requests for a frame; calls to the
  decoder; video packets the decoder accepted; frames the encoder accepted.
\<close>

fun sent_frame :: "event \<Rightarrow> AVFrame option" where
  "sent_frame (avcodec_send_frame fo r) = fo"
| "sent_frame ev = None"

fun frame_request :: "event \<Rightarrow> bool" where
  "frame_request (avcodec_receive_frame r) = True"
| "frame_request ev = False"

fun decoder_call :: "event \<Rightarrow> bool" where
  "decoder_call (avcodec_send_packet po r) = True"
| "decoder_call (avcodec_receive_frame r) = True"
| "decoder_call ev = False"

fun packet_accepted :: "event \<Rightarrow> bool" where
  "packet_accepted (avcodec_send_packet po r) = (po \<noteq> None \<and> 0 \<le> r)"
| "packet_accepted ev = False"

fun frame_accepted :: "event \<Rightarrow> bool" where
  "frame_accepted (avcodec_send_frame fo r) = (fo \<noteq> None \<and> 0 \<le> r)"
| "frame_accepted ev = False"

text \<open>
  The calls of a loop over the encoder's packets that an error ends: packets received
  and written with success, then either an error of the encoder (line 459) or a packet
  received but refused by the muxer (line 466), and the log line of the error.
\<close>

fun drain_failed :: "event list \<Rightarrow> bool" where
  "drain_failed [] = False"
| "drain_failed (ev # evs) =
     (case ev of
        avcodec_receive_packet r \<Rightarrow>
          (case evs of
             [] \<Rightarrow> False
           | ev' # evs' \<Rightarrow>
               (case ev' of
                  av_interleaved_write_frame q wr \<Rightarrow>
                    0 \<le> r \<and>
                    (if wr < 0 then evs' = [Log ''Error muxing encoded packet'']
                     else drain_failed evs')
                | Log s \<Rightarrow>
                    r < 0 \<and> r \<noteq> AVERROR_EAGAIN \<and> r \<noteq> AVERROR_EOF \<and>
                    s = ''Error during encoding'' \<and> evs' = []
                | _ \<Rightarrow> False))
      | _ \<Rightarrow> False)"

text \<open>
  What the calls after a call begin with: a request for a frame; the conversion of a
  frame and its submission to the encoder; a loop over the encoder's packets, drained or
  ended by an error.
\<close>

definition starts_request :: "event list \<Rightarrow> bool" where
  "starts_request post = (case post of [] \<Rightarrow> False | ev # rest \<Rightarrow> frame_request ev)"

definition starts_conversion :: "event list \<Rightarrow> bool" where
  "starts_conversion post =
     (case post of
        ev # ev' # rest \<Rightarrow> ev = sws_scale \<and> sent_frame ev' \<noteq> None
      | _ \<Rightarrow> False)"

definition starts_drain :: "event list \<Rightarrow> bool" where
  "starts_drain post =
     list_ex (\<lambda>n. drained (take n post) \<or> drain_failed (take n post)) [0..<Suc (length post)]"

text \<open>
  What follows the calls of the frame loop: a request for a frame after an accepted
  packet, the conversion after a frame, the loop over the encoder's packets after an
  accepted frame.
\<close>

definition frame_step :: "event \<Rightarrow> event list \<Rightarrow> bool" where
  "frame_step ev post =
     ((packet_accepted ev \<longrightarrow> starts_request post) \<and>
      (is_frame ev \<longrightarrow> starts_conversion post) \<and>
      (frame_accepted ev \<longrightarrow> starts_drain post))"

text \<open>After a read that delivered no packet the decoder is not called again.\<close>

definition after_end :: "event \<Rightarrow> event list \<Rightarrow> bool" where
  "after_end ev post = (read_failed ev \<longrightarrow> list_all (\<lambda>x. \<not> decoder_call x) post)"

section \<open>The place of the polls\<close>

text \<open>Progress reports.\<close>

fun is_progress :: "event \<Rightarrow> bool" where
  "is_progress (PostProgress n) = True"
| "is_progress ev = False"

text \<open>
  The log lines of the three errors that send the job from the body of the frame loop to
  the label \<^verbatim>\<open>cleanup\<close> (lines 454, 459, 466).
\<close>

fun frame_error :: "event \<Rightarrow> bool" where
  "frame_error (Log s) =
     (s = ''Error sending frame to encoder'' \<or> s = ''Error during encoding'' \<or>
      s = ''Error muxing encoded packet'')"
| "frame_error ev = False"

text \<open>
  The calls of the body of the frame loop between the receipt of a frame and the poll:
  conversion, the encoder calls, the writes and the progress report.
\<close>

fun frame_work :: "event \<Rightarrow> bool" where
  "frame_work sws_scale = True"
| "frame_work (avcodec_send_frame f r) = True"
| "frame_work (avcodec_receive_packet r) = True"
| "frame_work (av_interleaved_write_frame p r) = True"
| "frame_work (PostProgress n) = True"
| "frame_work ev = False"

text \<open>
  Where a job stands with respect to the polls. A call that satisfies \<open>trig\<close> makes
  a poll due (\<open>Pending\<close>); until the poll only calls that satisfy \<open>work\<close> may
  follow; the poll, when it does not see the cancellation, settles it (\<open>Idle\<close>). A
  poll that sees the cancellation, or a call that satisfies \<open>fails\<close> while a poll is
  due, ends the packet loops (\<open>Stopped\<close>): no call of the loops may follow. A poll
  that is not due is refused, and so is any other call out of place.
\<close>

datatype phase = Idle | Pending | Stopped

definition phase_step ::
  "(event \<Rightarrow> bool) \<Rightarrow> (event \<Rightarrow> bool) \<Rightarrow> (event \<Rightarrow> bool) \<Rightarrow> phase \<Rightarrow> event \<Rightarrow> phase option" where
  "phase_step trig work fails s ev =
     (case s of
        Idle \<Rightarrow> if is_poll ev then None else if trig ev then Some Pending else Some Idle
      | Pending \<Rightarrow>
          if ev = TestDestroy True then Some Stopped
          else if is_poll ev then Some Idle
          else if fails ev then Some Stopped
          else if work ev then Some Pending
          else None
      | Stopped \<Rightarrow> if loop_event ev then None else Some Stopped)"

fun phase_run ::
  "(event \<Rightarrow> bool) \<Rightarrow> (event \<Rightarrow> bool) \<Rightarrow> (event \<Rightarrow> bool) \<Rightarrow> phase \<Rightarrow> event list \<Rightarrow> phase option" where
  "phase_run trig work fails s [] = Some s"
| "phase_run trig work fails s (ev # evs) =
     (case phase_step trig work fails s ev of
        None \<Rightarrow> None
      | Some s' \<Rightarrow> phase_run trig work fails s' evs)"

text \<open>
  Reads; what the calls after a poll that saw no cancellation begin with, namely the
  next read or the next request for a frame.
\<close>

fun is_read :: "event \<Rightarrow> bool" where
  "is_read (av_read_frame r) = True"
| "is_read ev = False"

definition starts_next :: "event list \<Rightarrow> bool" where
  "starts_next post = (case post of [] \<Rightarrow> False | ev # rest \<Rightarrow> is_read ev \<or> frame_request ev)"

definition poll_step :: "event \<Rightarrow> event list \<Rightarrow> bool" where
  "poll_step ev post = (ev = TestDestroy False \<longrightarrow> starts_next post)"

section \<open>The library as the specification describes it\<close>

text \<open>
  Modelled from the spec: the rescaling functions \<^verbatim>\<open>av_rescale_q_rnd\<close> and
  \<^verbatim>\<open>av_rescale_q\<close> belong to libavutil and are not in the repository. The
  specification says of them: "Rescaling uses round-to-nearest with ties resolved away
  from zero, and clamps to the representable min/max rather than overflowing (the same
  discipline must apply to both pts and dts; duration uses plain rescale without
  rounding-mode clamping since it is always non-negative)", from the input stream's time
  base to the output stream's.
\<close>

definition q2rat :: "AVRational \<Rightarrow> rat" where
  "q2rat q = of_int (num q) / of_int (den q)"

definition round_half_away :: "rat \<Rightarrow> int" where
  "round_half_away x = (if x < 0 then - \<lfloor>- x + 1 / 2\<rfloor> else \<lfloor>x + 1 / 2\<rfloor>)"

definition clamp_int64 :: "int \<Rightarrow> int" where
  "clamp_int64 x = max (- (2 ^ 63)) (min (2 ^ 63 - 1) x)"

definition spec_rescale_q :: "int \<Rightarrow> AVRational \<Rightarrow> AVRational \<Rightarrow> int" where
  "spec_rescale_q a bq cq = round_half_away (of_int a * q2rat bq / q2rat cq)"

definition spec_rescale_q_rnd ::
  "int \<Rightarrow> AVRational \<Rightarrow> AVRational \<Rightarrow> AVRounding set \<Rightarrow> int" where
  "spec_rescale_q_rnd a bq cq rnd =
     (if AV_ROUND_PASS_MINMAX \<in> rnd then clamp_int64 (spec_rescale_q a bq cq)
      else spec_rescale_q a bq cq)"

definition library_as_specified :: "env \<Rightarrow> bool" where
  "library_as_specified e =
     (av_rescale_q_rnd e = spec_rescale_q_rnd \<and> av_rescale_q e = spec_rescale_q)"

section \<open>Concrete jobs\<close>

text \<open>
  The progress expression in exact arithmetic, truncated towards zero as the cast to
  \<^verbatim>\<open>int\<close> does. It agrees with the double-precision computation wherever every
  intermediate value is an integer below \<open>2^53\<close>, as on the inputs below.
\<close>

definition exact_progress :: "int \<Rightarrow> AVRational \<Rightarrow> int \<Rightarrow> int" where
  "exact_progress p tb d =
     (let x = (of_int p * q2rat tb * 1000000) * 100 / (of_int d :: rat)
      in if x < 0 then - \<lfloor>- x\<rfloor> else \<lfloor>x\<rfloor>)"

definition video_stream :: AVStream where
  "video_stream =
     \<lparr>codecpar = \<lparr>codec_type = AVMEDIA_TYPE_VIDEO, codec_id = 27, codec_tag = 828601953,
                  extradata = [1, 100]\<rparr>,
      time_base = \<lparr>num = 1, den = 1\<rparr>\<rparr>"

definition audio_stream :: AVStream where
  "audio_stream =
     \<lparr>codecpar = \<lparr>codec_type = AVMEDIA_TYPE_AUDIO, codec_id = 86018, codec_tag = 1630826605,
                  extradata = [18, 16]\<rparr>,
      time_base = \<lparr>num = 1, den = 1000\<rparr>\<rparr>"

definition packet :: "nat \<Rightarrow> int \<Rightarrow> AVPacket" where
  "packet i t = \<lparr>stream_index = i, pts = t, dts = t, duration = 1, pos = 4096, data = [0]\<rparr>"

text \<open>
  A packet as \<^verbatim>\<open>av_packet_alloc\<close> returns it. FFmpeg documents of
  \<^verbatim>\<open>av_interleaved_write_frame\<close> that "the returned packet will be blank (as if
  returned from \<^verbatim>\<open>av_packet_alloc()\<close>), even on error".
\<close>

definition blank_packet :: AVPacket where
  "blank_packet =
     \<lparr>stream_index = 0, pts = AV_NOPTS_VALUE, dts = AV_NOPTS_VALUE, duration = 0, pos = - 1,
      data = []\<rparr>"

text \<open>
  A two-second input with a video and an audio stream on which every library call
  succeeds and the muxer hands every packet back blank; the packets and the codec
  answers are filled in per example.
\<close>

definition env0 :: env where
  "env0 =
     \<lparr>open_input_ret = 0, av_strerror = (\<lambda>r. ''error''), find_stream_info_ret = 0,
      streams = [video_stream, audio_stream], in_duration = 2000000,
      alloc_output_ok = True, new_stream_ok = (\<lambda>i. True), parameters_copy_ret = (\<lambda>i. 0),
      nofile = False, avio_open_ret = 0, write_header_ret = 0,
      out_time_base = (\<lambda>k. \<lparr>num = 1, den = 1\<rparr>),
      decoder_found = True, dec_open_ret = 0, encoder_found = True, enc_open_ret = 0,
      enc_time_base = \<lparr>num = 1, den = 1\<rparr>,
      av_rescale_q_rnd = spec_rescale_q_rnd, av_rescale_q = spec_rescale_q,
      av_packet_rescale_ts = (\<lambda>p src dst. p),
      written_pkt = (\<lambda>p. blank_packet),
      progress_raw = exact_progress,
      reads = [], decoded = [], encoded = [],
      answers = \<lparr>send_packet_rets = [], send_frame_rets = [], write_frame_rets = [],
                 test_destroy = []\<rparr>\<rparr>"

definition remux_job :: job where
  "remux_job = \<lparr>m_input = ''/videos/clip.avi'', m_outFormat = ''mkv'', m_reencode = False\<rparr>"

definition transcode_job :: job where
  "transcode_job = \<lparr>m_input = ''/videos/clip.avi'', m_outFormat = ''mp4'', m_reencode = True\<rparr>"



text \<open>
  One video packet for which the decoder has no frame ready yet; then the input ends,
  and the encoder, told so, has nothing left.
\<close>

definition eos_env :: env where
  "eos_env =
     env0\<lparr>reads := [(0, packet 0 0)],
          decoded := [(AVERROR_EAGAIN, \<lparr>frame_pts = 0\<rparr>)],
          encoded := [(AVERROR_EOF, packet 0 0)]\<rparr>"

text \<open>
  One video packet that yields a frame, for which the encoder has no packet ready; when
  the input has ended the encoder delivers the packet and then reports the end.
\<close>

definition flush_env :: env where
  "flush_env =
     env0\<lparr>reads := [(0, packet 0 0)],
          decoded := [(0, \<lparr>frame_pts = 0\<rparr>)],
          encoded := [(AVERROR_EAGAIN, packet 0 0), (0, packet 0 0), (AVERROR_EOF, packet 0 0)]\<rparr>"

text \<open>
  One video packet for which the decoder has no frame ready yet; it would deliver the
  frame at the next request. Then the input ends.
\<close>

definition held_env :: env where
  "held_env =
     env0\<lparr>reads := [(0, packet 0 0)],
          decoded := [(AVERROR_EAGAIN, \<lparr>frame_pts = 0\<rparr>), (0, \<lparr>frame_pts = 0\<rparr>)]\<rparr>"

text \<open>
  One video packet that yields a frame, for which the encoder delivers one packet
  before it reports that none is ready.
\<close>

definition encode_env :: env where
  "encode_env =
     env0\<lparr>reads := [(0, packet 0 0)],
          decoded := [(0, \<lparr>frame_pts = 0\<rparr>)],
          encoded := [(0, packet 0 5), (AVERROR_EAGAIN, packet 0 0)]\<rparr>"

text \<open>A video and an audio packet, and a cancellation seen at the first poll.\<close>

definition cancel_env :: env where
  "cancel_env =
     env0\<lparr>reads := [(0, packet 0 0), (0, packet 1 0)],
          decoded := [(0, \<lparr>frame_pts = 0\<rparr>)],
          answers := \<lparr>send_packet_rets = [], send_frame_rets = [], write_frame_rets = [],
                      test_destroy = [True]\<rparr>\<rparr>"

text \<open>
  Two video packets, each of which yields a frame; the presentation times go backwards
  (1 s, then 0 s), as at a timestamp discontinuity in the input.
\<close>

definition reorder_env :: env where
  "reorder_env =
     env0\<lparr>reads := [(0, packet 0 1), (0, packet 0 0)],
          decoded := [(0, \<lparr>frame_pts = 1\<rparr>), (0, \<lparr>frame_pts = 0\<rparr>)]\<rparr>"

text \<open>Two video packets, for neither of which the decoder has a frame ready.\<close>

definition delay_env :: env where
  "delay_env =
     env0\<lparr>reads := [(0, packet 0 0), (0, packet 0 1)],
          decoded := [(AVERROR_EAGAIN, \<lparr>frame_pts = 0\<rparr>), (AVERROR_EAGAIN, \<lparr>frame_pts = 0\<rparr>)]\<rparr>"

text \<open>
  One video packet on which the decoder fails (\<open>-22\<close> is \<^verbatim>\<open>AVERROR(EINVAL)\<close>).
\<close>

definition decode_error_env :: env where
  "decode_error_env =
     env0\<lparr>reads := [(0, packet 0 0)], decoded := [(- 22, \<lparr>frame_pts = 0\<rparr>)]\<rparr>"

text \<open>
  An input whose first stream is audio and whose second is video: an audio packet, a
  video packet that yields a frame, another audio packet.
\<close>

definition pick_env :: env where
  "pick_env =
     env0\<lparr>streams := [audio_stream, video_stream],
          reads := [(0, packet 0 0), (0, packet 1 0), (0, packet 0 1)],
          decoded := [(0, \<lparr>frame_pts = 0\<rparr>)]\<rparr>"

text \<open>An input with an audio stream only.\<close>

definition audio_only_env :: env where
  "audio_only_env = env0\<lparr>streams := [audio_stream], reads := [(0, packet 0 0)]\<rparr>"


text \<open>
  Two audio packets, stamped 1500 ms and -1500 ms, copied into an output stream that
  counts in seconds.
\<close>

definition rescale_env :: env where
  "rescale_env = env0\<lparr>reads := [(0, packet 1 1500), (0, packet 1 (- 1500))]\<rparr>"

section \<open>Output path derivation: proofs\<close>

lemma find_last_of_None:
  "find_last_of xs cs = None \<longleftrightarrow> (\<forall>x\<in>set xs. x \<notin> set cs)"
  by (induction xs) (auto split: option.splits)

lemma find_last_of_less: "find_last_of xs cs = Some i \<Longrightarrow> i < length xs"
  by (induction xs arbitrary: i) (auto split: option.splits if_splits)

lemma find_last_of_take:
  "find_last_of xs cs = Some i \<Longrightarrow>
     take (Suc i) xs = rev (dropWhile (\<lambda>c. c \<notin> set cs) (rev xs))"
proof (induction xs arbitrary: i)
  case Nil
  then show ?case by simp
next
  case (Cons x xs)
  show ?case
  proof (cases "find_last_of xs cs")
    case None
    then have "\<forall>y\<in>set xs. y \<notin> set cs" by (simp add: find_last_of_None)
    then have "dropWhile (\<lambda>c. c \<notin> set cs) (rev xs) = []" by simp
    with None Cons.prems show ?thesis by (auto simp: dropWhile_append split: if_splits)
  next
    case (Some k)
    then have hit: "\<exists>y\<in>set xs. y \<in> set cs" using find_last_of_None[of xs cs] by auto
    from Some Cons.prems have i: "i = Suc k" by simp
    have "dropWhile (\<lambda>c. c \<notin> set cs) (rev xs @ [x]) = dropWhile (\<lambda>c. c \<notin> set cs) (rev xs) @ [x]"
      using hit by (auto simp: dropWhile_append)
    with Cons.IH[OF Some] i show ?thesis by simp
  qed
qed

lemma find_last_of_drop:
  "find_last_of xs cs = Some i \<Longrightarrow>
     drop (Suc i) xs = rev (takeWhile (\<lambda>c. c \<notin> set cs) (rev xs))"
proof (induction xs arbitrary: i)
  case Nil
  then show ?case by simp
next
  case (Cons x xs)
  show ?case
  proof (cases "find_last_of xs cs")
    case None
    then have "\<forall>y\<in>set xs. y \<notin> set cs" by (simp add: find_last_of_None)
    then have "takeWhile (\<lambda>c. c \<notin> set cs) (rev xs) = rev xs" by simp
    with None Cons.prems show ?thesis by (auto simp: takeWhile_append split: if_splits)
  next
    case (Some k)
    then have hit: "\<exists>y\<in>set xs. y \<in> set cs" using find_last_of_None[of xs cs] by auto
    from Some Cons.prems have i: "i = Suc k" by simp
    have "takeWhile (\<lambda>c. c \<notin> set cs) (rev xs @ [x]) = takeWhile (\<lambda>c. c \<notin> set cs) (rev xs)"
      using hit by (auto simp: takeWhile_append)
    with Cons.IH[OF Some] i show ?thesis by simp
  qed
qed

lemma find_last_of_take_before:
  assumes "find_last_of xs cs = Some i"
  shows "take i xs = rev (tl (dropWhile (\<lambda>c. c \<notin> set cs) (rev xs)))"
proof -
  have "take i xs = butlast (take (Suc i) xs)"
    using find_last_of_less[OF assms] by (simp add: butlast_take)
  then show ?thesis using find_last_of_take[OF assms] by (simp add: butlast_rev)
qed

text \<open>
  Claim C9. For every input path and output format, the path \<^verbatim>\<open>make_output_path\<close>
  computes is the input's directory (everything up to and including the last slash or
  backslash), then the base name with its extension stripped (the last dot and what
  follows it), then \<open>_converted.\<close> and the output format. The result is a function of
  the two strings alone: nothing is looked up in the file system.
\<close>

theorem make_output_path_spec:
  "make_output_path inPath outFmt = spec_output_path inPath outFmt"
proof -
  have dot: "(\<lambda>c. c \<notin> set [CHR ''.'']) = (\<lambda>c. c \<noteq> CHR ''.'')" by auto
  show ?thesis
  proof (cases "find_last_of inPath [CHR ''/'', CHR 0x5C]")
    case None
    then have "\<forall>x\<in>set inPath. \<not> is_sep x" by (auto simp: find_last_of_None is_sep_def)
    then have dir: "spec_dir inPath = []" and base: "spec_basename inPath = inPath"
      by (simp_all add: spec_dir_def spec_basename_def takeWhile_eq_all_conv[THEN iffD2])
    show ?thesis
    proof (cases "find_last_of inPath [CHR ''.'']")
      case nodot: None
      then have "CHR ''.'' \<notin> set inPath" by (auto simp: find_last_of_None)
      with None nodot dir base show ?thesis
        by (simp add: make_output_path_def spec_output_path_def spec_strip_ext_def)
    next
      case (Some d)
      then have "CHR ''.'' \<in> set inPath" using find_last_of_None[of inPath "[CHR ''.'']"] by auto
      with None Some dir base find_last_of_take_before[OF Some] show ?thesis
        by (simp add: make_output_path_def spec_output_path_def spec_strip_ext_def dot)
    qed
  next
    case (Some i)
    have dir: "spec_dir inPath = take (Suc i) inPath"
      and base: "spec_basename inPath = drop (Suc i) inPath"
      using find_last_of_take[OF Some] find_last_of_drop[OF Some]
      by (simp_all add: spec_dir_def spec_basename_def is_sep_def)
    show ?thesis
    proof (cases "find_last_of (drop (Suc i) inPath) [CHR ''.'']")
      case nodot: None
      then have "CHR ''.'' \<notin> set (drop (Suc i) inPath)" by (auto simp: find_last_of_None)
      with Some nodot dir base show ?thesis
        by (simp add: make_output_path_def spec_output_path_def spec_strip_ext_def)
    next
      case hasdot: (Some d)
      then have "CHR ''.'' \<in> set (drop (Suc i) inPath)"
        using find_last_of_None[of "drop (Suc i) inPath" "[CHR ''.'']"] by auto
      with Some hasdot dir base find_last_of_take_before[OF hasdot] show ?thesis
        by (simp add: make_output_path_def spec_output_path_def spec_strip_ext_def dot)
    qed
  qed
qed

theorem make_output_path_spec_witness:
  "make_output_path ''/videos/my.clips/holiday.2019.avi'' ''mkv''
     = ''/videos/my.clips/holiday.2019_converted.mkv''"
  using make_output_path_spec [of "''/videos/my.clips/holiday.2019.avi''" "''mkv''"]
  by (simp add: spec_output_path_def spec_dir_def spec_basename_def spec_strip_ext_def is_sep_def)


section \<open>Stream setup and the structure of a job\<close>

lemma AVERROR_neg [simp]: "AVERROR_EAGAIN < 0" "AVERROR_EOF < 0" "AVERROR_UNKNOWN < 0"
  "\<not> 0 \<le> AVERROR_EAGAIN" "\<not> 0 \<le> AVERROR_EOF" "\<not> 0 \<le> AVERROR_UNKNOWN"
  by (simp_all add: AVERROR_EAGAIN_def AVERROR_EOF_def AVERROR_UNKNOWN_def)

lemma remux_streams_ok:
  "remux_streams e i ss ret sidx mapping outs = (ret', evs, mapping', outs') \<Longrightarrow> 0 \<le> ret' \<Longrightarrow>
     outs' = outs @ map (\<lambda>s. Some ((codecpar s)\<lparr>codec_tag := 0\<rparr>)) ss \<and>
     length mapping' = length mapping \<and>
     (\<forall>j < length mapping. mapping' ! j =
        (if i \<le> j \<and> j < i + length ss then sidx + int (j - i) else mapping ! j))"
proof (induction ss arbitrary: i ret sidx mapping outs evs)
  case Nil
  then show ?case by simp
next
  case (Cons s ss)
  from Cons.prems have ok: "new_stream_ok e i" and r: "0 \<le> parameters_copy_ret e i"
    by (auto simp: Let_def split: if_splits prod.splits)
  with Cons.prems obtain evs0 where
    rec: "remux_streams e (Suc i) ss (parameters_copy_ret e i) (sidx + 1) (mapping[i := sidx])
            (outs @ [Some ((codecpar s)\<lparr>codec_tag := 0\<rparr>)]) = (ret', evs0, mapping', outs')"
    by (auto simp: Let_def split: if_splits prod.splits)
  from Cons.IH[OF rec Cons.prems(2)] show ?case
    by (auto simp: nth_list_update)
qed

lemma remux_streams_loop_free:
  "remux_streams e i ss ret sidx mapping outs = (ret', evs, mapping', outs') \<Longrightarrow>
     \<forall>ev\<in>set evs. setup_event ev \<and> (\<forall>r. ev \<noteq> avformat_write_header r)"
proof (induction ss arbitrary: i ret sidx mapping outs evs)
  case Nil
  then show ?case by simp
next
  case (Cons s ss)
  show ?case
  proof (cases "new_stream_ok e i \<and> 0 \<le> parameters_copy_ret e i")
    case False
    with Cons.prems show ?thesis by (auto simp: Let_def split: if_splits)
  next
    case True
    with Cons.prems obtain evs0 where
      rec: "remux_streams e (Suc i) ss (parameters_copy_ret e i) (sidx + 1) (mapping[i := sidx])
              (outs @ [Some ((codecpar s)\<lparr>codec_tag := 0\<rparr>)]) = (ret', evs0, mapping', outs')"
      and evs: "evs = [avformat_new_stream True, avcodec_parameters_copy (parameters_copy_ret e i)] @ evs0"
      by (auto simp: Let_def split: if_splits prod.splits)
    from Cons.IH[OF rec] evs show ?thesis by simp
  qed
qed

lemma remux_streams_identity:
  assumes "remux_streams e 0 ss ret 0 (replicate (length ss) (- 1)) [] = (ret', evs, mapping', outs')"
    and "0 \<le> ret'"
  shows "mapping' = map int [0..<length ss]"
    and "outs' = map (\<lambda>s. Some ((codecpar s)\<lparr>codec_tag := 0\<rparr>)) ss"
proof -
  from remux_streams_ok[OF assms] have
    l: "length mapping' = length ss" and
    n: "\<forall>j < length ss. mapping' ! j = int j" and
    o: "outs' = map (\<lambda>s. Some ((codecpar s)\<lparr>codec_tag := 0\<rparr>)) ss"
    by auto
  show "mapping' = map int [0..<length ss]"
    using l n by (intro nth_equalityI) auto
  show "outs' = map (\<lambda>s. Some ((codecpar s)\<lparr>codec_tag := 0\<rparr>)) ss" by (rule o)
qed


lemma transcode_streams_ok:
  "transcode_streams e vsi i ss ret cnt mapping outs = (ret', evs, mapping', outs') \<Longrightarrow> 0 \<le> ret' \<Longrightarrow>
     length mapping' = length mapping \<and>
     (\<forall>j < length mapping. mapping' ! j =
        (if i \<le> j \<and> j < i + length ss then cnt + int (j - i) else mapping ! j))"
proof (induction ss arbitrary: i ret cnt mapping outs evs)
  case Nil
  then show ?case by simp
next
  case (Cons s ss)
  from Cons.prems have ok: "new_stream_ok e i"
    by (auto simp: Let_def split: if_splits prod.splits)
  show ?case
  proof (cases "int i = vsi")
    case True
    with ok Cons.prems obtain evs0 where
      rec: "transcode_streams e vsi (Suc i) ss ret (cnt + 1) (mapping[i := cnt]) (outs @ [None])
              = (ret', evs0, mapping', outs')"
      by (auto simp: Let_def split: if_splits prod.splits)
    from Cons.IH[OF rec Cons.prems(2)] show ?thesis
      by (auto simp: nth_list_update)
  next
    case False
    with ok Cons.prems have r: "0 \<le> parameters_copy_ret e i"
      by (auto simp: Let_def split: if_splits prod.splits)
    with False ok Cons.prems obtain evs0 where
      rec: "transcode_streams e vsi (Suc i) ss (parameters_copy_ret e i) (cnt + 1)
              (mapping[i := cnt]) (outs @ [Some ((codecpar s)\<lparr>codec_tag := 0\<rparr>)])
              = (ret', evs0, mapping', outs')"
      by (auto simp: Let_def split: if_splits prod.splits)
    from Cons.IH[OF rec Cons.prems(2)] show ?thesis
      by (auto simp: nth_list_update)
  qed
qed

lemma transcode_streams_identity:
  assumes "transcode_streams e vsi 0 ss ret 0 (replicate (length ss) (- 1)) [] = (ret', evs, mapping', outs')"
    and "0 \<le> ret'"
  shows "mapping' = map int [0..<length ss]"
proof -
  from transcode_streams_ok[OF assms] have
    l: "length mapping' = length ss" and
    n: "\<forall>j < length ss. mapping' ! j = int j"
    by auto
  show "mapping' = map int [0..<length ss]"
    using l n by (intro nth_equalityI) auto
qed

lemma transcode_streams_loop_free:
  "transcode_streams e vsi i ss ret cnt mapping outs = (ret', evs, mapping', outs') \<Longrightarrow>
     \<forall>ev\<in>set evs. setup_event ev \<and> (\<forall>r. ev \<noteq> avformat_write_header r)"
proof (induction ss arbitrary: i ret cnt mapping outs evs)
  case Nil
  then show ?case by simp
next
  case (Cons s ss)
  show ?case
  proof (cases "new_stream_ok e i \<and> (int i = vsi \<or> 0 \<le> parameters_copy_ret e i)")
    case False
    with Cons.prems show ?thesis by (auto simp: Let_def split: if_splits)
  next
    case True
    with Cons.prems obtain evs0 r0 o0 where
      rec: "transcode_streams e vsi (Suc i) ss r0 (cnt + 1) (mapping[i := cnt]) o0
              = (ret', evs0, mapping', outs')"
      and evs: "evs = avformat_new_stream True # evs0 \<or>
                evs = [avformat_new_stream True, avcodec_parameters_copy (parameters_copy_ret e i)] @ evs0"
      by (auto simp: Let_def split: if_splits prod.splits)
    from Cons.IH[OF rec] evs show ?thesis by auto
  qed
qed

lemma find_video_stream_neg:
  "(find_video_stream i ss < 0) = (\<forall>s\<in>set ss. codec_type (codecpar s) \<noteq> AVMEDIA_TYPE_VIDEO)"
  by (induction ss arbitrary: i) auto

lemma find_video_stream_first:
  "0 \<le> find_video_stream i ss \<Longrightarrow>
     \<exists>k < length ss. find_video_stream i ss = int (i + k) \<and>
        codec_type (codecpar (ss ! k)) = AVMEDIA_TYPE_VIDEO \<and>
        (\<forall>j < k. codec_type (codecpar (ss ! j)) \<noteq> AVMEDIA_TYPE_VIDEO)"
proof (induction ss arbitrary: i)
  case Nil
  then show ?case by simp
next
  case (Cons s ss)
  show ?case
  proof (cases "codec_type (codecpar s) = AVMEDIA_TYPE_VIDEO")
    case True
    then show ?thesis by (intro exI[of _ 0]) simp
  next
    case False
    with Cons.prems have "0 \<le> find_video_stream (Suc i) ss" by simp
    from Cons.IH[OF this] obtain k where k: "k < length ss"
      "find_video_stream (Suc i) ss = int (Suc i + k)"
      "codec_type (codecpar (ss ! k)) = AVMEDIA_TYPE_VIDEO"
      "\<forall>j < k. codec_type (codecpar (ss ! j)) \<noteq> AVMEDIA_TYPE_VIDEO" by blast
    show ?thesis
    proof (intro exI[of _ "Suc k"] conjI allI impI)
      fix j assume "j < Suc k"
      then show "codec_type (codecpar ((s # ss) ! j)) \<noteq> AVMEDIA_TYPE_VIDEO"
        using False k(4) by (cases j) auto
    qed (use False k in auto)
  qed
qed

lemma remux_cases:
  "(\<forall>ev\<in>set (remux e out). setup_event ev \<and> (\<forall>r. ev = avformat_write_header r \<longrightarrow> r < 0)) \<or>
   (\<exists>pre. remux e out = pre @ remux_loop e (map int [0..<length (streams e)]) (reads e) (answers e)
                          @ finalize e out \<and>
          (\<forall>ev\<in>set pre. setup_event ev))"
proof (cases "alloc_output_ok e")
  case False
  then show ?thesis by (simp add: remux_def)
next
  case True
  obtain ret evs mapping outs where
    rs: "remux_streams e 0 (streams e) (find_stream_info_ret e) 0
           (replicate (length (streams e)) (- 1)) [] = (ret, evs, mapping, outs)"
    by (metis prod_cases4)
  note lf = remux_streams_loop_free[OF rs]
  show ?thesis
  proof (cases "0 \<le> ret \<and> \<not> (\<not> nofile e \<and> avio_open_ret e < 0) \<and> 0 \<le> write_header_ret e")
    case False
    with True rs lf have "\<forall>ev\<in>set (remux e out). setup_event ev \<and> (\<forall>r. ev = avformat_write_header r \<longrightarrow> r < 0)"
      by (auto simp: remux_def)
    then show ?thesis ..
  next
    case ok: True
    then have m: "mapping = map int [0..<length (streams e)]"
      using remux_streams_identity(1)[OF rs] by simp
    have "remux e out = (avformat_alloc_output_context2 True # evs @ (if nofile e then [] else [avio_open (avio_open_ret e)]) @ [avformat_write_header (write_header_ret e)])
             @ remux_loop e (map int [0..<length (streams e)]) (reads e) (answers e) @ finalize e out"
      using True rs ok m by (auto simp: remux_def)
    moreover have "\<forall>ev\<in>set (avformat_alloc_output_context2 True # evs @ (if nofile e then [] else [avio_open (avio_open_ret e)]) @ [avformat_write_header (write_header_ret e)]). setup_event ev"
      using lf by auto
    ultimately show ?thesis by blast
  qed
qed


lemma transcode_cases:
  "(\<forall>ev\<in>set (transcode e out). setup_event ev \<and> (\<forall>r. ev = avformat_write_header r \<longrightarrow> r < 0)) \<or>
   (\<exists>pre. transcode e out =
            pre @ transcode_run e out (nat (find_video_stream 0 (streams e)))
                    (map int [0..<length (streams e)]) \<and>
          (\<forall>ev\<in>set pre. setup_event ev) \<and> 0 \<le> find_video_stream 0 (streams e))"
proof (cases "0 \<le> find_video_stream 0 (streams e) \<and> decoder_found e \<and> 0 \<le> dec_open_ret e
              \<and> alloc_output_ok e")
  case False
  then show ?thesis by (auto simp: transcode_def Let_def)
next
  case True
  define vsi where "vsi = find_video_stream 0 (streams e)"
  obtain ret evs mapping outs where
    rs: "transcode_streams e vsi 0 (streams e) (dec_open_ret e) 0
           (replicate (length (streams e)) (- 1)) [] = (ret, evs, mapping, outs)"
    by (metis prod_cases4)
  note lf = transcode_streams_loop_free[OF rs]
  show ?thesis
  proof (cases "0 \<le> ret \<and> encoder_found e \<and> 0 \<le> enc_open_ret e
                \<and> \<not> (\<not> nofile e \<and> avio_open_ret e < 0) \<and> 0 \<le> write_header_ret e")
    case False
    with True rs lf have "\<forall>ev\<in>set (transcode e out). setup_event ev \<and> (\<forall>r. ev = avformat_write_header r \<longrightarrow> r < 0)"
      unfolding vsi_def by (auto simp: transcode_def Let_def)
    then show ?thesis ..
  next
    case ok: True
    then have m: "mapping = map int [0..<length (streams e)]"
      using transcode_streams_identity[OF rs] by simp
    define pre where "pre = [avcodec_find_decoder True, avcodec_open2_dec (dec_open_ret e),
         avformat_alloc_output_context2 True] @ evs @
         [avcodec_find_encoder True, avcodec_open2_enc (enc_open_ret e)] @
         (if nofile e then [] else [avio_open (avio_open_ret e)]) @
         [avformat_write_header (write_header_ret e)]"
    have "transcode e out = pre @ transcode_run e out (nat (find_video_stream 0 (streams e)))
                    (map int [0..<length (streams e)])"
      using True rs ok m unfolding vsi_def pre_def by (auto simp: transcode_def Let_def)
    moreover have "\<forall>ev\<in>set pre. setup_event ev"
      using lf unfolding pre_def by auto
    ultimately show ?thesis using True by blast
  qed
qed

lemma Entry_remux_cases:
  assumes "\<not> m_reencode j"
  shows "(\<forall>ev\<in>set (Entry j e). setup_event ev \<and> (\<forall>r. ev = avformat_write_header r \<longrightarrow> r < 0)) \<or>
   (\<exists>pre. Entry j e = pre @ remux_loop e (map int [0..<length (streams e)]) (reads e) (answers e)
                          @ finalize e (make_output_path (m_input j) (m_outFormat j)) \<and>
          (\<forall>ev\<in>set pre. setup_event ev))"
proof (cases "0 \<le> open_input_ret e \<and> 0 \<le> find_stream_info_ret e")
  case False
  with assms show ?thesis by (auto simp: Entry_def Let_def)
next
  case True
  define out where "out = make_output_path (m_input j) (m_outFormat j)"
  have E: "Entry j e = [Log ''Starting remux (stream-copy) conversion...'',
             avformat_open_input (open_input_ret e),
             avformat_find_stream_info (find_stream_info_ret e)] @ remux e out"
    using True assms by (simp add: Entry_def Let_def out_def)
  from remux_cases[of e out] show ?thesis
  proof
    assume "\<forall>ev\<in>set (remux e out). setup_event ev \<and> (\<forall>r. ev = avformat_write_header r \<longrightarrow> r < 0)"
    with E show ?thesis by auto
  next
    assume "\<exists>pre. remux e out = pre @ remux_loop e (map int [0..<length (streams e)]) (reads e) (answers e)
                          @ finalize e out \<and> (\<forall>ev\<in>set pre. setup_event ev)"
    then obtain pre where p: "remux e out = pre @ remux_loop e (map int [0..<length (streams e)]) (reads e) (answers e)
                          @ finalize e out" "\<forall>ev\<in>set pre. setup_event ev" by blast
    have "Entry j e = ([Log ''Starting remux (stream-copy) conversion...'',
             avformat_open_input (open_input_ret e),
             avformat_find_stream_info (find_stream_info_ret e)] @ pre) @
             remux_loop e (map int [0..<length (streams e)]) (reads e) (answers e) @ finalize e out"
      using E p(1) by simp
    moreover have "\<forall>ev\<in>set ([Log ''Starting remux (stream-copy) conversion...'',
             avformat_open_input (open_input_ret e),
             avformat_find_stream_info (find_stream_info_ret e)] @ pre). setup_event ev"
      using p(2) by simp
    ultimately show ?thesis unfolding out_def by blast
  qed
qed

lemma Entry_transcode_cases:
  assumes "m_reencode j"
  shows "(\<forall>ev\<in>set (Entry j e). setup_event ev \<and> (\<forall>r. ev = avformat_write_header r \<longrightarrow> r < 0)) \<or>
   (\<exists>pre. Entry j e =
            pre @ transcode_run e (make_output_path (m_input j) (m_outFormat j))
                    (nat (find_video_stream 0 (streams e))) (map int [0..<length (streams e)]) \<and>
          (\<forall>ev\<in>set pre. setup_event ev) \<and> 0 \<le> find_video_stream 0 (streams e))"
proof (cases "0 \<le> open_input_ret e \<and> 0 \<le> find_stream_info_ret e")
  case False
  with assms show ?thesis by (auto simp: Entry_def Let_def)
next
  case True
  define out where "out = make_output_path (m_input j) (m_outFormat j)"
  define hd3 where "hd3 = [Log ''Starting encoding conversion...'',
             avformat_open_input (open_input_ret e),
             avformat_find_stream_info (find_stream_info_ret e)]"
  have E: "Entry j e = hd3 @ transcode e out"
    using True assms by (simp add: Entry_def Let_def out_def hd3_def)
  have h: "\<forall>ev\<in>set hd3. setup_event ev \<and> (\<forall>r. ev \<noteq> avformat_write_header r)"
    by (simp add: hd3_def)
  from transcode_cases[of e out] show ?thesis
  proof
    assume "\<forall>ev\<in>set (transcode e out). setup_event ev \<and> (\<forall>r. ev = avformat_write_header r \<longrightarrow> r < 0)"
    with E h show ?thesis by auto
  next
    assume "\<exists>pre. transcode e out =
            pre @ transcode_run e out (nat (find_video_stream 0 (streams e)))
                    (map int [0..<length (streams e)]) \<and>
          (\<forall>ev\<in>set pre. setup_event ev) \<and> 0 \<le> find_video_stream 0 (streams e)"
    then obtain pre where p: "transcode e out =
            pre @ transcode_run e out (nat (find_video_stream 0 (streams e)))
                    (map int [0..<length (streams e)])" "\<forall>ev\<in>set pre. setup_event ev"
         "0 \<le> find_video_stream 0 (streams e)" by blast
    have "Entry j e = (hd3 @ pre) @ transcode_run e out (nat (find_video_stream 0 (streams e)))
                    (map int [0..<length (streams e)])"
      using E p(1) by simp
    moreover have "\<forall>ev\<in>set (hd3 @ pre). setup_event ev"
      using p(2) h by auto
    ultimately show ?thesis using p(3) unfolding out_def by blast
  qed
qed

section \<open>The codec loops\<close>

lemma drained_simps [simp]:
  "drained [avcodec_receive_packet r] = (r = AVERROR_EAGAIN \<or> r = AVERROR_EOF)"
  "drained (avcodec_receive_packet r # av_interleaved_write_frame q wr # evs) =
     (0 \<le> r \<and> 0 \<le> wr \<and> drained evs)"
  by simp_all

lemma flushed_simps [simp]:
  "flushed [avcodec_receive_packet r] = (r = AVERROR_EAGAIN \<or> r = AVERROR_EOF)"
  "flushed [avcodec_receive_packet r, Log s] = (r < 0 \<and> s = ''Error flushing encoder'')"
  "flushed (avcodec_receive_packet r # av_interleaved_write_frame q wr # evs) =
     (0 \<le> r \<and> flushed evs)"
  by simp_all

declare drained.simps [simp del] flushed.simps [simp del]

lemma enc_drain_rest:
  "set (fst (snd (snd (enc_drain e k ret encs w)))) \<subseteq> set encs"
proof (induction encs arbitrary: ret w)
  case Nil
  show ?case by simp
next
  case (Cons a encs)
  obtain r p where a: "a = (r, p)" by (cases a)
  note IH = Cons.IH[of "fst (next_ret (write_frame_rets w))"
                      "w\<lparr>write_frame_rets := snd (next_ret (write_frame_rets w))\<rparr>"]
  show ?case using IH by (auto simp: a Let_def split_beta split: if_splits)
qed

lemma enc_drain_events:
  "ev \<in> set (fst (snd (enc_drain e k ret encs w))) \<Longrightarrow>
     (\<exists>r. ev = avcodec_receive_packet r) \<or>
     (\<exists>p r. p \<in> snd ` set encs \<and> ev = av_interleaved_write_frame (rescale_encoded e k p) r) \<or>
     (\<exists>s. ev = Log s)"
proof (induction encs arbitrary: ret w)
  case Nil
  then show ?case by (simp split: if_splits)
next
  case (Cons a encs)
  obtain r p where a: "a = (r, p)" by (cases a)
  note IH = Cons.IH[of "fst (next_ret (write_frame_rets w))"
                      "w\<lparr>write_frame_rets := snd (next_ret (write_frame_rets w))\<rparr>"]
  show ?case using IH Cons.prems by (auto simp: a Let_def split_beta split: if_splits)
qed

lemma enc_drain_result:
  "fst (enc_drain e k ret encs w) = Some r \<Longrightarrow>
     r < 0 \<and> (0 \<le> ret \<longrightarrow> (r = AVERROR_EAGAIN \<or> r = AVERROR_EOF) \<and> drained (fst (snd (enc_drain e k ret encs w))))"
  by (induction encs arbitrary: ret w) (auto simp: Let_def split_beta split: if_splits)


lemma enc_drain_inv:
  assumes "snd ` set encs \<subseteq> E" and "ev \<in> set (fst (snd (enc_drain e (nat (m ! vsi)) ret encs w)))"
  shows "transcode_event e vsi m R E ev"
  using enc_drain_events[OF assms(2)] assms(1) by force

lemma enc_drain_quiet:
  assumes "ev \<in> set (fst (snd (enc_drain e k ret encs w)))"
  shows "\<not> is_poll ev \<and> \<not> is_frame ev \<and> \<not> read_failed ev \<and> ev \<noteq> TestDestroy True"
  using enc_drain_events[OF assms] by auto

lemma enc_drain_no_poll [simp]:
  "filter is_poll (fst (snd (enc_drain e k ret encs w))) = []"
  "filter is_frame (fst (snd (enc_drain e k ret encs w))) = []"
  "dropWhile (\<lambda>ev. ev \<noteq> TestDestroy True) (fst (snd (enc_drain e k ret encs w))) = []"
  "dropWhile (\<lambda>ev. \<not> read_failed ev) (fst (snd (enc_drain e k ret encs w))) = []"
  using enc_drain_quiet[of _ e k ret encs w] by (auto simp: filter_empty_conv)

lemma progress_inv:
  "ev \<in> set (progress e p tb) \<Longrightarrow> transcode_event e vsi m R E ev \<and> remux_event e m' R' ev"
  by (auto simp: progress_def clamp_pct_def Let_def split: if_splits)

lemma progress_quiet [simp]:
  "filter is_poll (progress e p tb) = []"
  "filter is_frame (progress e p tb) = []"
  "filter is_written (progress e p tb) = []"
  "TestDestroy True \<notin> set (progress e p tb)"
  "\<forall>ev\<in>set (progress e p tb). \<not> read_failed ev"
  by (auto simp: progress_def)

lemma process_frame_rest:
  "set (fst (snd (snd (process_frame e vsi k f encs w)))) \<subseteq> set encs"
  using enc_drain_rest[of e k "fst (next_ret (send_frame_rets w))" encs
          "w\<lparr>send_frame_rets := snd (next_ret (send_frame_rets w))\<rparr>"]
  by (auto simp: process_frame_def Let_def split_beta split: if_splits option.splits)

lemma process_frame_inv:
  assumes "snd ` set encs \<subseteq> E" and "ev \<in> set (fst (snd (process_frame e vsi (nat (m ! vsi)) f encs w)))"
  shows "transcode_event e vsi m R E ev"
  using assms enc_drain_inv[OF assms(1), of _ e m vsi "fst (next_ret (send_frame_rets w))"
          "w\<lparr>send_frame_rets := snd (next_ret (send_frame_rets w))\<rparr>" R]
        progress_inv[of ev e "frame_pts f" "time_base (streams e ! vsi)" vsi m R E]
  by (auto simp: process_frame_def Let_def split_beta split: if_splits option.splits)

lemma process_frame_result:
  assumes "fst (process_frame e vsi k f encs w) = Some r"
  shows "r < 0 \<and> (\<exists>sr dr. fst (snd (process_frame e vsi k f encs w)) =
             [sws_scale, avcodec_send_frame (Some \<lparr>frame_pts = frame_pts f\<rparr>) sr] @ dr @
             progress e (frame_pts f) (time_base (streams e ! vsi)) @ [TestDestroy False] \<and>
             0 \<le> sr \<and> drained dr)"
  using assms enc_drain_result[of e k "fst (next_ret (send_frame_rets w))" encs
          "w\<lparr>send_frame_rets := snd (next_ret (send_frame_rets w))\<rparr>"]
  by (auto simp: process_frame_def Let_def split_beta split: if_splits option.splits)

lemma process_frame_counts:
  "length (filter is_poll (fst (snd (process_frame e vsi k f encs w)))) \<le> 1"
  "filter is_frame (fst (snd (process_frame e vsi k f encs w))) = []"
  "\<forall>ev\<in>set (fst (snd (process_frame e vsi k f encs w))). \<not> read_failed ev"
  using enc_drain_quiet[of _ e k "fst (next_ret (send_frame_rets w))" encs
          "w\<lparr>send_frame_rets := snd (next_ret (send_frame_rets w))\<rparr>"]
  by (auto simp: process_frame_def Let_def split_beta split: if_splits option.splits)

lemma process_frame_cancel:
  "dropWhile (\<lambda>ev. ev \<noteq> TestDestroy True) (fst (snd (process_frame e vsi k f encs w))) =
     (if TestDestroy True \<in> set (fst (snd (process_frame e vsi k f encs w)))
      then [TestDestroy True, Log ''Conversion cancelled''] else [])"
  "TestDestroy True \<in> set (fst (snd (process_frame e vsi k f encs w))) \<Longrightarrow>
     fst (process_frame e vsi k f encs w) = None"
  using enc_drain_quiet[of _ e k "fst (next_ret (send_frame_rets w))" encs
          "w\<lparr>send_frame_rets := snd (next_ret (send_frame_rets w))\<rparr>"]
  by (auto simp: process_frame_def Let_def split_beta dropWhile_append split: if_splits option.splits)

lemma dec_drain_rest:
  "set (fst (snd (snd (snd (dec_drain e vsi k ret decs encs w))))) \<subseteq> set encs"
proof (induction decs arbitrary: ret encs w)
  case Nil
  show ?case by simp
next
  case (Cons a decs)
  obtain r f where a: "a = (r, f)" by (cases a)
  let ?pf = "process_frame e vsi k f encs w"
  note IH = Cons.IH[of "the (fst ?pf)" "fst (snd (snd ?pf))" "snd (snd (snd ?pf))"]
  show ?case using IH process_frame_rest[of e vsi k f encs w]
    by (auto simp: a Let_def split_beta split: if_splits option.splits)
qed

lemma dec_drain_inv:
  assumes "snd ` set encs \<subseteq> E"
    and "ev \<in> set (fst (snd (dec_drain e vsi (nat (m ! vsi)) ret decs encs w)))"
  shows "transcode_event e vsi m R E ev"
  using assms
proof (induction decs arbitrary: ret encs w)
  case Nil
  then show ?case by (auto split: if_splits)
next
  case (Cons a decs)
  obtain r f where a: "a = (r, f)" by (cases a)
  let ?pf = "process_frame e vsi (nat (m ! vsi)) f encs w"
  have sub: "snd ` set (fst (snd (snd ?pf))) \<subseteq> E"
    using process_frame_rest[of e vsi "nat (m ! vsi)" f encs w] Cons.prems(1) by auto
  note IH = Cons.IH[OF sub, of "the (fst ?pf)" "snd (snd (snd ?pf))"]
  note pf = process_frame_inv[OF Cons.prems(1), where ev=ev and e=e and m=m and vsi=vsi and f=f and w=w and R=R]
  show ?case using IH pf Cons.prems(2)
    by (auto simp: a Let_def split_beta split: if_splits option.splits)
qed

lemma dec_drain_counts:
  "length (filter is_poll (fst (snd (dec_drain e vsi k ret decs encs w))))
     \<le> length (filter is_frame (fst (snd (dec_drain e vsi k ret decs encs w))))"
proof (induction decs arbitrary: ret encs w)
  case Nil
  show ?case by simp
next
  case (Cons a decs)
  obtain r f where a: "a = (r, f)" by (cases a)
  let ?pf = "process_frame e vsi k f encs w"
  note IH = Cons.IH[of "the (fst ?pf)" "fst (snd (snd ?pf))" "snd (snd (snd ?pf))"]
  show ?case using IH process_frame_counts(1,2)[of e vsi k f encs w]
    by (auto simp: a Let_def split_beta split: if_splits option.splits)
qed

lemma dec_drain_no_read_failed:
  "ev \<in> set (fst (snd (dec_drain e vsi k ret decs encs w))) \<Longrightarrow> \<not> read_failed ev"
proof (induction decs arbitrary: ret encs w)
  case Nil
  then show ?case by (auto split: if_splits)
next
  case (Cons a decs)
  obtain r f where a: "a = (r, f)" by (cases a)
  let ?pf = "process_frame e vsi k f encs w"
  note IH = Cons.IH[of "the (fst ?pf)" "fst (snd (snd ?pf))" "snd (snd (snd ?pf))"]
  show ?case using IH process_frame_counts(3)[of e vsi k f encs w] Cons.prems
    by (auto simp: a Let_def split_beta split: if_splits option.splits)
qed

lemma dropWhile_skip:
  "x \<notin> set xs \<Longrightarrow> dropWhile (\<lambda>ev. ev \<noteq> x) (xs @ ys) = dropWhile (\<lambda>ev. ev \<noteq> x) ys"
  by (induction xs) auto

lemma dropWhile_hit:
  "x \<in> set xs \<Longrightarrow> dropWhile (\<lambda>ev. ev \<noteq> x) (xs @ ys) = dropWhile (\<lambda>ev. ev \<noteq> x) xs @ ys"
  by (induction xs) auto

lemma dec_drain_cancel:
  "dropWhile (\<lambda>ev. ev \<noteq> TestDestroy True) (fst (snd (dec_drain e vsi k ret decs encs w))) =
     (if TestDestroy True \<in> set (fst (snd (dec_drain e vsi k ret decs encs w)))
      then [TestDestroy True, Log ''Conversion cancelled''] else []) \<and>
   (TestDestroy True \<in> set (fst (snd (dec_drain e vsi k ret decs encs w))) \<longrightarrow>
     fst (dec_drain e vsi k ret decs encs w) = None)"
proof (induction decs arbitrary: ret encs w)
  case Nil
  show ?case by simp
next
  case (Cons a decs)
  obtain r f where a: "a = (r, f)" by (cases a)
  let ?pf = "process_frame e vsi k f encs w"
  let ?D = "dropWhile (\<lambda>ev. ev \<noteq> TestDestroy True)"
  note pc = process_frame_cancel[of e vsi k f encs w]
  show ?case
  proof (cases "0 \<le> ret \<and> 0 \<le> r")
    case False
    then show ?thesis by (auto simp: a)
  next
    case True
    then have r: "r \<noteq> AVERROR_EAGAIN" "r \<noteq> AVERROR_EOF" "\<not> r < 0" by auto
    show ?thesis
    proof (cases "fst ?pf")
      case None
      then have E: "dec_drain e vsi k ret (a # decs) encs w =
          (None, avcodec_receive_frame r # fst (snd ?pf), decs, fst (snd (snd ?pf)), snd (snd (snd ?pf)))"
        using True r by (simp add: a split_beta)
      show ?thesis unfolding E using pc(1) by simp
    next
      case (Some ret')
      let ?rec = "dec_drain e vsi k ret' decs (fst (snd (snd ?pf))) (snd (snd (snd ?pf)))"
      from Some have E: "fst (snd (dec_drain e vsi k ret (a # decs) encs w)) =
           (avcodec_receive_frame r # fst (snd ?pf)) @ fst (snd ?rec)"
         and F: "fst (dec_drain e vsi k ret (a # decs) encs w) = fst ?rec"
        using True r by (simp_all add: a split_beta)
      from Some pc(2) have nt: "TestDestroy True \<notin> set (avcodec_receive_frame r # fst (snd ?pf))"
        by auto
      note IH = Cons.IH[of ret' "fst (snd (snd ?pf))" "snd (snd (snd ?pf))"]
      have D: "?D (fst (snd (dec_drain e vsi k ret (a # decs) encs w))) = ?D (fst (snd ?rec))"
        unfolding E by (rule dropWhile_skip[OF nt])
      have M: "(TestDestroy True \<in> set (fst (snd (dec_drain e vsi k ret (a # decs) encs w)))) =
               (TestDestroy True \<in> set (fst (snd ?rec)))"
        unfolding E using nt by auto
      show ?thesis unfolding D M F using IH by simp
    qed
  qed
qed

lemma dec_drain_head:
  assumes "0 \<le> ret"
  shows "\<exists>r more. fst (snd (dec_drain e vsi k ret decs encs w)) = avcodec_receive_frame r # more"
  using assms by (cases decs) (auto simp: Let_def split_beta split: option.splits)

lemma dec_drain_frame:
  assumes "0 \<le> ret" "0 \<le> r"
  shows "\<exists>more. fst (snd (dec_drain e vsi k ret ((r, f) # decs) encs w)) =
           avcodec_receive_frame r # fst (snd (process_frame e vsi k f encs w)) @ more"
  using assms by (auto simp: Let_def split_beta AVERROR_EAGAIN_def AVERROR_EOF_def split: option.splits)


section \<open>The main loop of the transcode path\<close>

lemma transcode_loop_Nil:
  "transcode_loop e vsi m [] decs encs w = (LoopLeft, [av_read_frame AVERROR_EOF], decs, encs, w)"
  by simp

lemma transcode_loop_Cons_cases:
  fixes e vsi m ret pkt rest decs encs w
  defines "TL \<equiv> transcode_loop e vsi m ((ret, pkt) # rest) decs encs w"
  defines "sr \<equiv> fst (next_ret (send_packet_rets w))"
  defines "w1 \<equiv> w\<lparr>send_packet_rets := snd (next_ret (send_packet_rets w))\<rparr>"
  defines "dd \<equiv> dec_drain e vsi (nat (m ! vsi)) sr decs encs w1"
  defines "wr \<equiv> fst (next_ret (write_frame_rets w))"
  defines "w2 \<equiv> w\<lparr>write_frame_rets := snd (next_ret (write_frame_rets w))\<rparr>"
  obtains
    (read_fail) "ret < 0" "fst TL = LoopLeft" "fst (snd TL) = [av_read_frame ret]"
      "fst (snd (snd (snd TL))) = encs"
  | (send_fail) "0 \<le> ret" "stream_index pkt = vsi" "sr < 0" "fst TL = LoopLeft"
      "fst (snd TL) = [av_read_frame ret, avcodec_send_packet (Some pkt) sr,
                       Log ''Error sending packet to decoder'']"
      "fst (snd (snd (snd TL))) = encs"
  | (dec_cleanup) "0 \<le> ret" "stream_index pkt = vsi" "0 \<le> sr" "fst dd = None"
      "fst TL = GotoCleanup"
      "fst (snd TL) = [av_read_frame ret, avcodec_send_packet (Some pkt) sr] @ fst (snd dd)"
      "fst (snd (snd (snd TL))) = fst (snd (snd (snd dd)))"
  | (video) "0 \<le> ret" "stream_index pkt = vsi" "0 \<le> sr" "fst dd \<noteq> None"
      "TL = (let rc = transcode_loop e vsi m rest (fst (snd (snd dd))) (fst (snd (snd (snd dd))))
                        (snd (snd (snd (snd dd))))
             in (fst rc, [av_read_frame ret, avcodec_send_packet (Some pkt) sr] @ fst (snd dd)
                          @ fst (snd rc), snd (snd rc)))"
  | (skipped) "0 \<le> ret" "stream_index pkt \<noteq> vsi" "dropped m pkt"
      "TL = (let rc = transcode_loop e vsi m rest decs encs w
             in (fst rc, av_read_frame ret # fst (snd rc), snd (snd rc)))"
  | (write_fail) "0 \<le> ret" "stream_index pkt \<noteq> vsi" "\<not> dropped m pkt" "wr < 0"
      "fst TL = GotoCleanup"
      "fst (snd TL) = [av_read_frame ret, av_interleaved_write_frame (remux_packet e m pkt) wr,
                       Log ''Error muxing packet for non-video stream'']"
      "fst (snd (snd (snd TL))) = encs"
  | (copied) "0 \<le> ret" "stream_index pkt \<noteq> vsi" "\<not> dropped m pkt" "0 \<le> wr"
      "TL = (let rc = transcode_loop e vsi m rest decs encs w2
             in (fst rc, [av_read_frame ret, av_interleaved_write_frame (remux_packet e m pkt) wr]
                          @ fst (snd rc), snd (snd rc)))"
proof -
  consider "ret < 0"
    | "0 \<le> ret" "stream_index pkt = vsi" "sr < 0"
    | "0 \<le> ret" "stream_index pkt = vsi" "0 \<le> sr" "fst dd = None"
    | "0 \<le> ret" "stream_index pkt = vsi" "0 \<le> sr" "fst dd \<noteq> None"
    | "0 \<le> ret" "stream_index pkt \<noteq> vsi" "dropped m pkt"
    | "0 \<le> ret" "stream_index pkt \<noteq> vsi" "\<not> dropped m pkt" "wr < 0"
    | "0 \<le> ret" "stream_index pkt \<noteq> vsi" "\<not> dropped m pkt" "0 \<le> wr"
    by linarith
  then show thesis
  proof cases
    case 1
    then show ?thesis by (intro read_fail) (simp_all add: TL_def)
  next
    case 2
    then show ?thesis
      by (intro send_fail) (simp_all add: TL_def sr_def split_beta Let_def)
  next
    case 3
    then show ?thesis
      by (intro dec_cleanup)
         (simp_all add: TL_def sr_def dd_def w1_def split_beta Let_def split: option.splits)
  next
    case 4
    then show ?thesis
      by (intro video)
         (auto simp add: TL_def sr_def dd_def w1_def split_beta Let_def split: option.splits)
  next
    case 5
    then show ?thesis
      by (intro skipped) (simp_all add: TL_def split_beta Let_def)
  next
    case 6
    then show ?thesis
      by (intro write_fail) (simp_all add: TL_def wr_def split_beta Let_def)
  next
    case 7
    then show ?thesis
      by (intro copied) (simp_all add: TL_def wr_def w2_def split_beta Let_def)
  qed
qed


declare transcode_loop.simps(2) [simp del]


lemma transcode_loop_rest:
  "set (fst (snd (snd (snd (transcode_loop e vsi m rds decs encs w))))) \<subseteq> set encs"
proof (induction rds arbitrary: decs encs w)
  case Nil
  show ?case by simp
next
  case (Cons a rds)
  obtain ret pkt where a: "a = (ret, pkt)" by (cases a)
  let ?sr = "fst (next_ret (send_packet_rets w))"
  let ?w1 = "w\<lparr>send_packet_rets := snd (next_ret (send_packet_rets w))\<rparr>"
  let ?dd = "dec_drain e vsi (nat (m ! vsi)) ?sr decs encs ?w1"
  let ?w2 = "w\<lparr>write_frame_rets := snd (next_ret (write_frame_rets w))\<rparr>"
  let ?rc = "transcode_loop e vsi m rds (fst (snd (snd ?dd))) (fst (snd (snd (snd ?dd))))
               (snd (snd (snd (snd ?dd))))"
  let ?TL = "transcode_loop e vsi m ((ret, pkt) # rds) decs encs w"
  note cases = transcode_loop_Cons_cases[where e=e and vsi=vsi and m=m and ret=ret and pkt=pkt
            and rest=rds and decs=decs and encs=encs and w=w]
  note IHv = Cons.IH[of "fst (snd (snd ?dd))" "fst (snd (snd (snd ?dd)))" "snd (snd (snd (snd ?dd)))"]
  note IHs = Cons.IH[of decs encs w]
  note IHc = Cons.IH[of decs encs ?w2]
  note dr = dec_drain_rest[of e vsi "nat (m ! vsi)" ?sr decs encs ?w1]
  have "set (fst (snd (snd (snd ?TL)))) \<subseteq> set encs"
  proof (cases rule: cases)
    case video
    then show ?thesis using IHv dr by (auto simp: Let_def)
  next
    case dec_cleanup
    then show ?thesis using dr by simp
  next
    case skipped
    then show ?thesis using IHs by (simp add: Let_def)
  next
    case copied
    then show ?thesis using IHc by (simp add: Let_def)
  qed simp_all
  then show ?case unfolding a .
qed

lemma transcode_loop_inv:
  assumes "snd ` set rds \<subseteq> R" and "snd ` set encs \<subseteq> E"
    and "ev \<in> set (fst (snd (transcode_loop e vsi m rds decs encs w)))"
  shows "transcode_event e vsi m R E ev"
  using assms
proof (induction rds arbitrary: decs encs w)
  case Nil
  then show ?case by simp
next
  case (Cons a rds)
  obtain ret pkt where a: "a = (ret, pkt)" by (cases a)
  let ?sr = "fst (next_ret (send_packet_rets w))"
  let ?w1 = "w\<lparr>send_packet_rets := snd (next_ret (send_packet_rets w))\<rparr>"
  let ?dd = "dec_drain e vsi (nat (m ! vsi)) ?sr decs encs ?w1"
  let ?w2 = "w\<lparr>write_frame_rets := snd (next_ret (write_frame_rets w))\<rparr>"
  let ?rc = "transcode_loop e vsi m rds (fst (snd (snd ?dd))) (fst (snd (snd (snd ?dd))))
               (snd (snd (snd (snd ?dd))))"
  let ?TL = "transcode_loop e vsi m ((ret, pkt) # rds) decs encs w"
  note cases = transcode_loop_Cons_cases[where e=e and vsi=vsi and m=m and ret=ret and pkt=pkt
            and rest=rds and decs=decs and encs=encs and w=w]
  from Cons.prems(1) have R: "snd ` set rds \<subseteq> R" and pR: "pkt \<in> R" by (auto simp: a)
  have subv: "snd ` set (fst (snd (snd (snd ?dd)))) \<subseteq> E"
    using dec_drain_rest[of e vsi "nat (m ! vsi)" ?sr decs encs ?w1] Cons.prems(2) by auto
  note IHv = Cons.IH[OF R subv, of "fst (snd (snd ?dd))" "snd (snd (snd (snd ?dd)))"]
  note IHs = Cons.IH[OF R Cons.prems(2), of decs w]
  note IHc = Cons.IH[OF R Cons.prems(2), of decs ?w2]
  note di = dec_drain_inv[OF Cons.prems(2), where ev=ev and e=e and m=m and vsi=vsi and ret="?sr"
              and decs=decs and w="?w1" and R=R]
  from Cons.prems(3) have mem: "ev \<in> set (fst (snd ?TL))" by (simp only: a)
  show ?case
  proof (cases rule: cases)
    case read_fail
    with mem show ?thesis by simp
  next
    case send_fail
    with mem pR show ?thesis by auto
  next
    case dec_cleanup
    with mem pR di show ?thesis by auto
  next
    case video
    with mem pR di IHv show ?thesis by (auto simp: Let_def)
  next
    case skipped
    with mem IHs show ?thesis by (auto simp: Let_def)
  next
    case write_fail
    with mem pR show ?thesis by auto
  next
    case copied
    with mem pR IHc show ?thesis by (auto simp: Let_def)
  qed
qed

lemma transcode_loop_counts:
  "length (filter is_poll (fst (snd (transcode_loop e vsi m rds decs encs w))))
     \<le> length (filter is_frame (fst (snd (transcode_loop e vsi m rds decs encs w))))"
proof (induction rds arbitrary: decs encs w)
  case Nil
  show ?case by simp
next
  case (Cons a rds)
  obtain ret pkt where a: "a = (ret, pkt)" by (cases a)
  let ?sr = "fst (next_ret (send_packet_rets w))"
  let ?w1 = "w\<lparr>send_packet_rets := snd (next_ret (send_packet_rets w))\<rparr>"
  let ?dd = "dec_drain e vsi (nat (m ! vsi)) ?sr decs encs ?w1"
  let ?w2 = "w\<lparr>write_frame_rets := snd (next_ret (write_frame_rets w))\<rparr>"
  let ?rc = "transcode_loop e vsi m rds (fst (snd (snd ?dd))) (fst (snd (snd (snd ?dd))))
               (snd (snd (snd (snd ?dd))))"
  let ?TL = "transcode_loop e vsi m ((ret, pkt) # rds) decs encs w"
  note cases = transcode_loop_Cons_cases[where e=e and vsi=vsi and m=m and ret=ret and pkt=pkt
            and rest=rds and decs=decs and encs=encs and w=w]
  note IHv = Cons.IH[of "fst (snd (snd ?dd))" "fst (snd (snd (snd ?dd)))" "snd (snd (snd (snd ?dd)))"]
  note IHs = Cons.IH[of decs encs w]
  note IHc = Cons.IH[of decs encs ?w2]
  note dc = dec_drain_counts[of e vsi "nat (m ! vsi)" ?sr decs encs ?w1]
  have "length (filter is_poll (fst (snd ?TL))) \<le> length (filter is_frame (fst (snd ?TL)))"
  proof (cases rule: cases)
    case video
    then show ?thesis using IHv dc by (simp add: Let_def)
  next
    case dec_cleanup
    then show ?thesis using dc by simp
  next
    case skipped
    then show ?thesis using IHs by (simp add: Let_def)
  next
    case copied
    then show ?thesis using IHc by (simp add: Let_def)
  qed simp_all
  then show ?case unfolding a .
qed

lemma transcode_loop_cancel:
  "dropWhile (\<lambda>ev. ev \<noteq> TestDestroy True) (fst (snd (transcode_loop e vsi m rds decs encs w))) =
     (if TestDestroy True \<in> set (fst (snd (transcode_loop e vsi m rds decs encs w)))
      then [TestDestroy True, Log ''Conversion cancelled''] else []) \<and>
   (TestDestroy True \<in> set (fst (snd (transcode_loop e vsi m rds decs encs w))) \<longrightarrow>
     fst (transcode_loop e vsi m rds decs encs w) = GotoCleanup)"
proof (induction rds arbitrary: decs encs w)
  case Nil
  show ?case by simp
next
  case (Cons a rds)
  obtain ret pkt where a: "a = (ret, pkt)" by (cases a)
  let ?sr = "fst (next_ret (send_packet_rets w))"
  let ?w1 = "w\<lparr>send_packet_rets := snd (next_ret (send_packet_rets w))\<rparr>"
  let ?dd = "dec_drain e vsi (nat (m ! vsi)) ?sr decs encs ?w1"
  let ?w2 = "w\<lparr>write_frame_rets := snd (next_ret (write_frame_rets w))\<rparr>"
  let ?rc = "transcode_loop e vsi m rds (fst (snd (snd ?dd))) (fst (snd (snd (snd ?dd))))
               (snd (snd (snd (snd ?dd))))"
  let ?TL = "transcode_loop e vsi m ((ret, pkt) # rds) decs encs w"
  note cases = transcode_loop_Cons_cases[where e=e and vsi=vsi and m=m and ret=ret and pkt=pkt
            and rest=rds and decs=decs and encs=encs and w=w]
  note IHv = Cons.IH[of "fst (snd (snd ?dd))" "fst (snd (snd (snd ?dd)))" "snd (snd (snd (snd ?dd)))"]
  note IHs = Cons.IH[of decs encs w]
  note IHc = Cons.IH[of decs encs ?w2]
  let ?D = "dropWhile (\<lambda>ev. ev \<noteq> TestDestroy True)"
  note dc = dec_drain_cancel[of e vsi "nat (m ! vsi)" ?sr decs encs ?w1]
  have "?D (fst (snd ?TL)) =
     (if TestDestroy True \<in> set (fst (snd ?TL))
      then [TestDestroy True, Log ''Conversion cancelled''] else []) \<and>
     (TestDestroy True \<in> set (fst (snd ?TL)) \<longrightarrow> fst ?TL = GotoCleanup)"
  proof (cases rule: cases)
    case video
    let ?pre = "[av_read_frame ret, avcodec_send_packet (Some pkt) ?sr] @ fst (snd ?dd)"
    from video(4) dc have nt: "TestDestroy True \<notin> set ?pre" by auto
    from video(5) have E: "fst (snd ?TL) = ?pre @ fst (snd ?rc)"
      and F: "fst ?TL = fst ?rc"
      by (simp_all add: Let_def)
    have D: "?D (fst (snd ?TL)) = ?D (fst (snd ?rc))"
      unfolding E by (rule dropWhile_skip[OF nt])
    have M: "(TestDestroy True \<in> set (fst (snd ?TL))) = (TestDestroy True \<in> set (fst (snd ?rc)))"
      unfolding E using nt by auto
    show ?thesis unfolding D M F using IHv by simp
  next
    case dec_cleanup
    then show ?thesis using dc by simp
  next
    case skipped
    then show ?thesis using IHs by (simp add: Let_def)
  next
    case copied
    then show ?thesis using IHc by (simp add: Let_def)
  qed simp_all
  then show ?case unfolding a .
qed

lemma transcode_loop_read_failed:
  assumes "read_failed ev" and "ev \<in> set (fst (snd (transcode_loop e vsi m rds decs encs w)))"
  shows "fst (transcode_loop e vsi m rds decs encs w) = LoopLeft \<and>
         (\<exists>pre. fst (snd (transcode_loop e vsi m rds decs encs w)) = pre @ [ev])"
  using assms(2)
proof (induction rds arbitrary: decs encs w)
  case Nil
  then show ?case by simp
next
  case (Cons a rds)
  obtain ret pkt where a: "a = (ret, pkt)" by (cases a)
  let ?sr = "fst (next_ret (send_packet_rets w))"
  let ?w1 = "w\<lparr>send_packet_rets := snd (next_ret (send_packet_rets w))\<rparr>"
  let ?dd = "dec_drain e vsi (nat (m ! vsi)) ?sr decs encs ?w1"
  let ?w2 = "w\<lparr>write_frame_rets := snd (next_ret (write_frame_rets w))\<rparr>"
  let ?rc = "transcode_loop e vsi m rds (fst (snd (snd ?dd))) (fst (snd (snd (snd ?dd))))
               (snd (snd (snd (snd ?dd))))"
  let ?TL = "transcode_loop e vsi m ((ret, pkt) # rds) decs encs w"
  note cases = transcode_loop_Cons_cases[where e=e and vsi=vsi and m=m and ret=ret and pkt=pkt
            and rest=rds and decs=decs and encs=encs and w=w]
  note IHv = Cons.IH[of "fst (snd (snd ?dd))" "fst (snd (snd (snd ?dd)))" "snd (snd (snd (snd ?dd)))"]
  note IHs = Cons.IH[of decs encs w]
  note IHc = Cons.IH[of decs encs ?w2]
  note dn = dec_drain_no_read_failed[of ev e vsi "nat (m ! vsi)" ?sr decs encs ?w1]
  from Cons.prems have mem: "ev \<in> set (fst (snd ?TL))" by (simp only: a)
  have "fst ?TL = LoopLeft \<and> (\<exists>pre. fst (snd ?TL) = pre @ [ev])"
  proof (cases rule: cases)
    case read_fail
    with mem show ?thesis by auto
  next
    case send_fail
    with mem assms(1) show ?thesis by auto
  next
    case dec_cleanup
    with mem assms(1) dn show ?thesis by auto
  next
    case video
    from video mem assms(1) dn have "ev \<in> set (fst (snd ?rc))"
      by (auto simp: Let_def)
    from IHv[OF this] obtain pre where "fst ?rc = LoopLeft" "fst (snd ?rc) = pre @ [ev]" by blast
    with video(5) show ?thesis by (simp add: Let_def)
  next
    case skipped
    with mem assms(1) have "ev \<in> set (fst (snd (transcode_loop e vsi m rds decs encs w)))"
      by (auto simp: Let_def)
    from IHs[OF this] obtain pre where "fst (transcode_loop e vsi m rds decs encs w) = LoopLeft"
      "fst (snd (transcode_loop e vsi m rds decs encs w)) = pre @ [ev]" by blast
    with skipped(4) show ?thesis by (simp add: Let_def)
  next
    case write_fail
    with mem assms(1) show ?thesis by auto
  next
    case copied
    with mem assms(1) have "ev \<in> set (fst (snd (transcode_loop e vsi m rds decs encs ?w2)))"
      by (auto simp: Let_def)
    from IHc[OF this] obtain pre where "fst (transcode_loop e vsi m rds decs encs ?w2) = LoopLeft"
      "fst (snd (transcode_loop e vsi m rds decs encs ?w2)) = pre @ [ev]" by blast
    with copied(5) show ?thesis by (simp add: Let_def)
  qed
  then show ?case unfolding a .
qed

section \<open>The loop after the end of input\<close>

lemma flush_encoder_flushed: "flushed (flush_encoder e k encs w)"
proof (induction encs arbitrary: w)
  case Nil
  show ?case by (simp add: flushed.simps)
next
  case (Cons a encs)
  obtain r p where a: "a = (r, p)" by (cases a)
  note IH = Cons.IH[of "w\<lparr>write_frame_rets := snd (next_ret (write_frame_rets w))\<rparr>"]
  show ?case using IH by (auto simp: a Let_def split_beta)
qed

lemma flush_encoder_events:
  "ev \<in> set (flush_encoder e k encs w) \<Longrightarrow>
     (\<exists>r. ev = avcodec_receive_packet r) \<or>
     (\<exists>p r. p \<in> snd ` set encs \<and> ev = av_interleaved_write_frame (rescale_encoded e k p) r) \<or>
     ev = Log ''Error flushing encoder''"
proof (induction encs arbitrary: w)
  case Nil
  then show ?case by simp
next
  case (Cons a encs)
  obtain r p where a: "a = (r, p)" by (cases a)
  note IH = Cons.IH[of "w\<lparr>write_frame_rets := snd (next_ret (write_frame_rets w))\<rparr>"]
  show ?case using IH Cons.prems by (auto simp: a Let_def split_beta split: if_splits)
qed

lemma flush_encoder_inv:
  assumes "snd ` set encs \<subseteq> E" and "ev \<in> set (flush_encoder e (nat (m ! vsi)) encs w)"
  shows "transcode_event e vsi m R E ev"
  using flush_encoder_events[OF assms(2)] assms(1) by force

lemma flush_encoder_quiet:
  assumes "ev \<in> set (flush_encoder e k encs w)"
  shows "\<not> is_poll ev \<and> \<not> is_frame ev \<and> \<not> read_failed ev \<and> ev \<noteq> TestDestroy True"
  using flush_encoder_events[OF assms] by auto

section \<open>The packet loop of the remux path\<close>

lemma remux_loop_Cons_cases:
  fixes e m ret pkt rest w
  defines "RL \<equiv> remux_loop e m ((ret, pkt) # rest) w"
  defines "wr \<equiv> fst (next_ret (write_frame_rets w))"
  defines "w' \<equiv> w\<lparr>write_frame_rets := snd (next_ret (write_frame_rets w)),
                    test_destroy := snd (next_poll (test_destroy w))\<rparr>"
  defines "pkt' \<equiv> remux_packet e m pkt"
  obtains
    (read_fail) "ret < 0" "RL = [av_read_frame ret]"
  | (skipped) "0 \<le> ret" "dropped m pkt" "RL = av_read_frame ret # remux_loop e m rest w"
  | (write_fail) "0 \<le> ret" "\<not> dropped m pkt" "wr < 0"
      "RL = [av_read_frame ret, av_interleaved_write_frame pkt' wr, Log ''Error muxing packet'']"
  | (cancelled) "0 \<le> ret" "\<not> dropped m pkt" "0 \<le> wr"
      "RL = [av_read_frame ret, av_interleaved_write_frame pkt' wr] @
            progress e (pts (written_pkt e pkt')) (out_time_base e (stream_index pkt')) @
            [TestDestroy True, Log ''Conversion cancelled'']"
  | (written) "0 \<le> ret" "\<not> dropped m pkt" "0 \<le> wr"
      "RL = [av_read_frame ret, av_interleaved_write_frame pkt' wr] @
            progress e (pts (written_pkt e pkt')) (out_time_base e (stream_index pkt')) @
            [TestDestroy False] @ remux_loop e m rest w'"
proof -
  consider "ret < 0" | "0 \<le> ret" "dropped m pkt" | "0 \<le> ret" "\<not> dropped m pkt" "wr < 0"
    | "0 \<le> ret" "\<not> dropped m pkt" "0 \<le> wr" "fst (next_poll (test_destroy w))"
    | "0 \<le> ret" "\<not> dropped m pkt" "0 \<le> wr" "\<not> fst (next_poll (test_destroy w))"
    by linarith
  then show thesis
  proof cases
    case 1
    then show ?thesis by (intro read_fail) (simp_all add: RL_def)
  next
    case 2
    then show ?thesis by (intro skipped) (simp_all add: RL_def)
  next
    case 3
    then show ?thesis
      by (intro write_fail) (simp_all add: RL_def wr_def pkt'_def split_beta Let_def)
  next
    case 4
    then show ?thesis
      by (intro cancelled) (simp_all add: RL_def wr_def pkt'_def split_beta Let_def)
  next
    case 5
    then show ?thesis
      by (intro written) (simp_all add: RL_def wr_def pkt'_def w'_def split_beta Let_def)
  qed
qed

declare remux_loop.simps(2) [simp del]

lemma remux_loop_inv:
  assumes "snd ` set rds \<subseteq> R" and "ev \<in> set (remux_loop e m rds w)"
  shows "remux_event e m R ev"
  using assms
proof (induction rds arbitrary: w)
  case Nil
  then show ?case by simp
next
  case (Cons a rds)
  obtain ret pkt where a: "a = (ret, pkt)" by (cases a)
  let ?w' = "w\<lparr>write_frame_rets := snd (next_ret (write_frame_rets w)),
               test_destroy := snd (next_poll (test_destroy w))\<rparr>"
  let ?pkt' = "remux_packet e m pkt"
  from Cons.prems(1) have R: "snd ` set rds \<subseteq> R" and pR: "pkt \<in> R" by (auto simp: a)
  note IHs = Cons.IH[OF R, of w]
  note IHw = Cons.IH[OF R, of ?w']
  note pi = progress_inv[where ev=ev and e=e and p="pts (written_pkt e ?pkt')"
              and tb="out_time_base e (stream_index ?pkt')" and m'=m and R'=R]
  from Cons.prems(2) have mem: "ev \<in> set (remux_loop e m ((ret, pkt) # rds) w)" by (simp only: a)
  show ?case
  proof (cases rule: remux_loop_Cons_cases[where e=e and m=m and ret=ret and pkt=pkt and rest=rds and w=w])
    case read_fail
    with mem show ?thesis by simp
  next
    case skipped
    with mem IHs show ?thesis by auto
  next
    case write_fail
    with mem pR show ?thesis by auto
  next
    case cancelled
    with mem pR pi show ?thesis by auto
  next
    case written
    with mem pR pi IHw show ?thesis by auto
  qed
qed

lemma remux_loop_counts:
  "length (filter is_poll (remux_loop e m rds w)) = length (filter is_written (remux_loop e m rds w))"
proof (induction rds arbitrary: w)
  case Nil
  show ?case by simp
next
  case (Cons a rds)
  obtain ret pkt where a: "a = (ret, pkt)" by (cases a)
  let ?w' = "w\<lparr>write_frame_rets := snd (next_ret (write_frame_rets w)),
               test_destroy := snd (next_poll (test_destroy w))\<rparr>"
  note IHs = Cons.IH[of w]
  note IHw = Cons.IH[of ?w']
  have "length (filter is_poll (remux_loop e m ((ret, pkt) # rds) w)) =
        length (filter is_written (remux_loop e m ((ret, pkt) # rds) w))"
  proof (cases rule: remux_loop_Cons_cases[where e=e and m=m and ret=ret and pkt=pkt and rest=rds and w=w])
    case skipped
    then show ?thesis using IHs by simp
  next
    case written
    then show ?thesis using IHw by simp
  qed simp_all
  then show ?case unfolding a .
qed

lemma remux_loop_cancel:
  "dropWhile (\<lambda>ev. ev \<noteq> TestDestroy True) (remux_loop e m rds w) =
     (if TestDestroy True \<in> set (remux_loop e m rds w)
      then [TestDestroy True, Log ''Conversion cancelled''] else [])"
proof (induction rds arbitrary: w)
  case Nil
  show ?case by simp
next
  case (Cons a rds)
  obtain ret pkt where a: "a = (ret, pkt)" by (cases a)
  let ?w' = "w\<lparr>write_frame_rets := snd (next_ret (write_frame_rets w)),
               test_destroy := snd (next_poll (test_destroy w))\<rparr>"
  let ?pkt' = "remux_packet e m pkt"
  let ?D = "dropWhile (\<lambda>ev. ev \<noteq> TestDestroy True)"
  let ?RL = "remux_loop e m ((ret, pkt) # rds) w"
  note IHs = Cons.IH[of w]
  note IHw = Cons.IH[of ?w']
  have "?D ?RL = (if TestDestroy True \<in> set ?RL
      then [TestDestroy True, Log ''Conversion cancelled''] else [])"
  proof (cases rule: remux_loop_Cons_cases[where e=e and m=m and ret=ret and pkt=pkt and rest=rds and w=w])
    case skipped
    then show ?thesis using IHs by simp
  next
    case cancelled
    let ?pre = "[av_read_frame ret, av_interleaved_write_frame ?pkt' (fst (next_ret (write_frame_rets w)))] @
            progress e (pts (written_pkt e ?pkt')) (out_time_base e (stream_index ?pkt'))"
    have nt: "TestDestroy True \<notin> set ?pre" by simp
    from cancelled(4) have E: "?RL = ?pre @ [TestDestroy True, Log ''Conversion cancelled'']" by simp
    show ?thesis unfolding E dropWhile_skip[OF nt] by simp
  next
    case written
    let ?pre = "[av_read_frame ret, av_interleaved_write_frame ?pkt' (fst (next_ret (write_frame_rets w)))] @
            progress e (pts (written_pkt e ?pkt')) (out_time_base e (stream_index ?pkt')) @ [TestDestroy False]"
    have nt: "TestDestroy True \<notin> set ?pre" by simp
    from written(4) have E: "?RL = ?pre @ remux_loop e m rds ?w'" by simp
    have M: "(TestDestroy True \<in> set ?RL) = (TestDestroy True \<in> set (remux_loop e m rds ?w'))"
      unfolding E using nt by auto
    show ?thesis unfolding M unfolding E dropWhile_skip[OF nt] using IHw by simp
  qed simp_all
  then show ?case unfolding a .
qed

section \<open>A job as a whole\<close>

lemma setup_event_not_loop: "setup_event ev \<Longrightarrow> \<not> loop_event ev"
  by (cases ev) simp_all

lemma transcode_event_props:
  assumes "transcode_event e vsi m R E ev"
  shows "\<not> decoder_flush ev" and "ev \<noteq> av_write_trailer" and "ev \<noteq> avcodec_send_frame None sr"
    and "\<not> setup_event ev \<or> (\<exists>s. ev = Log s)"
proof -
  show "\<not> decoder_flush ev" using assms by (cases ev) auto
  show "ev \<noteq> av_write_trailer" using assms by (cases ev) auto
  show "ev \<noteq> avcodec_send_frame None sr" using assms by (cases ev) auto
  show "\<not> setup_event ev \<or> (\<exists>s. ev = Log s)" using assms by (cases ev) auto
qed

lemma cleanup_setup: "ev \<in> set (cleanup e out) \<Longrightarrow> setup_event ev"
  by (auto simp: cleanup_def split: if_splits)

lemma finalize_events: "ev \<in> set (finalize e out) \<Longrightarrow> setup_event ev \<or> ev = av_write_trailer"
  by (auto simp: finalize_def split: if_splits)

lemma cleanup_last:
  "\<exists>pre. cleanup e out = pre @ [SetRunning False, Log (''Conversion finished. Output: '' @ out)]"
proof -
  have "cleanup e out = ([avcodec_free_context_dec, avcodec_free_context_enc] @
     (if nofile e then [] else [avio_closep]) @
     [avformat_free_context, avformat_close_input]) @
     [SetRunning False, Log (''Conversion finished. Output: '' @ out)]"
    by (simp add: cleanup_def)
  then show ?thesis by blast
qed

lemma Entry_transcode_elim [consumes 1, case_names setup_failed aborted finished]:
  fixes j e
  defines "out \<equiv> make_output_path (m_input j) (m_outFormat j)"
  defines "vsi \<equiv> nat (find_video_stream 0 (streams e))"
  defines "m \<equiv> map int [0..<length (streams e)]"
  defines "TL \<equiv> transcode_loop e vsi m (reads e) (decoded e) (encoded e) (answers e)"
  assumes re: "m_reencode j"
  obtains
    (setup_failed)
      "\<forall>ev\<in>set (Entry j e). setup_event ev \<and> (\<forall>r. ev = avformat_write_header r \<longrightarrow> r < 0)"
  | (aborted) pre where
      "Entry j e = pre @ fst (snd TL) @ cleanup e out"
      "\<forall>ev\<in>set pre. setup_event ev" "fst TL = GotoCleanup"
      "0 \<le> find_video_stream 0 (streams e)"
  | (finished) pre sr where
      "Entry j e = pre @ fst (snd TL) @ avcodec_send_frame None sr #
         flush_encoder e (nat (m ! vsi)) (fst (snd (snd (snd TL))))
           ((snd (snd (snd (snd TL))))\<lparr>send_frame_rets :=
               snd (next_ret (send_frame_rets (snd (snd (snd (snd TL))))))\<rparr>) @
         av_write_trailer # cleanup e out"
      "\<forall>ev\<in>set pre. setup_event ev" "fst TL = LoopLeft"
      "0 \<le> find_video_stream 0 (streams e)"
proof -
  from Entry_transcode_cases[OF re, of e] show thesis
  proof
    assume "\<forall>ev\<in>set (Entry j e). setup_event ev \<and> (\<forall>r. ev = avformat_write_header r \<longrightarrow> r < 0)"
    then show thesis by (rule setup_failed)
  next
    assume "\<exists>pre. Entry j e =
            pre @ transcode_run e (make_output_path (m_input j) (m_outFormat j))
                    (nat (find_video_stream 0 (streams e))) (map int [0..<length (streams e)]) \<and>
          (\<forall>ev\<in>set pre. setup_event ev) \<and> 0 \<le> find_video_stream 0 (streams e)"
    then obtain pre where E: "Entry j e = pre @ transcode_run e out vsi m"
      and pre: "\<forall>ev\<in>set pre. setup_event ev" and v: "0 \<le> find_video_stream 0 (streams e)"
      unfolding out_def vsi_def m_def by blast
    show thesis
    proof (cases "fst TL")
      case GotoCleanup
      then have "transcode_run e out vsi m = fst (snd TL) @ cleanup e out"
        unfolding TL_def by (simp add: transcode_run_def split_beta)
      with E have "Entry j e = pre @ fst (snd TL) @ cleanup e out" by simp
      then show ?thesis using pre GotoCleanup v by (rule aborted)
    next
      case LoopLeft
      then have "transcode_run e out vsi m = fst (snd TL) @
         avcodec_send_frame None (fst (next_ret (send_frame_rets (snd (snd (snd (snd TL))))))) #
         flush_encoder e (nat (m ! vsi)) (fst (snd (snd (snd TL))))
           ((snd (snd (snd (snd TL))))\<lparr>send_frame_rets :=
               snd (next_ret (send_frame_rets (snd (snd (snd (snd TL))))))\<rparr>) @
         av_write_trailer # cleanup e out"
        unfolding TL_def by (simp add: transcode_run_def split_beta Let_def)
      with E have "Entry j e = pre @ fst (snd TL) @
         avcodec_send_frame None (fst (next_ret (send_frame_rets (snd (snd (snd (snd TL))))))) #
         flush_encoder e (nat (m ! vsi)) (fst (snd (snd (snd TL))))
           ((snd (snd (snd (snd TL))))\<lparr>send_frame_rets :=
               snd (next_ret (send_frame_rets (snd (snd (snd (snd TL))))))\<rparr>) @
         av_write_trailer # cleanup e out" by simp
      then show ?thesis using pre LoopLeft v by (rule finished)
    qed
  qed
qed

lemma ends_append: "(\<exists>pre. ys = pre @ s) \<Longrightarrow> \<exists>pre. xs @ ys = pre @ s"
proof -
  assume "\<exists>pre. ys = pre @ s"
  then obtain pre where "ys = pre @ s" ..
  then have "xs @ ys = (xs @ pre) @ s" by simp
  then show ?thesis ..
qed

lemma ends_Cons: "(\<exists>pre. ys = pre @ s) \<Longrightarrow> \<exists>pre. x # ys = pre @ s"
  using ends_append[of ys s "[x]"] by simp

lemma setup_event_props:
  assumes "setup_event ev"
  shows "\<not> decoder_flush ev" and "\<not> is_poll ev" and "\<not> is_written ev" and "\<not> is_frame ev"
    and "\<not> read_failed ev" and "ev \<noteq> av_write_trailer" and "ev \<noteq> TestDestroy b"
    and "ev \<noteq> PostProgress n" and "ev \<noteq> av_interleaved_write_frame q r"
    and "ev \<noteq> avcodec_send_packet po r" and "ev \<noteq> avcodec_send_frame fo r"
    and "ev \<noteq> av_read_frame r"
  using assms by (cases ev; simp)+

lemma Entry_events_remux:
  assumes "\<not> m_reencode j" and "ev \<in> set (Entry j e)"
  shows "setup_event ev \<or> ev = av_write_trailer \<or>
         remux_event e (map int [0..<length (streams e)]) (snd ` set (reads e)) ev"
proof -
  from Entry_remux_cases[OF assms(1), of e] show ?thesis
  proof
    assume "\<forall>ev\<in>set (Entry j e). setup_event ev \<and> (\<forall>r. ev = avformat_write_header r \<longrightarrow> r < 0)"
    with assms(2) show ?thesis by blast
  next
    assume "\<exists>pre. Entry j e = pre @ remux_loop e (map int [0..<length (streams e)]) (reads e) (answers e)
                          @ finalize e (make_output_path (m_input j) (m_outFormat j)) \<and>
          (\<forall>ev\<in>set pre. setup_event ev)"
    then obtain pre where E: "Entry j e = pre @ remux_loop e (map int [0..<length (streams e)]) (reads e) (answers e)
                          @ finalize e (make_output_path (m_input j) (m_outFormat j))"
      and pre: "\<forall>ev\<in>set pre. setup_event ev" by blast
    from assms(2) E consider "ev \<in> set pre"
      | "ev \<in> set (remux_loop e (map int [0..<length (streams e)]) (reads e) (answers e))"
      | "ev \<in> set (finalize e (make_output_path (m_input j) (m_outFormat j)))" by auto
    then show ?thesis
    proof cases
      case 1
      with pre show ?thesis by blast
    next
      case 2
      from remux_loop_inv[OF subset_refl this] show ?thesis by blast
    next
      case 3
      from finalize_events[OF this] show ?thesis by blast
    qed
  qed
qed

lemma Entry_events_transcode:
  assumes "m_reencode j" and "ev \<in> set (Entry j e)"
  shows "setup_event ev \<or> ev = av_write_trailer \<or> (\<exists>sr. ev = avcodec_send_frame None sr) \<or>
         (0 \<le> find_video_stream 0 (streams e) \<and>
          transcode_event e (nat (find_video_stream 0 (streams e))) (map int [0..<length (streams e)])
            (snd ` set (reads e)) (snd ` set (encoded e)) ev)"
  using assms(1)
proof (cases rule: Entry_transcode_elim[where e=e])
  case setup_failed
  with assms(2) show ?thesis by blast
next
  case (aborted pre)
  let ?TL = "transcode_loop e (nat (find_video_stream 0 (streams e))) (map int [0..<length (streams e)])
               (reads e) (decoded e) (encoded e) (answers e)"
  from assms(2) aborted(1) consider "ev \<in> set pre" | "ev \<in> set (fst (snd ?TL))"
    | "ev \<in> set (cleanup e (make_output_path (m_input j) (m_outFormat j)))" by auto
  then show ?thesis
  proof cases
    case 1
    with aborted(2) show ?thesis by blast
  next
    case 2
    from transcode_loop_inv[OF subset_refl subset_refl this] aborted(4) show ?thesis by blast
  next
    case 3
    from cleanup_setup[OF this] show ?thesis by blast
  qed
next
  case (finished pre sr)
  let ?m = "map int [0..<length (streams e)]"
  let ?vsi = "nat (find_video_stream 0 (streams e))"
  let ?TL = "transcode_loop e ?vsi ?m (reads e) (decoded e) (encoded e) (answers e)"
  let ?fl = "flush_encoder e (nat (?m ! ?vsi)) (fst (snd (snd (snd ?TL))))
           ((snd (snd (snd (snd ?TL))))\<lparr>send_frame_rets :=
               snd (next_ret (send_frame_rets (snd (snd (snd (snd ?TL))))))\<rparr>)"
  from assms(2) finished(1) consider "ev \<in> set pre" | "ev \<in> set (fst (snd ?TL))"
    | "ev = avcodec_send_frame None sr" | "ev \<in> set ?fl" | "ev = av_write_trailer"
    | "ev \<in> set (cleanup e (make_output_path (m_input j) (m_outFormat j)))" by auto
  then show ?thesis
  proof cases
    case 1
    with finished(2) show ?thesis by blast
  next
    case 2
    from transcode_loop_inv[OF subset_refl subset_refl this] finished(4) show ?thesis by blast
  next
    case 3
    then show ?thesis by blast
  next
    case 4
    have "snd ` set (fst (snd (snd (snd ?TL)))) \<subseteq> snd ` set (encoded e)"
      using transcode_loop_rest[of e ?vsi ?m "reads e" "decoded e" "encoded e" "answers e"] by auto
    from flush_encoder_inv[OF this 4] finished(4) show ?thesis by blast
  next
    case 5
    then show ?thesis by blast
  next
    case 6
    from cleanup_setup[OF this] show ?thesis by blast
  qed
qed

lemma Entry_no_decoder_flush: "filter decoder_flush (Entry j e) = []"
proof -
  have "\<not> decoder_flush ev" if "ev \<in> set (Entry j e)" for ev
  proof (cases "m_reencode j")
    case True
    from Entry_events_transcode[OF True that] show ?thesis
      using setup_event_props(1) transcode_event_props(1) by fastforce
  next
    case False
    from Entry_events_remux[OF False that] show ?thesis
      using setup_event_props(1) by (cases ev) auto
  qed
  then show ?thesis by (simp add: filter_empty_conv)
qed

lemma split_at_first:
  assumes "dropWhile (\<lambda>ev. ev \<noteq> x) xs = x # ys"
  shows "\<exists>pre. xs = pre @ x # ys \<and> x \<notin> set pre"
proof -
  have "xs = takeWhile (\<lambda>ev. ev \<noteq> x) xs @ x # ys"
    using takeWhile_dropWhile_id[of "\<lambda>ev. ev \<noteq> x" xs] assms by simp
  moreover have "x \<notin> set (takeWhile (\<lambda>ev. ev \<noteq> x) xs)"
    by (auto dest: set_takeWhileD)
  ultimately show ?thesis by blast
qed

lemma Entry_cancel_remux:
  assumes "\<not> m_reencode j" and "TestDestroy True \<in> set (Entry j e)"
  shows "\<exists>pre. Entry j e = pre @ TestDestroy True # Log ''Conversion cancelled'' #
                   finalize e (make_output_path (m_input j) (m_outFormat j)) \<and>
               TestDestroy True \<notin> set pre"
proof -
  let ?RL = "remux_loop e (map int [0..<length (streams e)]) (reads e) (answers e)"
  let ?out = "make_output_path (m_input j) (m_outFormat j)"
  from Entry_remux_cases[OF assms(1), of e] show ?thesis
  proof
    assume "\<forall>ev\<in>set (Entry j e). setup_event ev \<and> (\<forall>r. ev = avformat_write_header r \<longrightarrow> r < 0)"
    with assms(2) have "setup_event (TestDestroy True)" by blast
    then show ?thesis by simp
  next
    assume "\<exists>pre. Entry j e = pre @ ?RL @ finalize e ?out \<and> (\<forall>ev\<in>set pre. setup_event ev)"
    then obtain pre where E: "Entry j e = pre @ ?RL @ finalize e ?out"
      and pre: "\<forall>ev\<in>set pre. setup_event ev" by blast
    have npre: "TestDestroy True \<notin> set pre" using pre setup_event_props(7) by blast
    have nfin: "TestDestroy True \<notin> set (finalize e ?out)"
      using finalize_events[of "TestDestroy True" e ?out] by auto
    from assms(2) E npre nfin have "TestDestroy True \<in> set ?RL" by auto
    with remux_loop_cancel[of e "map int [0..<length (streams e)]" "reads e" "answers e"]
    have "dropWhile (\<lambda>ev. ev \<noteq> TestDestroy True) ?RL = [TestDestroy True, Log ''Conversion cancelled'']"
      by simp
    from split_at_first[OF this] obtain pre' where
      RL: "?RL = pre' @ [TestDestroy True, Log ''Conversion cancelled'']"
      and np: "TestDestroy True \<notin> set pre'" by auto
    have "Entry j e = (pre @ pre') @ TestDestroy True # Log ''Conversion cancelled'' # finalize e ?out"
      unfolding E RL by simp
    moreover have "TestDestroy True \<notin> set (pre @ pre')" using npre np by simp
    ultimately show ?thesis by blast
  qed
qed

lemma Entry_cancel_transcode:
  assumes "m_reencode j" and "TestDestroy True \<in> set (Entry j e)"
  shows "(\<exists>pre. Entry j e = pre @ TestDestroy True # Log ''Conversion cancelled'' #
                   cleanup e (make_output_path (m_input j) (m_outFormat j)) \<and>
               TestDestroy True \<notin> set pre) \<and>
         av_write_trailer \<notin> set (Entry j e) \<and>
         (\<forall>sr. avcodec_send_frame None sr \<notin> set (Entry j e))"
  using assms(1)
proof (cases rule: Entry_transcode_elim[where e=e])
  case setup_failed
  with assms(2) have "setup_event (TestDestroy True)" by blast
  then show ?thesis by simp
next
  case (aborted pre)
  let ?m = "map int [0..<length (streams e)]"
  let ?vsi = "nat (find_video_stream 0 (streams e))"
  let ?TL = "transcode_loop e ?vsi ?m (reads e) (decoded e) (encoded e) (answers e)"
  let ?out = "make_output_path (m_input j) (m_outFormat j)"
  have npre: "TestDestroy True \<notin> set pre" using aborted(2) setup_event_props(7) by blast
  have ncl: "TestDestroy True \<notin> set (cleanup e ?out)"
    using cleanup_setup[of "TestDestroy True" e ?out] by auto
  from assms(2) aborted(1) npre ncl have "TestDestroy True \<in> set (fst (snd ?TL))" by auto
  with transcode_loop_cancel[of e ?vsi ?m "reads e" "decoded e" "encoded e" "answers e"]
  have "dropWhile (\<lambda>ev. ev \<noteq> TestDestroy True) (fst (snd ?TL)) =
          [TestDestroy True, Log ''Conversion cancelled'']" by simp
  from split_at_first[OF this] obtain pre' where
    TL: "fst (snd ?TL) = pre' @ [TestDestroy True, Log ''Conversion cancelled'']"
    and np: "TestDestroy True \<notin> set pre'" by auto
  have "Entry j e = (pre @ pre') @ TestDestroy True # Log ''Conversion cancelled'' # cleanup e ?out"
    unfolding aborted(1) TL by simp
  moreover have "TestDestroy True \<notin> set (pre @ pre')" using npre np by simp
  moreover have "ev \<noteq> av_write_trailer \<and> (\<forall>sr. ev \<noteq> avcodec_send_frame None sr)"
    if "ev \<in> set (Entry j e)" for ev
  proof -
    from that aborted(1) consider "ev \<in> set pre" | "ev \<in> set (fst (snd ?TL))"
      | "ev \<in> set (cleanup e ?out)" by auto
    then show ?thesis
    proof cases
      case 1
      with aborted(2) have "setup_event ev" by blast
      then show ?thesis by (cases ev) auto
    next
      case 2
      from transcode_loop_inv[OF subset_refl subset_refl this] show ?thesis
        using transcode_event_props(2,3) by blast
    next
      case 3
      from cleanup_setup[OF this] show ?thesis by (cases ev) auto
    qed
  qed
  ultimately show ?thesis by blast
next
  case (finished pre sr)
  let ?m = "map int [0..<length (streams e)]"
  let ?vsi = "nat (find_video_stream 0 (streams e))"
  let ?TL = "transcode_loop e ?vsi ?m (reads e) (decoded e) (encoded e) (answers e)"
  let ?fl = "flush_encoder e (nat (?m ! ?vsi)) (fst (snd (snd (snd ?TL))))
           ((snd (snd (snd (snd ?TL))))\<lparr>send_frame_rets :=
               snd (next_ret (send_frame_rets (snd (snd (snd (snd ?TL))))))\<rparr>)"
  let ?out = "make_output_path (m_input j) (m_outFormat j)"
  have npre: "TestDestroy True \<notin> set pre" using finished(2) setup_event_props(7) by blast
  have ncl: "TestDestroy True \<notin> set (cleanup e ?out)"
    using cleanup_setup[of "TestDestroy True" e ?out] by auto
  have nfl: "TestDestroy True \<notin> set ?fl" using flush_encoder_quiet by blast
  from assms(2) finished(1) npre ncl nfl have "TestDestroy True \<in> set (fst (snd ?TL))" by auto
  with transcode_loop_cancel[of e ?vsi ?m "reads e" "decoded e" "encoded e" "answers e"] finished(3)
  show ?thesis by simp
qed

lemma filter_setup_empty:
  assumes "\<forall>ev\<in>set xs. setup_event ev"
  shows "filter is_poll xs = []" and "filter is_written xs = []" and "filter is_frame xs = []"
  using assms setup_event_props(2,3,4) by (auto simp: filter_empty_conv)

lemma finalize_filters [simp]:
  "filter is_poll (finalize e out) = []" "filter is_written (finalize e out) = []"
  "filter is_frame (finalize e out) = []"
  by (simp_all add: finalize_def)

lemma cleanup_filters [simp]:
  "filter is_poll (cleanup e out) = []" "filter is_written (cleanup e out) = []"
  "filter is_frame (cleanup e out) = []"
  by (simp_all add: cleanup_def)

lemma flush_encoder_filters [simp]:
  "filter is_poll (flush_encoder e k encs w) = []" "filter is_frame (flush_encoder e k encs w) = []"
  using flush_encoder_quiet[of _ e k encs w] by (auto simp: filter_empty_conv)

lemma Entry_polls_remux:
  assumes "\<not> m_reencode j"
  shows "length (filter is_poll (Entry j e)) = length (filter is_written (Entry j e))"
proof -
  from Entry_remux_cases[OF assms, of e] show ?thesis
  proof
    assume "\<forall>ev\<in>set (Entry j e). setup_event ev \<and> (\<forall>r. ev = avformat_write_header r \<longrightarrow> r < 0)"
    then have "\<forall>ev\<in>set (Entry j e). setup_event ev" by blast
    from filter_setup_empty(1,2)[OF this] show ?thesis by simp
  next
    assume "\<exists>pre. Entry j e = pre @ remux_loop e (map int [0..<length (streams e)]) (reads e) (answers e)
                          @ finalize e (make_output_path (m_input j) (m_outFormat j)) \<and>
          (\<forall>ev\<in>set pre. setup_event ev)"
    then obtain pre where E: "Entry j e = pre @ remux_loop e (map int [0..<length (streams e)]) (reads e) (answers e)
                          @ finalize e (make_output_path (m_input j) (m_outFormat j))"
      and pre: "\<forall>ev\<in>set pre. setup_event ev" by blast
    show ?thesis unfolding E
      using filter_setup_empty(1,2)[OF pre]
            remux_loop_counts[of e "map int [0..<length (streams e)]" "reads e" "answers e"]
      by simp
  qed
qed

lemma Entry_polls_transcode:
  assumes "m_reencode j"
  shows "length (filter is_poll (Entry j e)) \<le> length (filter is_frame (Entry j e))"
  using assms
proof (cases rule: Entry_transcode_elim[where e=e])
  case setup_failed
  then have "\<forall>ev\<in>set (Entry j e). setup_event ev" by blast
  from filter_setup_empty(1,3)[OF this] show ?thesis by simp
next
  case (aborted pre)
  show ?thesis unfolding aborted(1)
    using filter_setup_empty(1,3)[OF aborted(2)]
      transcode_loop_counts[of e "nat (find_video_stream 0 (streams e))"
        "map int [0..<length (streams e)]" "reads e" "decoded e" "encoded e" "answers e"]
    by simp
next
  case (finished pre sr)
  show ?thesis unfolding finished(1)
    using filter_setup_empty(1,3)[OF finished(2)]
      transcode_loop_counts[of e "nat (find_video_stream 0 (streams e))"
        "map int [0..<length (streams e)]" "reads e" "decoded e" "encoded e" "answers e"]
    by simp
qed

lemma Entry_no_video:
  assumes "m_reencode j" and "find_video_stream 0 (streams e) < 0"
  shows "Entry j e =
           Log ''Starting encoding conversion...'' # avformat_open_input (open_input_ret e) #
           (if open_input_ret e < 0 then
              [Log (''Failed to open input: '' @ av_strerror e (open_input_ret e)), SetRunning False]
            else
              avformat_find_stream_info (find_stream_info_ret e) #
              (if find_stream_info_ret e < 0 then
                 [Log ''Failed to find stream info'', avformat_close_input, SetRunning False]
               else
                 [Log ''No video stream found for re-encoding'', avformat_close_input,
                  SetRunning False]))"
  using assms by (simp add: Entry_def transcode_def Let_def)

lemma remux_streams_created:
  "remux_streams e i ss ret sidx mapping outs = (ret', evs, mapping', outs') \<Longrightarrow> 0 \<le> ret' \<Longrightarrow>
     length (filter stream_created evs) = length ss"
proof (induction ss arbitrary: i ret sidx mapping outs evs)
  case Nil
  then show ?case by simp
next
  case (Cons s ss)
  from Cons.prems have ok: "new_stream_ok e i" and r: "0 \<le> parameters_copy_ret e i"
    by (auto simp: Let_def split: if_splits prod.splits)
  with Cons.prems obtain evs0 where
    rec: "remux_streams e (Suc i) ss (parameters_copy_ret e i) (sidx + 1) (mapping[i := sidx])
            (outs @ [Some ((codecpar s)\<lparr>codec_tag := 0\<rparr>)]) = (ret', evs0, mapping', outs')"
    and evs: "evs = [avformat_new_stream True, avcodec_parameters_copy (parameters_copy_ret e i)] @ evs0"
    by (auto simp: Let_def split: if_splits prod.splits)
  from Cons.IH[OF rec Cons.prems(2)] evs show ?case by simp
qed

lemma remux_success:
  assumes "\<not> m_reencode j" and "avformat_write_header r \<in> set (Entry j e)" and "0 \<le> r"
  obtains ret evs mapping outs where
    "remux_streams e 0 (streams e) (find_stream_info_ret e) 0
       (replicate (length (streams e)) (- 1)) [] = (ret, evs, mapping, outs)"
    "0 \<le> ret"
    "Entry j e =
       [Log ''Starting remux (stream-copy) conversion...'', avformat_open_input (open_input_ret e),
        avformat_find_stream_info (find_stream_info_ret e), avformat_alloc_output_context2 True] @
       evs @ (if nofile e then [] else [avio_open (avio_open_ret e)]) @
       [avformat_write_header (write_header_ret e)] @
       remux_loop e mapping (reads e) (answers e) @
       finalize e (make_output_path (m_input j) (m_outFormat j))"
proof -
  obtain ret evs mapping outs where
    rs: "remux_streams e 0 (streams e) (find_stream_info_ret e) 0
           (replicate (length (streams e)) (- 1)) [] = (ret, evs, mapping, outs)"
    by (metis prod_cases4)
  note lf = remux_streams_loop_free[OF rs]
  have ok: "0 \<le> open_input_ret e \<and> 0 \<le> find_stream_info_ret e \<and> alloc_output_ok e \<and> 0 \<le> ret \<and>
        \<not> (\<not> nofile e \<and> avio_open_ret e < 0) \<and> 0 \<le> write_header_ret e"
  proof (rule ccontr)
    assume "\<not> ?thesis"
    with assms(1) rs lf have "\<forall>ev\<in>set (Entry j e). \<forall>x. ev = avformat_write_header x \<longrightarrow> x < 0"
      by (auto simp: Entry_def remux_def Let_def)
    with assms(2,3) show False by force
  qed
  with assms(1) rs have "Entry j e =
       [Log ''Starting remux (stream-copy) conversion...'', avformat_open_input (open_input_ret e),
        avformat_find_stream_info (find_stream_info_ret e), avformat_alloc_output_context2 True] @
       evs @ (if nofile e then [] else [avio_open (avio_open_ret e)]) @
       [avformat_write_header (write_header_ret e)] @
       remux_loop e mapping (reads e) (answers e) @
       finalize e (make_output_path (m_input j) (m_outFormat j))"
    by (auto simp: Entry_def remux_def Let_def)
  with rs ok show thesis by (intro that) auto
qed

lemma remux_event_not_created: "remux_event e m R ev \<Longrightarrow> \<not> stream_created ev"
  by (cases ev) auto

lemma remux_packet_identity:
  assumes "\<not> dropped (map int [0..<n]) p"
  shows "stream_index p < n"
    and "remux_packet e (map int [0..<n]) p =
           p\<lparr>pts := av_rescale_q_rnd e (pts p) (time_base (streams e ! stream_index p))
                     (out_time_base e (stream_index p)) {AV_ROUND_NEAR_INF, AV_ROUND_PASS_MINMAX},
             dts := av_rescale_q_rnd e (dts p) (time_base (streams e ! stream_index p))
                     (out_time_base e (stream_index p)) {AV_ROUND_NEAR_INF, AV_ROUND_PASS_MINMAX},
             duration := av_rescale_q e (duration p) (time_base (streams e ! stream_index p))
                     (out_time_base e (stream_index p)),
             pos := - 1\<rparr>"
proof -
  from assms show l: "stream_index p < n" by (simp add: dropped_def)
  then show "remux_packet e (map int [0..<n]) p =
           p\<lparr>pts := av_rescale_q_rnd e (pts p) (time_base (streams e ! stream_index p))
                     (out_time_base e (stream_index p)) {AV_ROUND_NEAR_INF, AV_ROUND_PASS_MINMAX},
             dts := av_rescale_q_rnd e (dts p) (time_base (streams e ! stream_index p))
                     (out_time_base e (stream_index p)) {AV_ROUND_NEAR_INF, AV_ROUND_PASS_MINMAX},
             duration := av_rescale_q e (duration p) (time_base (streams e ! stream_index p))
                     (out_time_base e (stream_index p)),
             pos := - 1\<rparr>"
    by (simp add: remux_packet_def Let_def)
qed

lemma process_frame_no_read:
  "ev \<in> set (fst (snd (process_frame e vsi k f encs w))) \<Longrightarrow> ev \<noteq> av_read_frame x"
  using enc_drain_events[of ev e k "fst (next_ret (send_frame_rets w))" encs
          "w\<lparr>send_frame_rets := snd (next_ret (send_frame_rets w))\<rparr>"]
  by (auto simp: process_frame_def Let_def split_beta progress_def
           split: if_splits option.splits)

lemma dec_drain_no_read:
  "ev \<in> set (fst (snd (dec_drain e vsi k ret decs encs w))) \<Longrightarrow> ev \<noteq> av_read_frame x"
proof (induction decs arbitrary: ret encs w)
  case Nil
  then show ?case by (auto split: if_splits)
next
  case (Cons a decs)
  obtain r f where a: "a = (r, f)" by (cases a)
  let ?pf = "process_frame e vsi k f encs w"
  note IH = Cons.IH[of "the (fst ?pf)" "fst (snd (snd ?pf))" "snd (snd (snd ?pf))"]
  show ?case using IH process_frame_no_read[of ev e vsi k f encs w x] Cons.prems
    by (auto simp: a Let_def split_beta split: if_splits option.splits)
qed

lemma remux_loop_blank:
  assumes "\<forall>p. pts (written_pkt e p) = AV_NOPTS_VALUE"
  shows "PostProgress n \<notin> set (remux_loop e m rds w)"
proof (induction rds arbitrary: w)
  case Nil
  show ?case by simp
next
  case (Cons a rds)
  obtain ret pkt where a: "a = (ret, pkt)" by (cases a)
  let ?w' = "w\<lparr>write_frame_rets := snd (next_ret (write_frame_rets w)),
               test_destroy := snd (next_poll (test_destroy w))\<rparr>"
  note IHs = Cons.IH[of w]
  note IHw = Cons.IH[of ?w']
  have np: "progress e (pts (written_pkt e q)) tb = []" for q tb
    using assms by (simp add: progress_def)
  have "PostProgress n \<notin> set (remux_loop e m ((ret, pkt) # rds) w)"
  proof (cases rule: remux_loop_Cons_cases[where e=e and m=m and ret=ret and pkt=pkt and rest=rds and w=w])
    case skipped
    then show ?thesis using IHs by simp
  next
    case written
    then show ?thesis using IHw by (simp add: np)
  qed (simp_all add: np)
  then show ?case unfolding a .
qed

lemma Entry_remux_blank:
  assumes "\<not> m_reencode j" and "\<forall>p. pts (written_pkt e p) = AV_NOPTS_VALUE"
  shows "PostProgress n \<notin> set (Entry j e)"
proof
  assume mem: "PostProgress n \<in> set (Entry j e)"
  from Entry_remux_cases[OF assms(1), of e] show False
  proof
    assume "\<forall>ev\<in>set (Entry j e). setup_event ev \<and> (\<forall>r. ev = avformat_write_header r \<longrightarrow> r < 0)"
    with mem have "setup_event (PostProgress n)" by blast
    then show False by simp
  next
    assume "\<exists>pre. Entry j e = pre @ remux_loop e (map int [0..<length (streams e)]) (reads e) (answers e)
                          @ finalize e (make_output_path (m_input j) (m_outFormat j)) \<and>
          (\<forall>ev\<in>set pre. setup_event ev)"
    then obtain pre where E: "Entry j e = pre @ remux_loop e (map int [0..<length (streams e)]) (reads e) (answers e)
                          @ finalize e (make_output_path (m_input j) (m_outFormat j))"
      and pre: "\<forall>ev\<in>set pre. setup_event ev" by blast
    from mem E consider "PostProgress n \<in> set pre"
      | "PostProgress n \<in> set (remux_loop e (map int [0..<length (streams e)]) (reads e) (answers e))"
      | "PostProgress n \<in> set (finalize e (make_output_path (m_input j) (m_outFormat j)))" by auto
    then show False
    proof cases
      case 1
      with pre have "setup_event (PostProgress n)" by blast
      then show ?thesis by simp
    next
      case 2
      with remux_loop_blank[OF assms(2)] show ?thesis by blast
    next
      case 3
      from finalize_events[OF this] show ?thesis by simp
    qed
  qed
qed

text \<open>The packets handed to the decoder, and the outcome of the scan for the video stream.\<close>

lemma map_filter_append: "List.map_filter f (xs @ ys) = List.map_filter f xs @ List.map_filter f ys"
  by (simp add: List.map_filter_def)

lemma map_filter_none: "(\<forall>x\<in>set xs. f x = None) \<Longrightarrow> List.map_filter f xs = []"
  by (induction xs) (simp_all add: List.map_filter_simps)

lemma filter_none: "(\<forall>x\<in>set xs. \<not> P x) \<Longrightarrow> filter P xs = []"
  by (induction xs) simp_all

lemma setup_event_unsent: "setup_event ev \<Longrightarrow> sent_packet ev = None \<and> \<not> read_ok ev"
  by (cases ev) simp_all

lemma dec_drain_unsent:
  assumes "ev \<in> set (fst (snd (dec_drain e vsi (nat (m ! vsi)) ret decs encs w)))"
  shows "sent_packet ev = None \<and> \<not> read_ok ev"
proof -
  from dec_drain_inv[OF subset_refl assms, of "{}"] have t: "transcode_event e vsi m {} (snd ` set encs) ev" .
  from dec_drain_no_read[OF assms] have "\<forall>x. ev \<noteq> av_read_frame x" by blast
  with t show ?thesis by (cases ev) auto
qed

lemma transcode_loop_sent:
  "List.map_filter sent_packet (fst (snd (transcode_loop e vsi m rds decs encs w))) =
     filter (\<lambda>p. stream_index p = vsi)
       (map snd (take (length (filter read_ok (fst (snd (transcode_loop e vsi m rds decs encs w))))) rds))"
proof (induction rds arbitrary: decs encs w)
  case Nil
  show ?case by (simp add: List.map_filter_simps)
next
  case (Cons a rds)
  obtain ret pkt where a: "a = (ret, pkt)" by (cases a)
  let ?sr = "fst (next_ret (send_packet_rets w))"
  let ?w1 = "w\<lparr>send_packet_rets := snd (next_ret (send_packet_rets w))\<rparr>"
  let ?dd = "dec_drain e vsi (nat (m ! vsi)) ?sr decs encs ?w1"
  let ?w2 = "w\<lparr>write_frame_rets := snd (next_ret (write_frame_rets w))\<rparr>"
  let ?rc = "transcode_loop e vsi m rds (fst (snd (snd ?dd))) (fst (snd (snd (snd ?dd))))
               (snd (snd (snd (snd ?dd))))"
  let ?TL = "transcode_loop e vsi m ((ret, pkt) # rds) decs encs w"
  note cases = transcode_loop_Cons_cases[where e=e and vsi=vsi and m=m and ret=ret and pkt=pkt
            and rest=rds and decs=decs and encs=encs and w=w]
  note IHv = Cons.IH[of "fst (snd (snd ?dd))" "fst (snd (snd (snd ?dd)))" "snd (snd (snd (snd ?dd)))"]
  note IHs = Cons.IH[of decs encs w]
  note IHc = Cons.IH[of decs encs ?w2]
  have dq: "List.map_filter sent_packet (fst (snd ?dd)) = []" "filter read_ok (fst (snd ?dd)) = []"
    using dec_drain_unsent[of _ e vsi m ?sr decs encs ?w1]
    by (auto intro!: map_filter_none filter_none)
  have "List.map_filter sent_packet (fst (snd ?TL)) =
     filter (\<lambda>p. stream_index p = vsi)
       (map snd (take (length (filter read_ok (fst (snd ?TL)))) ((ret, pkt) # rds)))"
  proof (cases rule: cases)
    case read_fail
    then show ?thesis by (simp add: List.map_filter_simps)
  next
    case send_fail
    then show ?thesis by (simp add: List.map_filter_simps)
  next
    case dec_cleanup
    then show ?thesis by (simp add: List.map_filter_simps map_filter_append dq)
  next
    case video
    then show ?thesis using IHv by (simp add: Let_def List.map_filter_simps map_filter_append dq)
  next
    case skipped
    then show ?thesis using IHs by (simp add: Let_def List.map_filter_simps)
  next
    case write_fail
    then show ?thesis by (simp add: List.map_filter_simps)
  next
    case copied
    then show ?thesis using IHc by (simp add: Let_def List.map_filter_simps)
  qed
  then show ?case unfolding a .
qed

lemma flush_encoder_unsent:
  "ev \<in> set (flush_encoder e k encs w) \<Longrightarrow> sent_packet ev = None \<and> \<not> read_ok ev"
  using flush_encoder_events[of ev e k encs w] by auto

lemma Entry_sent_packets:
  assumes "m_reencode j"
  shows "List.map_filter sent_packet (Entry j e) =
     filter (\<lambda>p. stream_index p = nat (find_video_stream 0 (streams e)))
       (map snd (take (length (filter read_ok (Entry j e))) (reads e)))"
  using assms
proof (cases rule: Entry_transcode_elim[where e=e])
  case setup_failed
  then have "\<forall>ev\<in>set (Entry j e). sent_packet ev = None \<and> \<not> read_ok ev"
    using setup_event_unsent by blast
  then have "List.map_filter sent_packet (Entry j e) = []" "filter read_ok (Entry j e) = []"
    by (auto intro!: map_filter_none filter_none)
  then show ?thesis by simp
next
  case (aborted pre)
  let ?out = "make_output_path (m_input j) (m_outFormat j)"
  have p: "List.map_filter sent_packet pre = []" "filter read_ok pre = []"
    using aborted(2) setup_event_unsent by (auto intro!: map_filter_none filter_none)
  have c: "List.map_filter sent_packet (cleanup e ?out) = []" "filter read_ok (cleanup e ?out) = []"
    using cleanup_setup[of _ e ?out] setup_event_unsent by (auto intro!: map_filter_none filter_none)
  show ?thesis unfolding aborted(1)
    using transcode_loop_sent[of e "nat (find_video_stream 0 (streams e))"
            "map int [0..<length (streams e)]" "reads e" "decoded e" "encoded e" "answers e"]
    by (simp add: map_filter_append p c)
next
  case (finished pre sr)
  let ?out = "make_output_path (m_input j) (m_outFormat j)"
  let ?m = "map int [0..<length (streams e)]"
  let ?vsi = "nat (find_video_stream 0 (streams e))"
  let ?TL = "transcode_loop e ?vsi ?m (reads e) (decoded e) (encoded e) (answers e)"
  let ?fl = "flush_encoder e (nat (?m ! ?vsi)) (fst (snd (snd (snd ?TL))))
           ((snd (snd (snd (snd ?TL))))\<lparr>send_frame_rets :=
               snd (next_ret (send_frame_rets (snd (snd (snd (snd ?TL))))))\<rparr>)"
  have p: "List.map_filter sent_packet pre = []" "filter read_ok pre = []"
    using finished(2) setup_event_unsent by (auto intro!: map_filter_none filter_none)
  have c: "List.map_filter sent_packet (cleanup e ?out) = []" "filter read_ok (cleanup e ?out) = []"
    using cleanup_setup[of _ e ?out] setup_event_unsent by (auto intro!: map_filter_none filter_none)
  have f: "List.map_filter sent_packet ?fl = []" "filter read_ok ?fl = []"
    using flush_encoder_unsent by (auto intro!: map_filter_none filter_none)
  show ?thesis unfolding finished(1)
    using transcode_loop_sent[of e ?vsi ?m "reads e" "decoded e" "encoded e" "answers e"]
    by (simp add: map_filter_append p c f List.map_filter_simps)
qed

lemma find_video_stream_least:
  assumes "i < length ss" "codec_type (codecpar (ss ! i)) = AVMEDIA_TYPE_VIDEO"
    "\<forall>k < i. codec_type (codecpar (ss ! k)) \<noteq> AVMEDIA_TYPE_VIDEO"
  shows "find_video_stream n ss = int (n + i)"
  using assms
proof (induction ss arbitrary: n i)
  case Nil
  then show ?case by simp
next
  case (Cons s ss)
  show ?case
  proof (cases i)
    case 0
    with Cons.prems show ?thesis by simp
  next
    case (Suc i')
    with Cons.prems have s: "codec_type (codecpar s) \<noteq> AVMEDIA_TYPE_VIDEO" by auto
    from Cons.prems Suc have "i' < length ss" "codec_type (codecpar (ss ! i')) = AVMEDIA_TYPE_VIDEO"
      "\<forall>k < i'. codec_type (codecpar (ss ! k)) \<noteq> AVMEDIA_TYPE_VIDEO" by auto
    from Cons.IH[OF this, of "Suc n"] s Suc show ?thesis by simp
  qed
qed

lemma Entry_video_found:
  assumes "m_reencode j" "0 \<le> find_video_stream 0 (streams e)"
    "0 \<le> open_input_ret e" "0 \<le> find_stream_info_ret e"
  shows "\<exists>rest. Entry j e =
           [Log ''Starting encoding conversion...'', avformat_open_input (open_input_ret e),
            avformat_find_stream_info (find_stream_info_ret e),
            avcodec_find_decoder (decoder_found e)] @ rest"
  using assms by (auto simp: Entry_def transcode_def Let_def)


section \<open>The place of the polls: proofs\<close>

lemma phase_run_append:
  "phase_run t w f s (xs @ ys) =
     (case phase_run t w f s xs of None \<Rightarrow> None | Some s' \<Rightarrow> phase_run t w f s' ys)"
  by (induction xs arbitrary: s) (auto split: option.splits)

lemma phase_run_idle:
  "\<forall>ev\<in>set xs. \<not> is_poll ev \<and> \<not> t ev \<Longrightarrow> phase_run t w f Idle xs = Some Idle"
  by (induction xs) (auto simp: phase_step_def)

lemma phase_run_pending:
  "\<forall>ev\<in>set xs. w ev \<and> \<not> is_poll ev \<and> \<not> f ev \<Longrightarrow> phase_run t w f Pending xs = Some Pending"
proof (induction xs)
  case Nil
  show ?case by simp
next
  case (Cons x xs)
  then have "x \<noteq> TestDestroy True" by auto
  with Cons show ?case by (auto simp: phase_step_def)
qed

lemma phase_run_stopped:
  "\<forall>ev\<in>set xs. \<not> loop_event ev \<Longrightarrow> phase_run t w f Stopped xs = Some Stopped"
  by (induction xs) (auto simp: phase_step_def)

lemma phase_run_stopped_iff:
  "phase_run t w f Stopped xs = Some s \<Longrightarrow> s = Stopped \<and> (\<forall>ev\<in>set xs. \<not> loop_event ev)"
  by (induction xs) (auto simp: phase_step_def split: if_splits)

lemma phase_run_quiet:
  assumes "\<forall>ev\<in>set xs. \<not> loop_event ev" "\<forall>ev. t ev \<longrightarrow> loop_event ev" "s \<noteq> Pending"
  shows "phase_run t w f s xs = Some s"
proof (cases s)
  case Idle
  have "\<forall>ev\<in>set xs. \<not> is_poll ev \<and> \<not> t ev"
  proof
    fix ev assume "ev \<in> set xs"
    with assms(1) have n: "\<not> loop_event ev" by blast
    then have "\<not> is_poll ev" by (cases ev) auto
    with n assms(2) show "\<not> is_poll ev \<and> \<not> t ev" by blast
  qed
  with Idle show ?thesis by (simp add: phase_run_idle)
next
  case Pending
  with assms(3) show ?thesis by simp
next
  case Stopped
  with assms(1) show ?thesis by (simp add: phase_run_stopped)
qed

text \<open>Where a pending phase comes from.\<close>

lemma pending_origin:
  assumes "phase_run t w f s0 pre = Some Pending" and "s0 \<noteq> Pending"
  shows "\<exists>pre' x mid. pre = pre' @ x # mid \<and> t x \<and> (\<forall>y\<in>set mid. w y)"
  using assms(1)
proof (induction pre rule: rev_induct)
  case Nil
  with assms(2) show ?case by simp
next
  case (snoc x xs)
  from snoc.prems obtain s where s: "phase_run t w f s0 xs = Some s"
    and st: "phase_step t w f s x = Some Pending"
    by (auto simp: phase_run_append split: option.splits)
  show ?case
  proof (cases s)
    case Idle
    with st have "t x" by (auto simp: phase_step_def split: if_splits)
    then have "xs @ [x] = xs @ x # [] \<and> t x \<and> (\<forall>y\<in>set []. w y)" by simp
    then show ?thesis by blast
  next
    case Pending
    with st have wx: "w x" by (auto simp: phase_step_def split: if_splits)
    from snoc.IH[OF s[unfolded Pending]] obtain pre' y mid where
      "xs = pre' @ y # mid" "t y" "\<forall>z\<in>set mid. w z" by blast
    with wx have "xs @ [x] = pre' @ y # (mid @ [x]) \<and> t y \<and> (\<forall>z\<in>set (mid @ [x]). w z)" by simp
    then show ?thesis by blast
  next
    case Stopped
    with st show ?thesis by (auto simp: phase_step_def split: if_splits)
  qed
qed

text \<open>Where a pending phase leads.\<close>

lemma pending_outcome:
  assumes "phase_run t w f Pending post = Some s" and "s \<noteq> Pending"
  shows "\<exists>mid x rest. post = mid @ x # rest \<and> (\<forall>y\<in>set mid. w y) \<and>
           (is_poll x \<or> f x \<and> (\<forall>y\<in>set rest. \<not> loop_event y))"
  using assms(1)
proof (induction post)
  case Nil
  with assms(2) show ?case by simp
next
  case (Cons x xs)
  from Cons.prems obtain s' where st: "phase_step t w f Pending x = Some s'"
    and r: "phase_run t w f s' xs = Some s"
    by (auto split: option.splits)
  show ?case
  proof (cases "is_poll x")
    case True
    then have "x # xs = [] @ x # xs \<and> (\<forall>y\<in>set []. w y) \<and> is_poll x" by simp
    then show ?thesis by blast
  next
    case np: False
    then have nt: "x \<noteq> TestDestroy True" by auto
    show ?thesis
    proof (cases "f x")
      case True
      with np nt st have "s' = Stopped" by (simp add: phase_step_def)
      with r phase_run_stopped_iff have "\<forall>y\<in>set xs. \<not> loop_event y" by blast
      with True have "x # xs = [] @ x # xs \<and> (\<forall>y\<in>set []. w y) \<and> f x \<and> (\<forall>y\<in>set xs. \<not> loop_event y)"
        by simp
      then show ?thesis by blast
    next
      case False
      with np nt st have wx: "w x" and s': "s' = Pending"
        by (auto simp: phase_step_def split: if_splits)
      from Cons.IH[OF r[unfolded s']] obtain mid y rest where
        m: "xs = mid @ y # rest" "\<forall>z\<in>set mid. w z"
        "is_poll y \<or> f y \<and> (\<forall>z\<in>set rest. \<not> loop_event z)" by blast
      with wx have "x # xs = (x # mid) @ y # rest \<and> (\<forall>z\<in>set (x # mid). w z) \<and>
          (is_poll y \<or> f y \<and> (\<forall>z\<in>set rest. \<not> loop_event z))" by simp
      then show ?thesis by blast
    qed
  qed
qed

text \<open>Splitting an accepted run at a call.\<close>

lemma phase_run_split:
  assumes "phase_run t w f s0 (pre @ ev # post) = Some s"
  obtains s1 s2 where "phase_run t w f s0 pre = Some s1" "phase_step t w f s1 ev = Some s2"
    "phase_run t w f s2 post = Some s"
  using assms by (auto simp: phase_run_append split: option.splits)

lemma poll_owned:
  assumes "phase_run t w f Idle (pre @ ev # post) = Some s" and "is_poll ev"
  shows "\<exists>pre' x mid. pre = pre' @ x # mid \<and> t x \<and> (\<forall>y\<in>set mid. w y)"
proof -
  from assms(1) obtain s1 s2 where 1: "phase_run t w f Idle pre = Some s1"
    and 2: "phase_step t w f s1 ev = Some s2" by (rule phase_run_split)
  from 2 assms(2) have "s1 = Pending"
    by (cases s1; cases ev) (auto simp: phase_step_def split: if_splits)
  with 1 pending_origin[of t w f Idle pre] show ?thesis by simp
qed

lemma trigger_followed:
  assumes "phase_run t w f Idle (pre @ ev # post) = Some s" and "s \<noteq> Pending" and "t ev"
    and "\<forall>x. t x \<longrightarrow> loop_event x \<and> \<not> w x \<and> \<not> f x \<and> \<not> is_poll x"
  shows "\<exists>mid x rest. post = mid @ x # rest \<and> (\<forall>y\<in>set mid. w y) \<and>
           (is_poll x \<or> f x \<and> (\<forall>y\<in>set rest. \<not> loop_event y))"
proof -
  from assms(1) obtain s1 s2 where 1: "phase_run t w f Idle pre = Some s1"
    and 2: "phase_step t w f s1 ev = Some s2" and 3: "phase_run t w f s2 post = Some s"
    by (rule phase_run_split)
  from assms(3,4) have p: "loop_event ev" "\<not> w ev" "\<not> f ev" "\<not> is_poll ev" by blast+
  from p(4) have nt: "ev \<noteq> TestDestroy True" by auto
  from 2 p nt assms(3) have "s2 = Pending"
    by (cases s1) (auto simp: phase_step_def split: if_splits)
  with 3 pending_outcome[OF _ assms(2)] show ?thesis by blast
qed

lemma enc_drain_phase:
  "phase_run is_frame frame_work frame_error Pending (fst (snd (enc_drain e k ret encs w))) =
     Some (if fst (enc_drain e k ret encs w) = None then Stopped else Pending)"
proof (induction encs arbitrary: ret w)
  case Nil
  show ?case by (simp add: phase_step_def)
next
  case (Cons a encs)
  obtain r p where a: "a = (r, p)" by (cases a)
  note IH = Cons.IH[of "fst (next_ret (write_frame_rets w))"
                      "w\<lparr>write_frame_rets := snd (next_ret (write_frame_rets w))\<rparr>"]
  show ?case using IH by (auto simp: a phase_step_def Let_def split_beta split: if_splits)
qed

lemma progress_phase [simp]:
  "phase_run t frame_work frame_error Pending (progress e p tb) = Some Pending"
  "phase_run t is_progress (\<lambda>ev. False) Pending (progress e p tb) = Some Pending"
  by (auto simp: progress_def phase_step_def)

lemma process_frame_phase:
  "phase_run is_frame frame_work frame_error Pending (fst (snd (process_frame e vsi k f encs w))) =
     Some (if fst (process_frame e vsi k f encs w) = None then Stopped else Idle)"
proof -
  let ?sr = "fst (next_ret (send_frame_rets w))"
  let ?w1 = "w\<lparr>send_frame_rets := snd (next_ret (send_frame_rets w))\<rparr>"
  note ed = enc_drain_phase[of e k ?sr encs ?w1]
  show ?thesis
  proof (cases "?sr < 0")
    case True
    then show ?thesis by (simp add: process_frame_def Let_def split_beta phase_step_def)
  next
    case False
    show ?thesis
    proof (cases "fst (enc_drain e k ?sr encs ?w1)")
      case None
      with False ed show ?thesis
        by (simp add: process_frame_def Let_def split_beta phase_step_def phase_run_append)
    next
      case (Some r)
      with False ed show ?thesis
        by (simp add: process_frame_def Let_def split_beta phase_step_def phase_run_append)
    qed
  qed
qed

lemma dec_drain_phase:
  "phase_run is_frame frame_work frame_error Idle (fst (snd (dec_drain e vsi k ret decs encs w)))
     \<in> {Some Idle, Some Stopped} \<and>
   (fst (dec_drain e vsi k ret decs encs w) \<noteq> None \<longrightarrow>
      phase_run is_frame frame_work frame_error Idle (fst (snd (dec_drain e vsi k ret decs encs w)))
        = Some Idle)"
proof (induction decs arbitrary: ret encs w)
  case Nil
  show ?case by (simp add: phase_step_def)
next
  case (Cons a decs)
  obtain r f where a: "a = (r, f)" by (cases a)
  let ?pf = "process_frame e vsi k f encs w"
  let ?R = "phase_run is_frame frame_work frame_error"
  note pp = process_frame_phase[of e vsi k f encs w]
  show ?case
  proof (cases "0 \<le> ret \<and> 0 \<le> r")
    case False
    then show ?thesis by (auto simp: a phase_step_def)
  next
    case True
    then have r: "r \<noteq> AVERROR_EAGAIN" "r \<noteq> AVERROR_EOF" "\<not> r < 0" by auto
    show ?thesis
    proof (cases "fst ?pf")
      case None
      then have E: "dec_drain e vsi k ret (a # decs) encs w =
          (None, avcodec_receive_frame r # fst (snd ?pf), decs, fst (snd (snd ?pf)), snd (snd (snd ?pf)))"
        using True r by (simp add: a split_beta)
      show ?thesis unfolding E using pp None True by (simp add: phase_step_def)
    next
      case (Some ret')
      let ?rec = "dec_drain e vsi k ret' decs (fst (snd (snd ?pf))) (snd (snd (snd ?pf)))"
      from Some have E: "fst (snd (dec_drain e vsi k ret (a # decs) encs w)) =
           (avcodec_receive_frame r # fst (snd ?pf)) @ fst (snd ?rec)"
         and F: "fst (dec_drain e vsi k ret (a # decs) encs w) = fst ?rec"
        using True r by (simp_all add: a split_beta)
      note IH = Cons.IH[of ret' "fst (snd (snd ?pf))" "snd (snd (snd ?pf))"]
      have P: "?R Idle (avcodec_receive_frame r # fst (snd ?pf)) = Some Idle"
        using pp Some True by (simp add: phase_step_def)
      show ?thesis unfolding E F phase_run_append P using IH by simp
    qed
  qed
qed

lemma transcode_loop_phase:
  "phase_run is_frame frame_work frame_error Idle (fst (snd (transcode_loop e vsi m rds decs encs w)))
     \<in> {Some Idle, Some Stopped} \<and>
   (fst (transcode_loop e vsi m rds decs encs w) = LoopLeft \<longrightarrow>
      phase_run is_frame frame_work frame_error Idle (fst (snd (transcode_loop e vsi m rds decs encs w)))
        = Some Idle)"
proof (induction rds arbitrary: decs encs w)
  case Nil
  show ?case by (simp add: phase_step_def)
next
  case (Cons a rds)
  obtain ret pkt where a: "a = (ret, pkt)" by (cases a)
  let ?sr = "fst (next_ret (send_packet_rets w))"
  let ?w1 = "w\<lparr>send_packet_rets := snd (next_ret (send_packet_rets w))\<rparr>"
  let ?dd = "dec_drain e vsi (nat (m ! vsi)) ?sr decs encs ?w1"
  let ?w2 = "w\<lparr>write_frame_rets := snd (next_ret (write_frame_rets w))\<rparr>"
  let ?rc = "transcode_loop e vsi m rds (fst (snd (snd ?dd))) (fst (snd (snd (snd ?dd))))
               (snd (snd (snd (snd ?dd))))"
  let ?TL = "transcode_loop e vsi m ((ret, pkt) # rds) decs encs w"
  let ?R = "phase_run is_frame frame_work frame_error"
  note cases = transcode_loop_Cons_cases[where e=e and vsi=vsi and m=m and ret=ret and pkt=pkt
            and rest=rds and decs=decs and encs=encs and w=w]
  note IHv = Cons.IH[of "fst (snd (snd ?dd))" "fst (snd (snd (snd ?dd)))" "snd (snd (snd (snd ?dd)))"]
  note IHs = Cons.IH[of decs encs w]
  note IHc = Cons.IH[of decs encs ?w2]
  note dp = dec_drain_phase[of e vsi "nat (m ! vsi)" ?sr decs encs ?w1]
  have "?R Idle (fst (snd ?TL)) \<in> {Some Idle, Some Stopped} \<and>
        (fst ?TL = LoopLeft \<longrightarrow> ?R Idle (fst (snd ?TL)) = Some Idle)"
  proof (cases rule: cases)
    case read_fail
    then show ?thesis by (simp add: phase_step_def)
  next
    case send_fail
    then show ?thesis by (simp add: phase_step_def)
  next
    case dec_cleanup
    then show ?thesis using dp by (simp add: phase_step_def)
  next
    case video
    from video(4) dp have P: "?R Idle (fst (snd ?dd)) = Some Idle" by simp
    from video(5) have E: "fst (snd ?TL) =
        [av_read_frame ret, avcodec_send_packet (Some pkt) ?sr] @ fst (snd ?dd) @ fst (snd ?rc)"
      and F: "fst ?TL = fst ?rc" by (simp_all add: Let_def)
    have Q: "?R Idle ([av_read_frame ret, avcodec_send_packet (Some pkt) ?sr] @ fst (snd ?dd) @ fst (snd ?rc))
          = ?R Idle (fst (snd ?rc))"
      by (simp add: phase_step_def phase_run_append P)
    show ?thesis unfolding E F Q using IHv by simp
  next
    case skipped
    then show ?thesis using IHs by (simp add: Let_def phase_step_def)
  next
    case write_fail
    then show ?thesis by (simp add: phase_step_def)
  next
    case copied
    then show ?thesis using IHc by (simp add: Let_def phase_step_def)
  qed
  then show ?case unfolding a .
qed

lemma trig_loop_event:
  "is_frame ev \<Longrightarrow> loop_event ev \<and> \<not> frame_work ev \<and> \<not> frame_error ev \<and> \<not> is_poll ev"
  "is_written ev \<Longrightarrow> loop_event ev \<and> \<not> is_progress ev \<and> \<not> is_poll ev"
  by (cases ev; simp)+

lemma Entry_phase_transcode:
  assumes "m_reencode j"
  shows "phase_run is_frame frame_work frame_error Idle (Entry j e) \<in> {Some Idle, Some Stopped}"
  using assms
proof (cases rule: Entry_transcode_elim[where e=e])
  case setup_failed
  then have "\<forall>ev\<in>set (Entry j e). \<not> is_poll ev \<and> \<not> is_frame ev"
    using setup_event_props(2,4) by blast
  then show ?thesis by (simp add: phase_run_idle)
next
  case (aborted pre)
  let ?R = "phase_run is_frame frame_work frame_error"
  let ?TL = "transcode_loop e (nat (find_video_stream 0 (streams e))) (map int [0..<length (streams e)])
               (reads e) (decoded e) (encoded e) (answers e)"
  let ?out = "make_output_path (m_input j) (m_outFormat j)"
  have p: "?R Idle pre = Some Idle"
    using aborted(2) setup_event_props(2,4) by (intro phase_run_idle) blast
  have c: "\<forall>ev\<in>set (cleanup e ?out). \<not> loop_event ev"
    using cleanup_setup setup_event_not_loop by blast
  from transcode_loop_phase[of e "nat (find_video_stream 0 (streams e))"
         "map int [0..<length (streams e)]" "reads e" "decoded e" "encoded e" "answers e"]
  consider "?R Idle (fst (snd ?TL)) = Some Idle" | "?R Idle (fst (snd ?TL)) = Some Stopped" by auto
  then show ?thesis
  proof cases
    case 1
    have "?R Idle (cleanup e ?out) = Some Idle"
      using c trig_loop_event(1) by (intro phase_run_quiet) auto
    with 1 p show ?thesis unfolding aborted(1) by (simp add: phase_run_append)
  next
    case 2
    have "?R Stopped (cleanup e ?out) = Some Stopped"
      using c by (intro phase_run_stopped)
    with 2 p show ?thesis unfolding aborted(1) by (simp add: phase_run_append)
  qed
next
  case (finished pre sr)
  let ?R = "phase_run is_frame frame_work frame_error"
  let ?m = "map int [0..<length (streams e)]"
  let ?vsi = "nat (find_video_stream 0 (streams e))"
  let ?TL = "transcode_loop e ?vsi ?m (reads e) (decoded e) (encoded e) (answers e)"
  let ?fl = "flush_encoder e (nat (?m ! ?vsi)) (fst (snd (snd (snd ?TL))))
           ((snd (snd (snd (snd ?TL))))\<lparr>send_frame_rets :=
               snd (next_ret (send_frame_rets (snd (snd (snd (snd ?TL))))))\<rparr>)"
  let ?out = "make_output_path (m_input j) (m_outFormat j)"
  have p: "?R Idle pre = Some Idle"
    using finished(2) setup_event_props(2,4) by (intro phase_run_idle) blast
  from transcode_loop_phase[of e ?vsi ?m "reads e" "decoded e" "encoded e" "answers e"] finished(3)
  have l: "?R Idle (fst (snd ?TL)) = Some Idle" by simp
  have "\<forall>ev\<in>set (avcodec_send_frame None sr # ?fl @ av_write_trailer # cleanup e ?out).
          \<not> is_poll ev \<and> \<not> is_frame ev"
    using flush_encoder_quiet[of _ e "nat (?m ! ?vsi)"] cleanup_setup[of _ e ?out]
      setup_event_props(2,4) by auto
  then have s: "?R Idle (avcodec_send_frame None sr # ?fl @ av_write_trailer # cleanup e ?out) = Some Idle"
    by (rule phase_run_idle)
  show ?thesis unfolding finished(1) using p l s by (simp add: phase_run_append)
qed

lemma remux_loop_phase:
  "phase_run is_written is_progress (\<lambda>ev. False) Idle (remux_loop e m rds w)
     \<in> {Some Idle, Some Stopped}"
proof (induction rds arbitrary: w)
  case Nil
  show ?case by (simp add: phase_step_def)
next
  case (Cons a rds)
  obtain ret pkt where a: "a = (ret, pkt)" by (cases a)
  let ?w' = "w\<lparr>write_frame_rets := snd (next_ret (write_frame_rets w)),
               test_destroy := snd (next_poll (test_destroy w))\<rparr>"
  let ?R = "phase_run is_written is_progress (\<lambda>ev. False)"
  note IHs = Cons.IH[of w]
  note IHw = Cons.IH[of ?w']
  have "?R Idle (remux_loop e m ((ret, pkt) # rds) w) \<in> {Some Idle, Some Stopped}"
  proof (cases rule: remux_loop_Cons_cases[where e=e and m=m and ret=ret and pkt=pkt and rest=rds and w=w])
    case read_fail
    then show ?thesis by (simp add: phase_step_def)
  next
    case skipped
    then show ?thesis using IHs by (simp add: phase_step_def)
  next
    case write_fail
    then show ?thesis by (simp add: phase_step_def)
  next
    case cancelled
    then show ?thesis by (simp add: phase_step_def phase_run_append)
  next
    case written
    then show ?thesis using IHw by (simp add: phase_step_def phase_run_append)
  qed
  then show ?case unfolding a .
qed

lemma Entry_phase_remux:
  assumes "\<not> m_reencode j"
  shows "phase_run is_written is_progress (\<lambda>ev. False) Idle (Entry j e) \<in> {Some Idle, Some Stopped}"
proof -
  let ?R = "phase_run is_written is_progress (\<lambda>ev. False)"
  from Entry_remux_cases[OF assms, of e] show ?thesis
  proof
    assume "\<forall>ev\<in>set (Entry j e). setup_event ev \<and> (\<forall>r. ev = avformat_write_header r \<longrightarrow> r < 0)"
    then have "\<forall>ev\<in>set (Entry j e). \<not> is_poll ev \<and> \<not> is_written ev"
      using setup_event_props(2,3) by blast
    then show ?thesis by (simp add: phase_run_idle)
  next
    let ?RL = "remux_loop e (map int [0..<length (streams e)]) (reads e) (answers e)"
    let ?out = "make_output_path (m_input j) (m_outFormat j)"
    assume "\<exists>pre. Entry j e = pre @ ?RL @ finalize e ?out \<and> (\<forall>ev\<in>set pre. setup_event ev)"
    then obtain pre where E: "Entry j e = pre @ ?RL @ finalize e ?out"
      and pre: "\<forall>ev\<in>set pre. setup_event ev" by blast
    have p: "?R Idle pre = Some Idle"
      using pre setup_event_props(2,3) by (intro phase_run_idle) blast
    have c: "\<forall>ev\<in>set (finalize e ?out). \<not> loop_event ev"
      using finalize_events[of _ e ?out] setup_event_not_loop by fastforce
    from remux_loop_phase[of e "map int [0..<length (streams e)]" "reads e" "answers e"]
    consider "?R Idle ?RL = Some Idle" | "?R Idle ?RL = Some Stopped" by auto
    then show ?thesis
    proof cases
      case 1
      have "?R Idle (finalize e ?out) = Some Idle"
        using c trig_loop_event(2) by (intro phase_run_quiet) auto
      with 1 p show ?thesis unfolding E by (simp add: phase_run_append)
    next
      case 2
      have "?R Stopped (finalize e ?out) = Some Stopped"
        using c by (intro phase_run_stopped)
      with 2 p show ?thesis unfolding E by (simp add: phase_run_append)
    qed
  qed
qed

lemma process_frame_polled:
  "fst (process_frame e vsi k f encs w) \<noteq> None \<Longrightarrow>
     length (filter is_poll (fst (snd (process_frame e vsi k f encs w)))) = 1"
  by (auto simp: process_frame_def Let_def split_beta split: if_splits option.splits)

lemma dec_drain_frames:
  "length (filter is_frame (fst (snd (dec_drain e vsi k ret decs encs w))))
     \<le> length (filter is_poll (fst (snd (dec_drain e vsi k ret decs encs w))))
        + (if fst (dec_drain e vsi k ret decs encs w) = None then 1 else 0)"
proof (induction decs arbitrary: ret encs w)
  case Nil
  show ?case by simp
next
  case (Cons a decs)
  obtain r f where a: "a = (r, f)" by (cases a)
  let ?pf = "process_frame e vsi k f encs w"
  note IH = Cons.IH[of "the (fst ?pf)" "fst (snd (snd ?pf))" "snd (snd (snd ?pf))"]
  show ?case using IH process_frame_counts(2)[of e vsi k f encs w]
      process_frame_polled[of e vsi k f encs w]
    by (auto simp: a Let_def split_beta split: if_splits option.splits)
qed

lemma transcode_loop_frames:
  "length (filter is_frame (fst (snd (transcode_loop e vsi m rds decs encs w))))
     \<le> length (filter is_poll (fst (snd (transcode_loop e vsi m rds decs encs w))))
        + (if fst (transcode_loop e vsi m rds decs encs w) = GotoCleanup then 1 else 0)"
proof (induction rds arbitrary: decs encs w)
  case Nil
  show ?case by simp
next
  case (Cons a rds)
  obtain ret pkt where a: "a = (ret, pkt)" by (cases a)
  let ?sr = "fst (next_ret (send_packet_rets w))"
  let ?w1 = "w\<lparr>send_packet_rets := snd (next_ret (send_packet_rets w))\<rparr>"
  let ?dd = "dec_drain e vsi (nat (m ! vsi)) ?sr decs encs ?w1"
  let ?w2 = "w\<lparr>write_frame_rets := snd (next_ret (write_frame_rets w))\<rparr>"
  let ?rc = "transcode_loop e vsi m rds (fst (snd (snd ?dd))) (fst (snd (snd (snd ?dd))))
               (snd (snd (snd (snd ?dd))))"
  let ?TL = "transcode_loop e vsi m ((ret, pkt) # rds) decs encs w"
  note cases = transcode_loop_Cons_cases[where e=e and vsi=vsi and m=m and ret=ret and pkt=pkt
            and rest=rds and decs=decs and encs=encs and w=w]
  note IHv = Cons.IH[of "fst (snd (snd ?dd))" "fst (snd (snd (snd ?dd)))" "snd (snd (snd (snd ?dd)))"]
  note IHs = Cons.IH[of decs encs w]
  note IHc = Cons.IH[of decs encs ?w2]
  note dc = dec_drain_frames[of e vsi "nat (m ! vsi)" ?sr decs encs ?w1]
  have "length (filter is_frame (fst (snd ?TL))) \<le> length (filter is_poll (fst (snd ?TL)))
          + (if fst ?TL = GotoCleanup then 1 else 0)"
  proof (cases rule: cases)
    case video
    from video(4) dc have d: "length (filter is_frame (fst (snd ?dd))) \<le> length (filter is_poll (fst (snd ?dd)))"
      by (auto split: if_splits)
    from video(5) have E: "fst (snd ?TL) =
        [av_read_frame ret, avcodec_send_packet (Some pkt) ?sr] @ fst (snd ?dd) @ fst (snd ?rc)"
      and F: "fst ?TL = fst ?rc" by (simp_all add: Let_def)
    show ?thesis unfolding E F using IHv d by (simp split: if_splits)
  next
    case dec_cleanup
    then show ?thesis using dc by (simp split: if_splits)
  next
    case skipped
    then show ?thesis using IHs by (simp add: Let_def split: if_splits)
  next
    case copied
    then show ?thesis using IHc by (simp add: Let_def split: if_splits)
  qed simp_all
  then show ?case unfolding a .
qed

lemma Entry_frames_transcode:
  assumes "m_reencode j"
  shows "length (filter is_frame (Entry j e)) \<le> length (filter is_poll (Entry j e)) + 1"
  using assms
proof (cases rule: Entry_transcode_elim[where e=e])
  case setup_failed
  then have "\<forall>ev\<in>set (Entry j e). setup_event ev" by blast
  from filter_setup_empty(1,3)[OF this] show ?thesis by simp
next
  case (aborted pre)
  show ?thesis unfolding aborted(1)
    using filter_setup_empty(1,3)[OF aborted(2)]
      transcode_loop_frames[of e "nat (find_video_stream 0 (streams e))"
        "map int [0..<length (streams e)]" "reads e" "decoded e" "encoded e" "answers e"]
    by (simp split: if_splits)
next
  case (finished pre sr)
  show ?thesis unfolding finished(1)
    using filter_setup_empty(1,3)[OF finished(2)]
      transcode_loop_frames[of e "nat (find_video_stream 0 (streams e))"
        "map int [0..<length (streams e)]" "reads e" "decoded e" "encoded e" "answers e"]
    by (simp split: if_splits)
qed

lemma is_poll_cases: "is_poll x \<Longrightarrow> \<exists>b. x = TestDestroy b"
  by (cases x) simp_all

section \<open>The order of the calls of the frame loop: proofs\<close>

lemma all_followed_iff:
  "all_followed R xs = (\<forall>pre ev post. xs = pre @ ev # post \<longrightarrow> R ev post)"
proof (induction xs)
  case Nil
  show ?case by simp
next
  case (Cons x xs)
  show ?case
  proof
    assume a: "all_followed R (x # xs)"
    show "\<forall>pre ev post. x # xs = pre @ ev # post \<longrightarrow> R ev post"
    proof (intro allI impI)
      fix pre ev post assume e: "x # xs = pre @ ev # post"
      show "R ev post"
      proof (cases pre)
        case Nil
        with e a show ?thesis by simp
      next
        case (Cons y ys)
        with e have "xs = ys @ ev # post" by simp
        with a Cons.IH show ?thesis by auto
      qed
    qed
  next
    assume a: "\<forall>pre ev post. x # xs = pre @ ev # post \<longrightarrow> R ev post"
    then have "R x xs" by (metis append_Nil)
    moreover have "\<forall>pre ev post. xs = pre @ ev # post \<longrightarrow> R ev post"
    proof (intro allI impI)
      fix pre ev post assume "xs = pre @ ev # post"
      then have "x # xs = (x # pre) @ ev # post" by simp
      with a show "R ev post" by blast
    qed
    ultimately show "all_followed R (x # xs)" using Cons.IH by simp
  qed
qed

lemma all_followed_append:
  assumes "all_followed R xs" "all_followed R ys" "\<forall>ev a b. R ev a \<longrightarrow> R ev (a @ b)"
  shows "all_followed R (xs @ ys)"
  using assms(1) by (induction xs) (use assms(2,3) in auto)

lemma all_followed_trivial:
  "\<forall>ev\<in>set xs. \<forall>post. R ev post \<Longrightarrow> all_followed R xs"
  by (induction xs) auto

lemma all_followed_cross:
  assumes "all_followed R xs" "all_followed R ys" "\<forall>ev\<in>set xs. \<forall>a. R ev a \<longrightarrow> R ev (a @ ys)"
  shows "all_followed R (xs @ ys)"
  using assms(1,3) by (induction xs) (use assms(2) in auto)

lemma starts_request_iff:
  "starts_request post = (\<exists>r rest. post = avcodec_receive_frame r # rest)"
proof (cases post)
  case Nil
  then show ?thesis by (simp add: starts_request_def)
next
  case (Cons ev rest)
  then show ?thesis by (cases ev) (simp_all add: starts_request_def)
qed

lemma starts_conversion_iff:
  "starts_conversion post = (\<exists>f sfr rest. post = sws_scale # avcodec_send_frame (Some f) sfr # rest)"
proof (cases post)
  case Nil
  then show ?thesis by (simp add: starts_conversion_def)
next
  case (Cons ev rest)
  show ?thesis
  proof (cases rest)
    case Nil
    with Cons show ?thesis by (simp add: starts_conversion_def)
  next
    case c2: (Cons ev' rest')
    have "sent_frame ev' \<noteq> None \<longleftrightarrow> (\<exists>f sfr. ev' = avcodec_send_frame (Some f) sfr)"
      by (cases ev') auto
    with Cons c2 show ?thesis by (auto simp: starts_conversion_def)
  qed
qed

lemma starts_drain_iff:
  "starts_drain post = (\<exists>dr rest. post = dr @ rest \<and> (drained dr \<or> drain_failed dr))"
proof
  assume "starts_drain post"
  then have "\<exists>n\<in>set [0..<Suc (length post)]. drained (take n post) \<or> drain_failed (take n post)"
    by (simp only: starts_drain_def list_ex_iff)
  then obtain n where "drained (take n post) \<or> drain_failed (take n post)" by blast
  moreover have "post = take n post @ drop n post" by simp
  ultimately show "\<exists>dr rest. post = dr @ rest \<and> (drained dr \<or> drain_failed dr)" by blast
next
  assume "\<exists>dr rest. post = dr @ rest \<and> (drained dr \<or> drain_failed dr)"
  then obtain dr rest where p: "post = dr @ rest" and d: "drained dr \<or> drain_failed dr" by blast
  from p have "take (length dr) post = dr" "length dr < Suc (length post)" by simp_all
  with d have "\<exists>n\<in>set [0..<Suc (length post)]. drained (take n post) \<or> drain_failed (take n post)"
    by (intro bexI[of _ "length dr"]) (auto simp: less_Suc_eq)
  then show "starts_drain post" by (simp only: starts_drain_def list_ex_iff)
qed

lemma frame_step_ext: "frame_step ev a \<Longrightarrow> frame_step ev (a @ b)"
  unfolding frame_step_def starts_request_iff starts_conversion_iff starts_drain_iff
  by (metis append_Cons append_assoc)

lemma frame_step_other:
  "\<not> packet_accepted ev \<Longrightarrow> \<not> is_frame ev \<Longrightarrow> \<not> frame_accepted ev \<Longrightarrow> frame_step ev post"
  by (simp add: frame_step_def)

lemma drain_failed_simps [simp]:
  "drain_failed [avcodec_receive_packet r] = False"
  "drain_failed [avcodec_receive_packet r, Log s] =
     (r < 0 \<and> r \<noteq> AVERROR_EAGAIN \<and> r \<noteq> AVERROR_EOF \<and> s = ''Error during encoding'')"
  "drain_failed (avcodec_receive_packet r # av_interleaved_write_frame q wr # evs) =
     (0 \<le> r \<and> (if wr < 0 then evs = [Log ''Error muxing encoded packet'']
                else drain_failed evs))"
  by simp_all

declare drain_failed.simps [simp del]

lemma enc_drain_failed:
  "fst (enc_drain e k ret encs w) = None \<Longrightarrow> drain_failed (fst (snd (enc_drain e k ret encs w)))"
proof (induction encs arbitrary: ret w)
  case Nil
  then show ?case by (simp split: if_splits)
next
  case (Cons a encs)
  obtain r p where a: "a = (r, p)" by (cases a)
  note IH = Cons.IH[of "fst (next_ret (write_frame_rets w))"
                      "w\<lparr>write_frame_rets := snd (next_ret (write_frame_rets w))\<rparr>"]
  show ?case using IH Cons.prems by (auto simp: a Let_def split_beta split: if_splits)
qed

lemma enc_drain_starts:
  assumes "0 \<le> ret"
  shows "starts_drain (fst (snd (enc_drain e k ret encs w)) @ ys)"
proof -
  have "drained (fst (snd (enc_drain e k ret encs w))) \<or>
        drain_failed (fst (snd (enc_drain e k ret encs w)))"
  proof (cases "fst (enc_drain e k ret encs w)")
    case None
    from enc_drain_failed[OF this] show ?thesis ..
  next
    case (Some r)
    from enc_drain_result[OF this] assms show ?thesis by simp
  qed
  then show ?thesis unfolding starts_drain_iff by blast
qed

lemma enc_drain_plain:
  assumes "ev \<in> set (fst (snd (enc_drain e k ret encs w)))"
  shows "\<not> packet_accepted ev" "\<not> is_frame ev" "\<not> frame_accepted ev" "sent_frame ev = None"
    "\<not> frame_request ev" "\<not> decoder_call ev" "\<not> read_failed ev"
  using enc_drain_events[OF assms] by auto

lemma progress_plain:
  assumes "ev \<in> set (progress e p tb)"
  shows "\<not> packet_accepted ev" "\<not> is_frame ev" "\<not> frame_accepted ev" "sent_frame ev = None"
    "\<not> frame_request ev" "\<not> decoder_call ev" "\<not> read_failed ev"
  using assms by (auto simp: progress_def split: if_splits)

lemma process_frame_head:
  "\<exists>sfr rest. fst (snd (process_frame e vsi k f encs w)) =
     sws_scale # avcodec_send_frame (Some \<lparr>frame_pts = frame_pts f\<rparr>) sfr # rest"
  by (auto simp: process_frame_def Let_def split_beta split: option.splits)

lemma process_frame_steps:
  "all_followed frame_step (fst (snd (process_frame e vsi k f encs w)))"
proof -
  let ?sr = "fst (next_ret (send_frame_rets w))"
  let ?w1 = "w\<lparr>send_frame_rets := snd (next_ret (send_frame_rets w))\<rparr>"
  let ?ed = "enc_drain e k ?sr encs ?w1"
  let ?sf = "avcodec_send_frame (Some \<lparr>frame_pts = frame_pts f\<rparr>) ?sr"
  have q: "all_followed frame_step (fst (snd ?ed) @ progress e p tb @ tl)"
    if "\<forall>ev\<in>set tl. \<not> packet_accepted ev \<and> \<not> is_frame ev \<and> \<not> frame_accepted ev" for p tb tl
    using that enc_drain_plain(1,2,3)[of _ e k ?sr encs ?w1] progress_plain(1,2,3)[of _ e p tb]
    by (intro all_followed_trivial) (auto simp: frame_step_def)
  show ?thesis
  proof (cases "?sr < 0")
    case True
    then show ?thesis by (simp add: process_frame_def Let_def split_beta frame_step_def)
  next
    case False
    then have sr: "0 \<le> ?sr" by simp
    have h: "frame_step sws_scale evs" for evs by (simp add: frame_step_def)
    have s: "frame_step ?sf (fst (snd ?ed) @ ys)" for ys
      using enc_drain_starts[OF sr, of e k encs ?w1 ys] by (simp add: frame_step_def)
    show ?thesis
    proof (cases "fst ?ed")
      case None
      from q[of "[]" AV_NOPTS_VALUE undefined] have "all_followed frame_step (fst (snd ?ed))"
        by (simp add: progress_def)
      with None sr h s[of "[]"] show ?thesis
        by (simp add: process_frame_def Let_def split_beta)
    next
      case (Some r)
      let ?p = "progress e (frame_pts f) (time_base (streams e ! vsi))"
      have 1: "all_followed frame_step (fst (snd ?ed) @ ?p @ [TestDestroy True, Log ''Conversion cancelled''])"
        by (rule q) simp
      have 2: "all_followed frame_step (fst (snd ?ed) @ ?p @ [TestDestroy False])"
        by (rule q) simp
      from Some sr h s 1 2 show ?thesis
        by (simp add: process_frame_def Let_def split_beta)
    qed
  qed
qed

lemma process_frame_sent:
  "List.map_filter sent_frame (fst (snd (process_frame e vsi k f encs w))) =
     [\<lparr>frame_pts = frame_pts f\<rparr>]"
  "filter frame_request (fst (snd (process_frame e vsi k f encs w))) = []"
  "\<forall>ev\<in>set (fst (snd (process_frame e vsi k f encs w))). \<not> decoder_call ev \<and> \<not> read_failed ev"
proof -
  let ?sr = "fst (next_ret (send_frame_rets w))"
  let ?w1 = "w\<lparr>send_frame_rets := snd (next_ret (send_frame_rets w))\<rparr>"
  let ?ed = "enc_drain e k ?sr encs ?w1"
  let ?p = "progress e (frame_pts f) (time_base (streams e ! vsi))"
  have e: "List.map_filter sent_frame (fst (snd ?ed)) = []" "filter frame_request (fst (snd ?ed)) = []"
    using enc_drain_plain(4,5)[of _ e k ?sr encs ?w1]
    by (auto intro!: map_filter_none filter_none)
  have p: "List.map_filter sent_frame ?p = []" "filter frame_request ?p = []"
    using progress_plain(4,5)[of _ e "frame_pts f" "time_base (streams e ! vsi)"]
    by (auto intro!: map_filter_none filter_none)
  show "List.map_filter sent_frame (fst (snd (process_frame e vsi k f encs w))) =
     [\<lparr>frame_pts = frame_pts f\<rparr>]"
    using e p by (auto simp: process_frame_def Let_def split_beta List.map_filter_simps
          map_filter_append split: option.splits)
  show "filter frame_request (fst (snd (process_frame e vsi k f encs w))) = []"
    using e p by (auto simp: process_frame_def Let_def split_beta split: option.splits)
  show "\<forall>ev\<in>set (fst (snd (process_frame e vsi k f encs w))). \<not> decoder_call ev \<and> \<not> read_failed ev"
    using enc_drain_plain(6,7)[of _ e k ?sr encs ?w1]
      progress_plain(6,7)[of _ e "frame_pts f" "time_base (streams e ! vsi)"]
    by (auto simp: process_frame_def Let_def split_beta split: option.splits)
qed

lemma dec_drain_steps:
  "all_followed frame_step (fst (snd (dec_drain e vsi k ret decs encs w)))"
proof (induction decs arbitrary: ret encs w)
  case Nil
  show ?case by (simp add: frame_step_def)
next
  case (Cons a decs)
  obtain r f where a: "a = (r, f)" by (cases a)
  let ?pf = "process_frame e vsi k f encs w"
  note ps = process_frame_steps[of e vsi k f encs w]
  from process_frame_head[of e vsi k f encs w]
  have sc: "starts_conversion (fst (snd ?pf) @ ys)" for ys
    unfolding starts_conversion_iff by auto
  have hs: "frame_step (avcodec_receive_frame r) (fst (snd ?pf) @ ys)" for ys
    using sc[of ys] by (simp add: frame_step_def)
  show ?case
  proof (cases "0 \<le> ret \<and> 0 \<le> r")
    case False
    then show ?thesis by (auto simp: a frame_step_def)
  next
    case True
    then have r: "r \<noteq> AVERROR_EAGAIN" "r \<noteq> AVERROR_EOF" "\<not> r < 0" by auto
    show ?thesis
    proof (cases "fst ?pf")
      case None
      then have E: "fst (snd (dec_drain e vsi k ret (a # decs) encs w)) =
          avcodec_receive_frame r # fst (snd ?pf)"
        using True r by (simp add: a split_beta)
      show ?thesis unfolding E using ps hs[of "[]"] by simp
    next
      case (Some ret')
      let ?rec = "dec_drain e vsi k ret' decs (fst (snd (snd ?pf))) (snd (snd (snd ?pf)))"
      from Some have E: "fst (snd (dec_drain e vsi k ret (a # decs) encs w)) =
           avcodec_receive_frame r # fst (snd ?pf) @ fst (snd ?rec)"
        using True r by (simp add: a split_beta)
      note IH = Cons.IH[of ret' "fst (snd (snd ?pf))" "snd (snd (snd ?pf))"]
      have "all_followed frame_step (fst (snd ?pf) @ fst (snd ?rec))"
        using ps IH frame_step_ext by (intro all_followed_append) auto
      then show ?thesis unfolding E using hs[of "fst (snd ?rec)"] by simp
    qed
  qed
qed

lemma dec_drain_consumed:
  "fst (snd (snd (dec_drain e vsi k ret decs encs w))) =
     drop (length (filter frame_request (fst (snd (dec_drain e vsi k ret decs encs w))))) decs \<and>
   List.map_filter sent_frame (fst (snd (dec_drain e vsi k ret decs encs w))) =
     map (\<lambda>(r, f). \<lparr>frame_pts = frame_pts f\<rparr>)
       (filter (\<lambda>(r, f). 0 \<le> r)
          (take (length (filter frame_request (fst (snd (dec_drain e vsi k ret decs encs w)))))
             decs))"
proof (induction decs arbitrary: ret encs w)
  case Nil
  show ?case by (simp add: List.map_filter_simps)
next
  case (Cons a decs)
  obtain r f where a: "a = (r, f)" by (cases a)
  let ?pf = "process_frame e vsi k f encs w"
  note ps = process_frame_sent(1,2)[of e vsi k f encs w]
  show ?case
  proof (cases "0 \<le> ret \<and> 0 \<le> r")
    case False
    then show ?thesis by (auto simp: a List.map_filter_simps)
  next
    case True
    then have r: "r \<noteq> AVERROR_EAGAIN" "r \<noteq> AVERROR_EOF" "\<not> r < 0" by auto
    show ?thesis
    proof (cases "fst ?pf")
      case None
      then have E: "dec_drain e vsi k ret (a # decs) encs w =
          (None, avcodec_receive_frame r # fst (snd ?pf), decs, fst (snd (snd ?pf)), snd (snd (snd ?pf)))"
        using True r by (simp add: a split_beta)
      show ?thesis unfolding E using ps True by (simp add: a List.map_filter_simps)
    next
      case (Some ret')
      let ?rec = "dec_drain e vsi k ret' decs (fst (snd (snd ?pf))) (snd (snd (snd ?pf)))"
      from Some have E: "fst (snd (dec_drain e vsi k ret (a # decs) encs w)) =
           (avcodec_receive_frame r # fst (snd ?pf)) @ fst (snd ?rec)"
         and F: "fst (snd (snd (dec_drain e vsi k ret (a # decs) encs w))) = fst (snd (snd ?rec))"
        using True r by (simp_all add: a split_beta)
      note IH = Cons.IH[of ret' "fst (snd (snd ?pf))" "snd (snd (snd ?pf))"]
      show ?thesis unfolding E F using ps True IH
        by (simp add: a List.map_filter_simps map_filter_append)
    qed
  qed
qed

lemma frame_step_plain [simp]:
  "frame_step (av_read_frame x) ys"
  "frame_step (av_interleaved_write_frame q wr) ys"
  "frame_step (Log s) ys"
  "frame_step av_write_trailer ys"
  "frame_step (avcodec_send_frame None sr) ys"
  by (simp_all add: frame_step_def)

lemma transcode_loop_steps:
  "all_followed frame_step (fst (snd (transcode_loop e vsi m rds decs encs w)))"
proof (induction rds arbitrary: decs encs w)
  case Nil
  show ?case by simp
next
  case (Cons a rds)
  obtain ret pkt where a: "a = (ret, pkt)" by (cases a)
  let ?sr = "fst (next_ret (send_packet_rets w))"
  let ?w1 = "w\<lparr>send_packet_rets := snd (next_ret (send_packet_rets w))\<rparr>"
  let ?dd = "dec_drain e vsi (nat (m ! vsi)) ?sr decs encs ?w1"
  let ?w2 = "w\<lparr>write_frame_rets := snd (next_ret (write_frame_rets w))\<rparr>"
  let ?rc = "transcode_loop e vsi m rds (fst (snd (snd ?dd))) (fst (snd (snd (snd ?dd))))
               (snd (snd (snd (snd ?dd))))"
  let ?TL = "transcode_loop e vsi m ((ret, pkt) # rds) decs encs w"
  note cases = transcode_loop_Cons_cases[where e=e and vsi=vsi and m=m and ret=ret and pkt=pkt
            and rest=rds and decs=decs and encs=encs and w=w]
  note IHv = Cons.IH[of "fst (snd (snd ?dd))" "fst (snd (snd (snd ?dd)))" "snd (snd (snd (snd ?dd)))"]
  note IHs = Cons.IH[of decs encs w]
  note IHc = Cons.IH[of decs encs ?w2]
  note ds = dec_drain_steps[of e vsi "nat (m ! vsi)" ?sr decs encs ?w1]
  have sp: "frame_step (avcodec_send_packet (Some pkt) ?sr) (fst (snd ?dd) @ ys)" for ys
  proof (cases "0 \<le> ?sr")
    case True
    from dec_drain_head[OF True, of e vsi "nat (m ! vsi)" decs encs ?w1]
    have "starts_request (fst (snd ?dd) @ ys)" unfolding starts_request_iff by auto
    then show ?thesis by (simp add: frame_step_def)
  next
    case False
    then show ?thesis by (simp add: frame_step_def)
  qed
  have sf: "?sr < 0 \<Longrightarrow> frame_step (avcodec_send_packet (Some pkt) ?sr) ys" for ys
    by (simp add: frame_step_def)
  have "all_followed frame_step (fst (snd ?TL))"
  proof (cases rule: cases)
    case read_fail
    then show ?thesis by simp
  next
    case send_fail
    then show ?thesis using sf by simp
  next
    case dec_cleanup
    then show ?thesis using ds sp[of "[]"] by simp
  next
    case video
    from video(5) have E: "fst (snd ?TL) =
        av_read_frame ret # avcodec_send_packet (Some pkt) ?sr # fst (snd ?dd) @ fst (snd ?rc)"
      by (simp add: Let_def)
    have "all_followed frame_step (fst (snd ?dd) @ fst (snd ?rc))"
      using ds IHv frame_step_ext by (intro all_followed_append) auto
    then show ?thesis unfolding E using sp[of "fst (snd ?rc)"] by simp
  next
    case skipped
    then show ?thesis using IHs by (simp add: Let_def)
  next
    case write_fail
    then show ?thesis by simp
  next
    case copied
    then show ?thesis using IHc by (simp add: Let_def)
  qed
  then show ?case unfolding a .
qed

lemma transcode_loop_consumed:
  "fst (snd (snd (transcode_loop e vsi m rds decs encs w))) =
     drop (length (filter frame_request (fst (snd (transcode_loop e vsi m rds decs encs w))))) decs \<and>
   List.map_filter sent_frame (fst (snd (transcode_loop e vsi m rds decs encs w))) =
     map (\<lambda>(r, f). \<lparr>frame_pts = frame_pts f\<rparr>)
       (filter (\<lambda>(r, f). 0 \<le> r)
          (take (length (filter frame_request (fst (snd (transcode_loop e vsi m rds decs encs w)))))
             decs))"
proof (induction rds arbitrary: decs encs w)
  case Nil
  show ?case by (simp add: List.map_filter_simps)
next
  case (Cons a rds)
  obtain ret pkt where a: "a = (ret, pkt)" by (cases a)
  let ?sr = "fst (next_ret (send_packet_rets w))"
  let ?w1 = "w\<lparr>send_packet_rets := snd (next_ret (send_packet_rets w))\<rparr>"
  let ?dd = "dec_drain e vsi (nat (m ! vsi)) ?sr decs encs ?w1"
  let ?w2 = "w\<lparr>write_frame_rets := snd (next_ret (write_frame_rets w))\<rparr>"
  let ?rc = "transcode_loop e vsi m rds (fst (snd (snd ?dd))) (fst (snd (snd (snd ?dd))))
               (snd (snd (snd (snd ?dd))))"
  let ?TL = "transcode_loop e vsi m ((ret, pkt) # rds) decs encs w"
  let ?F = "\<lambda>ds. map (\<lambda>(r, f). \<lparr>frame_pts = frame_pts f\<rparr>) (filter (\<lambda>(r, f). 0 \<le> r) ds)"
  let ?n = "\<lambda>evs. length (filter frame_request evs)"
  note cases = transcode_loop_Cons_cases[where e=e and vsi=vsi and m=m and ret=ret and pkt=pkt
            and rest=rds and decs=decs and encs=encs and w=w]
  note IHv = Cons.IH[of "fst (snd (snd ?dd))" "fst (snd (snd (snd ?dd)))" "snd (snd (snd (snd ?dd)))"]
  note IHs = Cons.IH[of decs encs w]
  note IHc = Cons.IH[of decs encs ?w2]
  note dc = dec_drain_consumed[of e vsi "nat (m ! vsi)" ?sr decs encs ?w1]
  have "fst (snd (snd ?TL)) = drop (?n (fst (snd ?TL))) decs \<and>
        List.map_filter sent_frame (fst (snd ?TL)) = ?F (take (?n (fst (snd ?TL))) decs)"
  proof (cases rule: cases)
    case read_fail
    from read_fail(1) have G: "fst (snd (snd ?TL)) = decs"
      by (simp add: transcode_loop.simps(2))
    show ?thesis unfolding G read_fail(3) by (simp add: List.map_filter_simps)
  next
    case send_fail
    from send_fail(1,2,3) have G: "fst (snd (snd ?TL)) = decs"
      by (simp add: transcode_loop.simps(2) Let_def split_beta)
    show ?thesis unfolding G send_fail(5) by (simp add: List.map_filter_simps)
  next
    case dec_cleanup
    from dec_cleanup(1,2,3,4) have G: "fst (snd (snd ?TL)) = fst (snd (snd ?dd))"
      by (simp add: transcode_loop.simps(2) Let_def split_beta split: option.splits)
    show ?thesis unfolding G dec_cleanup(6) using dc
      by (simp add: List.map_filter_simps map_filter_append)
  next
    case video
    from video(5) have E: "fst (snd ?TL) =
        [av_read_frame ret, avcodec_send_packet (Some pkt) ?sr] @ fst (snd ?dd) @ fst (snd ?rc)"
      and G: "fst (snd (snd ?TL)) = fst (snd (snd ?rc))" by (simp_all add: Let_def)
    have n: "?n (fst (snd ?TL)) = ?n (fst (snd ?dd)) + ?n (fst (snd ?rc))"
      unfolding E by simp
    have s: "List.map_filter sent_frame (fst (snd ?TL)) =
        List.map_filter sent_frame (fst (snd ?dd)) @ List.map_filter sent_frame (fst (snd ?rc))"
      unfolding E by (simp add: List.map_filter_simps map_filter_append)
    define nd where "nd = ?n (fst (snd ?dd))"
    define nr where "nr = ?n (fst (snd ?rc))"
    define D where "D = fst (snd (snd ?dd))"
    define R where "R = fst (snd (snd ?rc))"
    define sd where "sd = List.map_filter sent_frame (fst (snd ?dd))"
    define sr' where "sr' = List.map_filter sent_frame (fst (snd ?rc))"
    from dc have d1: "D = drop nd decs" and d2: "sd = ?F (take nd decs)"
      unfolding nd_def D_def sd_def by simp_all
    from IHv have r1: "R = drop nr D" and r2: "sr' = ?F (take nr D)"
      unfolding nr_def D_def R_def sr'_def by simp_all
    have 1: "R = drop (nd + nr) decs" unfolding r1 d1 by (simp add: add.commute)
    have 2: "sd @ sr' = ?F (take (nd + nr) decs)" unfolding r2 d2 d1 by (simp add: take_add)
    have "fst (snd (snd ?TL)) = drop (?n (fst (snd ?TL))) decs"
      unfolding G n using 1 unfolding R_def nd_def nr_def .
    moreover have "List.map_filter sent_frame (fst (snd ?TL)) = ?F (take (?n (fst (snd ?TL))) decs)"
      unfolding s n using 2 unfolding sd_def sr'_def nd_def nr_def .
    ultimately show ?thesis by blast
  next
    case skipped
    then show ?thesis using IHs by (simp add: Let_def List.map_filter_simps)
  next
    case write_fail
    from write_fail(1,2,3,4) have G: "fst (snd (snd ?TL)) = decs"
      by (simp add: transcode_loop.simps(2) Let_def split_beta)
    show ?thesis unfolding G write_fail(6) by (simp add: List.map_filter_simps)
  next
    case copied
    then show ?thesis using IHc by (simp add: Let_def List.map_filter_simps)
  qed
  then show ?case unfolding a .
qed

lemma after_end_skip:
  assumes "\<forall>ev\<in>set xs. \<not> read_failed ev" "all_followed after_end ys"
  shows "all_followed after_end (xs @ ys)"
  using assms(1) by (induction xs) (use assms(2) in \<open>auto simp: after_end_def\<close>)

lemma after_end_none:
  "\<forall>ev\<in>set xs. \<not> read_failed ev \<Longrightarrow> all_followed after_end xs"
  using after_end_skip[of xs "[]"] by simp

lemma after_end_close:
  assumes "all_followed after_end xs" "\<forall>ev\<in>set ys. \<not> read_failed ev \<and> \<not> decoder_call ev"
  shows "all_followed after_end (xs @ ys)"
proof (rule all_followed_cross)
  show "all_followed after_end xs" by (rule assms(1))
  show "all_followed after_end ys" using assms(2) by (intro after_end_none) blast
  show "\<forall>ev\<in>set xs. \<forall>a. after_end ev a \<longrightarrow> after_end ev (a @ ys)"
    using assms(2) by (auto simp: after_end_def list_all_iff)
qed

lemma transcode_loop_after_end:
  "all_followed after_end (fst (snd (transcode_loop e vsi m rds decs encs w)))"
proof (induction rds arbitrary: decs encs w)
  case Nil
  show ?case by (simp add: after_end_def)
next
  case (Cons a rds)
  obtain ret pkt where a: "a = (ret, pkt)" by (cases a)
  let ?sr = "fst (next_ret (send_packet_rets w))"
  let ?w1 = "w\<lparr>send_packet_rets := snd (next_ret (send_packet_rets w))\<rparr>"
  let ?dd = "dec_drain e vsi (nat (m ! vsi)) ?sr decs encs ?w1"
  let ?w2 = "w\<lparr>write_frame_rets := snd (next_ret (write_frame_rets w))\<rparr>"
  let ?rc = "transcode_loop e vsi m rds (fst (snd (snd ?dd))) (fst (snd (snd (snd ?dd))))
               (snd (snd (snd (snd ?dd))))"
  let ?TL = "transcode_loop e vsi m ((ret, pkt) # rds) decs encs w"
  note cases = transcode_loop_Cons_cases[where e=e and vsi=vsi and m=m and ret=ret and pkt=pkt
            and rest=rds and decs=decs and encs=encs and w=w]
  note IHv = Cons.IH[of "fst (snd (snd ?dd))" "fst (snd (snd (snd ?dd)))" "snd (snd (snd (snd ?dd)))"]
  note IHs = Cons.IH[of decs encs w]
  note IHc = Cons.IH[of decs encs ?w2]
  note dn = dec_drain_no_read_failed[of _ e vsi "nat (m ! vsi)" ?sr decs encs ?w1]
  have "all_followed after_end (fst (snd ?TL))"
  proof (cases rule: cases)
    case read_fail
    then show ?thesis by (simp add: after_end_def)
  next
    case send_fail
    then show ?thesis by (intro after_end_none) simp
  next
    case dec_cleanup
    then show ?thesis using dn by (intro after_end_none) auto
  next
    case video
    from video(5) have E: "fst (snd ?TL) =
        ([av_read_frame ret, avcodec_send_packet (Some pkt) ?sr] @ fst (snd ?dd)) @ fst (snd ?rc)"
      by (simp add: Let_def)
    show ?thesis unfolding E using video(1) dn IHv by (intro after_end_skip) auto
  next
    case skipped
    from skipped(4) have E: "fst (snd ?TL) = [av_read_frame ret] @ fst (snd (transcode_loop e vsi m rds decs encs w))"
      by (simp add: Let_def)
    show ?thesis unfolding E using skipped(1) IHs by (intro after_end_skip) auto
  next
    case write_fail
    then show ?thesis by (intro after_end_none) simp
  next
    case copied
    from copied(5) have E: "fst (snd ?TL) =
       [av_read_frame ret, av_interleaved_write_frame (remux_packet e m pkt) (fst (next_ret (write_frame_rets w)))]
       @ fst (snd (transcode_loop e vsi m rds decs encs ?w2))"
      by (simp add: Let_def)
    show ?thesis unfolding E using copied(1) IHc by (intro after_end_skip) auto
  qed
  then show ?case unfolding a .
qed

lemma setup_event_plain:
  assumes "setup_event ev"
  shows "\<not> packet_accepted ev" "\<not> is_frame ev" "\<not> frame_accepted ev" "sent_frame ev = None"
    "\<not> frame_request ev" "\<not> decoder_call ev" "\<not> read_failed ev"
  using assms by (cases ev; simp)+

lemma flush_encoder_plain:
  assumes "ev \<in> set (flush_encoder e k encs w)"
  shows "\<not> packet_accepted ev" "\<not> is_frame ev" "\<not> frame_accepted ev" "sent_frame ev = None"
    "\<not> frame_request ev" "\<not> decoder_call ev" "\<not> read_failed ev"
  using flush_encoder_events[OF assms] by auto

lemma after_loop_plain:
  "\<forall>ev\<in>set (avcodec_send_frame None sr # flush_encoder e k encs w @
                 av_write_trailer # cleanup e out).
     \<not> packet_accepted ev \<and> \<not> is_frame ev \<and> \<not> frame_accepted ev \<and> sent_frame ev = None \<and>
     \<not> frame_request ev \<and> \<not> decoder_call ev \<and> \<not> read_failed ev"
proof
  fix ev
  assume "ev \<in> set (avcodec_send_frame None sr # flush_encoder e k encs w @
                         av_write_trailer # cleanup e out)"
  then consider "ev = avcodec_send_frame None sr" | "ev \<in> set (flush_encoder e k encs w)"
    | "ev = av_write_trailer" | "ev \<in> set (cleanup e out)" by auto
  then show "\<not> packet_accepted ev \<and> \<not> is_frame ev \<and> \<not> frame_accepted ev \<and> sent_frame ev = None \<and>
    \<not> frame_request ev \<and> \<not> decoder_call ev \<and> \<not> read_failed ev"
  proof cases
    case 1
    then show ?thesis by simp
  next
    case 2
    from flush_encoder_plain[OF this] show ?thesis by simp
  next
    case 3
    then show ?thesis by simp
  next
    case 4
    from setup_event_plain[OF cleanup_setup[OF this]] show ?thesis by simp
  qed
qed

lemma frame_step_quiet:
  assumes "\<forall>ev\<in>set xs. \<not> packet_accepted ev \<and> \<not> is_frame ev \<and> \<not> frame_accepted ev"
  shows "all_followed frame_step xs"
  using assms by (intro all_followed_trivial) (simp add: frame_step_def)

lemma frame_step_append:
  "all_followed frame_step xs \<Longrightarrow> all_followed frame_step ys \<Longrightarrow>
     all_followed frame_step (xs @ ys)"
  using frame_step_ext by (intro all_followed_append) auto

lemma Entry_steps:
  assumes "m_reencode j"
  shows "all_followed frame_step (Entry j e)"
  using assms
proof (cases rule: Entry_transcode_elim[where e=e])
  case setup_failed
  then show ?thesis using setup_event_plain(1,2,3) by (intro frame_step_quiet) blast
next
  case (aborted pre)
  let ?TL = "transcode_loop e (nat (find_video_stream 0 (streams e))) (map int [0..<length (streams e)])
               (reads e) (decoded e) (encoded e) (answers e)"
  let ?out = "make_output_path (m_input j) (m_outFormat j)"
  have p: "all_followed frame_step pre"
    using aborted(2) setup_event_plain(1,2,3) by (intro frame_step_quiet) blast
  have c: "all_followed frame_step (cleanup e ?out)"
    using cleanup_setup[of _ e ?out] setup_event_plain(1,2,3) by (intro frame_step_quiet) blast
  have l: "all_followed frame_step (fst (snd ?TL))" by (rule transcode_loop_steps)
  have "all_followed frame_step (pre @ fst (snd ?TL) @ cleanup e ?out)"
    by (intro frame_step_append p l c)
  then show ?thesis unfolding aborted(1) .
next
  case (finished pre sr)
  let ?m = "map int [0..<length (streams e)]"
  let ?vsi = "nat (find_video_stream 0 (streams e))"
  let ?TL = "transcode_loop e ?vsi ?m (reads e) (decoded e) (encoded e) (answers e)"
  let ?fl = "flush_encoder e (nat (?m ! ?vsi)) (fst (snd (snd (snd ?TL))))
           ((snd (snd (snd (snd ?TL))))\<lparr>send_frame_rets :=
               snd (next_ret (send_frame_rets (snd (snd (snd (snd ?TL))))))\<rparr>)"
  let ?out = "make_output_path (m_input j) (m_outFormat j)"
  let ?S = "avcodec_send_frame None sr # ?fl @ av_write_trailer # cleanup e ?out"
  have p: "all_followed frame_step pre"
    using finished(2) setup_event_plain(1,2,3) by (intro frame_step_quiet) blast
  have c: "all_followed frame_step ?S"
    using after_loop_plain[of sr e "nat (?m ! ?vsi)" _ _ ?out]
    by (intro frame_step_quiet) blast
  have l: "all_followed frame_step (fst (snd ?TL))" by (rule transcode_loop_steps)
  have "all_followed frame_step (pre @ fst (snd ?TL) @ ?S)"
    by (rule frame_step_append[OF p frame_step_append[OF l c]])
  then show ?thesis unfolding finished(1) .
qed

lemma Entry_after_end:
  assumes "m_reencode j"
  shows "all_followed after_end (Entry j e)"
  using assms
proof (cases rule: Entry_transcode_elim[where e=e])
  case setup_failed
  then show ?thesis using setup_event_plain(7) by (intro after_end_none) blast
next
  case (aborted pre)
  let ?TL = "transcode_loop e (nat (find_video_stream 0 (streams e))) (map int [0..<length (streams e)])
               (reads e) (decoded e) (encoded e) (answers e)"
  let ?out = "make_output_path (m_input j) (m_outFormat j)"
  have p: "\<forall>ev\<in>set pre. \<not> read_failed ev" using aborted(2) setup_event_plain(7) by blast
  have c: "\<forall>ev\<in>set (cleanup e ?out). \<not> read_failed ev \<and> \<not> decoder_call ev"
    using cleanup_setup[of _ e ?out] setup_event_plain(6,7) by blast
  have "all_followed after_end (fst (snd ?TL) @ cleanup e ?out)"
    using transcode_loop_after_end c by (rule after_end_close)
  with p have "all_followed after_end (pre @ fst (snd ?TL) @ cleanup e ?out)"
    by (rule after_end_skip)
  then show ?thesis unfolding aborted(1) .
next
  case (finished pre sr)
  let ?m = "map int [0..<length (streams e)]"
  let ?vsi = "nat (find_video_stream 0 (streams e))"
  let ?TL = "transcode_loop e ?vsi ?m (reads e) (decoded e) (encoded e) (answers e)"
  let ?fl = "flush_encoder e (nat (?m ! ?vsi)) (fst (snd (snd (snd ?TL))))
           ((snd (snd (snd (snd ?TL))))\<lparr>send_frame_rets :=
               snd (next_ret (send_frame_rets (snd (snd (snd (snd ?TL))))))\<rparr>)"
  let ?out = "make_output_path (m_input j) (m_outFormat j)"
  let ?S = "avcodec_send_frame None sr # ?fl @ av_write_trailer # cleanup e ?out"
  have p: "\<forall>ev\<in>set pre. \<not> read_failed ev" using finished(2) setup_event_plain(7) by blast
  have c: "\<forall>ev\<in>set ?S. \<not> read_failed ev \<and> \<not> decoder_call ev"
    using after_loop_plain[of sr e "nat (?m ! ?vsi)" _ _ ?out] by blast
  have "all_followed after_end (fst (snd ?TL) @ ?S)"
    using transcode_loop_after_end c by (rule after_end_close)
  with p have "all_followed after_end (pre @ fst (snd ?TL) @ ?S)"
    by (rule after_end_skip)
  then show ?thesis unfolding finished(1) .
qed

lemma Entry_sent_frames:
  assumes "m_reencode j"
  shows "List.map_filter sent_frame (Entry j e) =
     map (\<lambda>(r, f). \<lparr>frame_pts = frame_pts f\<rparr>)
       (filter (\<lambda>(r, f). 0 \<le> r)
          (take (length (filter frame_request (Entry j e))) (decoded e)))"
  using assms
proof (cases rule: Entry_transcode_elim[where e=e])
  case setup_failed
  then have "\<forall>ev\<in>set (Entry j e). sent_frame ev = None \<and> \<not> frame_request ev"
    using setup_event_plain(4,5) by blast
  then have "List.map_filter sent_frame (Entry j e) = []" "filter frame_request (Entry j e) = []"
    by (auto intro!: map_filter_none filter_none)
  then show ?thesis by simp
next
  case (aborted pre)
  let ?out = "make_output_path (m_input j) (m_outFormat j)"
  have p: "List.map_filter sent_frame pre = []" "filter frame_request pre = []"
    using aborted(2) setup_event_plain(4,5) by (auto intro!: map_filter_none filter_none)
  have c: "List.map_filter sent_frame (cleanup e ?out) = []" "filter frame_request (cleanup e ?out) = []"
    using cleanup_setup[of _ e ?out] setup_event_plain(4,5)
    by (auto intro!: map_filter_none filter_none)
  show ?thesis unfolding aborted(1)
    using transcode_loop_consumed[of e "nat (find_video_stream 0 (streams e))"
            "map int [0..<length (streams e)]" "reads e" "decoded e" "encoded e" "answers e"]
    by (simp add: map_filter_append p c)
next
  case (finished pre sr)
  let ?out = "make_output_path (m_input j) (m_outFormat j)"
  let ?m = "map int [0..<length (streams e)]"
  let ?vsi = "nat (find_video_stream 0 (streams e))"
  let ?TL = "transcode_loop e ?vsi ?m (reads e) (decoded e) (encoded e) (answers e)"
  let ?fl = "flush_encoder e (nat (?m ! ?vsi)) (fst (snd (snd (snd ?TL))))
           ((snd (snd (snd (snd ?TL))))\<lparr>send_frame_rets :=
               snd (next_ret (send_frame_rets (snd (snd (snd (snd ?TL))))))\<rparr>)"
  let ?S = "avcodec_send_frame None sr # ?fl @ av_write_trailer # cleanup e ?out"
  have p: "List.map_filter sent_frame pre = []" "filter frame_request pre = []"
    using finished(2) setup_event_plain(4,5) by (auto intro!: map_filter_none filter_none)
  have c: "List.map_filter sent_frame ?S = []" "filter frame_request ?S = []"
  proof -
    note al = after_loop_plain[of sr e "nat (?m ! ?vsi)" "fst (snd (snd (snd ?TL)))"
        "(snd (snd (snd (snd ?TL))))\<lparr>send_frame_rets :=
               snd (next_ret (send_frame_rets (snd (snd (snd (snd ?TL))))))\<rparr>" ?out]
    show "List.map_filter sent_frame ?S = []" by (rule map_filter_none) (use al in blast)
    show "filter frame_request ?S = []" by (rule filter_none) (use al in blast)
  qed
  have E: "Entry j e = pre @ fst (snd ?TL) @ ?S" using finished(1) by simp
  show ?thesis unfolding E
    using transcode_loop_consumed[of e ?vsi ?m "reads e" "decoded e" "encoded e" "answers e"]
    by (simp only: map_filter_append filter_append p c append_Nil append_Nil2 length_append
          list.size add_0_right add_0)
qed

text \<open>
  The condition of the frame loop reads \<^verbatim>\<open>ret\<close>, which the loop over the encoder's
  packets has just left at \<^verbatim>\<open>AVERROR(EAGAIN)\<close> or \<^verbatim>\<open>AVERROR_EOF\<close>. So after a
  frame has been processed the frame loop ends, whatever the decoder has ready.
\<close>

lemma frame_loop_single_pass:
  assumes "0 \<le> ret" and "0 \<le> r"
  shows "dec_drain e vsi k ret ((r, f) # decs) encs w =
           (case process_frame e vsi k f encs w of
              (res, evs, encs', w') \<Rightarrow> (res, avcodec_receive_frame r # evs, decs, encs', w'))"
proof (cases "fst (process_frame e vsi k f encs w)")
  case None
  with assms show ?thesis by (auto simp: split_beta AVERROR_EAGAIN_def AVERROR_EOF_def)
next
  case (Some ret')
  from process_frame_result[OF Some] have neg: "ret' < 0" by simp
  have stop: "dec_drain e vsi k ret' decs encs' w' = (Some ret', [], decs, encs', w')" for encs' w'
    using neg by (cases decs) auto
  from Some assms show ?thesis
    by (auto simp: split_beta stop AVERROR_EAGAIN_def AVERROR_EOF_def)
qed

section \<open>What follows a poll\<close>

lemma starts_next_iff:
  "starts_next post = (\<exists>ev rest. post = ev # rest \<and> (is_read ev \<or> frame_request ev))"
  by (cases post) (simp_all add: starts_next_def)

lemma poll_step_ext: "poll_step ev a \<Longrightarrow> poll_step ev (a @ b)"
  unfolding poll_step_def starts_next_iff by auto

lemma poll_step_append:
  "all_followed poll_step xs \<Longrightarrow> all_followed poll_step ys \<Longrightarrow>
     all_followed poll_step (xs @ ys)"
  using poll_step_ext by (intro all_followed_append) auto

lemma poll_step_none:
  "TestDestroy False \<notin> set xs \<Longrightarrow> all_followed poll_step xs"
  by (intro all_followed_trivial) (auto simp: poll_step_def)

lemma poll_step_plain [simp]:
  "poll_step (avcodec_receive_frame r) zs" "poll_step (av_read_frame x) zs"
  "poll_step (avcodec_send_packet po y) zs" "poll_step (av_interleaved_write_frame q y) zs"
  "poll_step (Log s) zs" "poll_step (TestDestroy True) zs"
  by (simp_all add: poll_step_def)

lemma poll_step_last:
  assumes "TestDestroy False \<notin> set xs" "starts_next ys" "all_followed poll_step ys"
  shows "all_followed poll_step (xs @ TestDestroy False # ys)"
proof -
  have "all_followed poll_step (TestDestroy False # ys)"
    using assms(2,3) by (simp add: poll_step_def)
  with poll_step_none[OF assms(1)] show ?thesis by (rule poll_step_append)
qed

lemma process_frame_poll_last:
  "(fst (process_frame e vsi k f encs w) = None \<longrightarrow>
      TestDestroy False \<notin> set (fst (snd (process_frame e vsi k f encs w)))) \<and>
   (fst (process_frame e vsi k f encs w) \<noteq> None \<longrightarrow>
      (\<exists>xs. fst (snd (process_frame e vsi k f encs w)) = xs @ [TestDestroy False] \<and>
            TestDestroy False \<notin> set xs))"
proof -
  let ?sr = "fst (next_ret (send_frame_rets w))"
  let ?w1 = "w\<lparr>send_frame_rets := snd (next_ret (send_frame_rets w))\<rparr>"
  let ?ed = "enc_drain e k ?sr encs ?w1"
  let ?p = "progress e (frame_pts f) (time_base (streams e ! vsi))"
  have q: "TestDestroy False \<notin> set (fst (snd ?ed))" "TestDestroy False \<notin> set ?p"
    using enc_drain_events[of "TestDestroy False" e k ?sr encs ?w1]
    by (auto simp: progress_def)
  show ?thesis
  proof (cases "fst (process_frame e vsi k f encs w)")
    case None
    then show ?thesis using q
      by (auto simp: process_frame_def Let_def split_beta split: if_splits option.splits)
  next
    case (Some r)
    then have E: "fst (snd (process_frame e vsi k f encs w)) =
        ([sws_scale, avcodec_send_frame (Some \<lparr>frame_pts = frame_pts f\<rparr>) ?sr] @ fst (snd ?ed) @ ?p)
        @ [TestDestroy False]"
      by (auto simp: process_frame_def Let_def split_beta split: if_splits option.splits)
    have n: "TestDestroy False \<notin> set ([sws_scale, avcodec_send_frame (Some \<lparr>frame_pts = frame_pts f\<rparr>) ?sr]
        @ fst (snd ?ed) @ ?p)" using q by simp
    have "\<exists>xs. fst (snd (process_frame e vsi k f encs w)) = xs @ [TestDestroy False] \<and>
            TestDestroy False \<notin> set xs"
      unfolding E using n by (intro exI[of _ "[sws_scale, avcodec_send_frame (Some \<lparr>frame_pts = frame_pts f\<rparr>) ?sr]
        @ fst (snd ?ed) @ ?p"]) simp
    with Some show ?thesis by simp
  qed
qed

lemma dec_drain_first:
  "fst (snd (dec_drain e vsi k ret decs encs w)) = [] \<or>
   (\<exists>r ys. fst (snd (dec_drain e vsi k ret decs encs w)) = avcodec_receive_frame r # ys)"
proof (cases "0 \<le> ret")
  case True
  from dec_drain_head[OF True, of e vsi k decs encs w] show ?thesis by blast
next
  case False
  then have "fst (snd (dec_drain e vsi k ret decs encs w)) = []" by (cases decs) auto
  then show ?thesis ..
qed

lemma dec_drain_empty:
  "fst (snd (dec_drain e vsi k ret decs encs w)) = [] \<Longrightarrow>
     fst (dec_drain e vsi k ret decs encs w) \<noteq> None"
proof (cases "0 \<le> ret")
  case True
  assume "fst (snd (dec_drain e vsi k ret decs encs w)) = []"
  with dec_drain_head[OF True, of e vsi k decs encs w] show ?thesis by simp
next
  case False
  then show ?thesis by (cases decs) auto
qed

lemma dec_drain_polls:
  assumes "all_followed poll_step ys"
  shows "(fst (dec_drain e vsi k ret decs encs w) \<noteq> None \<longrightarrow> starts_next ys) \<Longrightarrow>
         all_followed poll_step (fst (snd (dec_drain e vsi k ret decs encs w)) @ ys)"
proof (induction decs arbitrary: ret encs w)
  case Nil
  then show ?case using assms by simp
next
  case (Cons a decs)
  obtain r f where a: "a = (r, f)" by (cases a)
  let ?pf = "process_frame e vsi k f encs w"
  note pl = process_frame_poll_last[of e vsi k f encs w]
  show ?case
  proof (cases "0 \<le> ret \<and> 0 \<le> r")
    case False
    then show ?thesis using assms by (auto simp: a)
  next
    case True
    then have r: "r \<noteq> AVERROR_EAGAIN" "r \<noteq> AVERROR_EOF" "\<not> r < 0" by auto
    show ?thesis
    proof (cases "fst ?pf")
      case None
      then have E: "fst (snd (dec_drain e vsi k ret (a # decs) encs w)) =
          avcodec_receive_frame r # fst (snd ?pf)"
        using True r by (simp add: a split_beta)
      from None pl have "all_followed poll_step (fst (snd ?pf))" by (intro poll_step_none) simp
      with assms have "all_followed poll_step (fst (snd ?pf) @ ys)" by (rule poll_step_append[rotated])
      then show ?thesis unfolding E by simp
    next
      case (Some ret')
      let ?rec = "dec_drain e vsi k ret' decs (fst (snd (snd ?pf))) (snd (snd (snd ?pf)))"
      from Some have E: "fst (snd (dec_drain e vsi k ret (a # decs) encs w)) =
           avcodec_receive_frame r # fst (snd ?pf) @ fst (snd ?rec)"
         and F: "fst (dec_drain e vsi k ret (a # decs) encs w) = fst ?rec"
        using True r by (simp_all add: a split_beta)
      from Cons.prems F have c: "fst ?rec \<noteq> None \<longrightarrow> starts_next ys" by simp
      note IH = Cons.IH[of ret' "fst (snd (snd ?pf))" "snd (snd (snd ?pf))", OF c]
      from Some pl obtain xs where x: "fst (snd ?pf) = xs @ [TestDestroy False]"
        "TestDestroy False \<notin> set xs" by auto
      have nx: "starts_next (fst (snd ?rec) @ ys)"
      proof (cases "fst (snd ?rec) = []")
        case True
        from dec_drain_empty[OF this] c True show ?thesis by simp
      next
        case False
        with dec_drain_first[of e vsi k ret' decs "fst (snd (snd ?pf))" "snd (snd (snd ?pf))"]
        show ?thesis unfolding starts_next_iff by auto
      qed
      have "all_followed poll_step (xs @ TestDestroy False # fst (snd ?rec) @ ys)"
        using x(2) nx IH by (rule poll_step_last)
      then show ?thesis unfolding E x(1) by simp
    qed
  qed
qed

lemma transcode_loop_first:
  "\<exists>r ys. fst (snd (transcode_loop e vsi m rds decs encs w)) = av_read_frame r # ys"
proof (cases rds)
  case Nil
  then show ?thesis by simp
next
  case (Cons a rest)
  obtain ret pkt where a: "a = (ret, pkt)" by (cases a)
  show ?thesis unfolding Cons a
    by (cases rule: transcode_loop_Cons_cases[where e=e and vsi=vsi and m=m and ret=ret and pkt=pkt
            and rest=rest and decs=decs and encs=encs and w=w]) (simp_all add: Let_def)
qed

lemma transcode_loop_polls:
  "all_followed poll_step (fst (snd (transcode_loop e vsi m rds decs encs w)))"
proof (induction rds arbitrary: decs encs w)
  case Nil
  show ?case by simp
next
  case (Cons a rds)
  obtain ret pkt where a: "a = (ret, pkt)" by (cases a)
  let ?sr = "fst (next_ret (send_packet_rets w))"
  let ?w1 = "w\<lparr>send_packet_rets := snd (next_ret (send_packet_rets w))\<rparr>"
  let ?dd = "dec_drain e vsi (nat (m ! vsi)) ?sr decs encs ?w1"
  let ?w2 = "w\<lparr>write_frame_rets := snd (next_ret (write_frame_rets w))\<rparr>"
  let ?rc = "transcode_loop e vsi m rds (fst (snd (snd ?dd))) (fst (snd (snd (snd ?dd))))
               (snd (snd (snd (snd ?dd))))"
  let ?TL = "transcode_loop e vsi m ((ret, pkt) # rds) decs encs w"
  note cases = transcode_loop_Cons_cases[where e=e and vsi=vsi and m=m and ret=ret and pkt=pkt
            and rest=rds and decs=decs and encs=encs and w=w]
  note IHv = Cons.IH[of "fst (snd (snd ?dd))" "fst (snd (snd (snd ?dd)))" "snd (snd (snd (snd ?dd)))"]
  note IHs = Cons.IH[of decs encs w]
  note IHc = Cons.IH[of decs encs ?w2]
  have "all_followed poll_step (fst (snd ?TL))"
  proof (cases rule: cases)
    case read_fail
    then show ?thesis by simp
  next
    case send_fail
    then show ?thesis by simp
  next
    case dec_cleanup
    have "all_followed poll_step (fst (snd ?dd) @ [])"
      using dec_cleanup(4) by (intro dec_drain_polls) simp_all
    with dec_cleanup(6) show ?thesis by simp
  next
    case video
    from video(5) have E: "fst (snd ?TL) =
        av_read_frame ret # avcodec_send_packet (Some pkt) ?sr # fst (snd ?dd) @ fst (snd ?rc)"
      by (simp add: Let_def)
    from transcode_loop_first[of e vsi m rds "fst (snd (snd ?dd))" "fst (snd (snd (snd ?dd)))"
          "snd (snd (snd (snd ?dd)))"]
    have "starts_next (fst (snd ?rc))" unfolding starts_next_iff by auto
    with IHv have "all_followed poll_step (fst (snd ?dd) @ fst (snd ?rc))"
      by (intro dec_drain_polls) simp_all
    then show ?thesis unfolding E by simp
  next
    case skipped
    then show ?thesis using IHs by (simp add: Let_def)
  next
    case write_fail
    then show ?thesis by simp
  next
    case copied
    then show ?thesis using IHc by (simp add: Let_def)
  qed
  then show ?case unfolding a .
qed

lemma remux_loop_first:
  "\<exists>r ys. remux_loop e m rds w = av_read_frame r # ys"
proof (cases rds)
  case Nil
  then show ?thesis by simp
next
  case (Cons a rest)
  obtain ret pkt where a: "a = (ret, pkt)" by (cases a)
  show ?thesis unfolding Cons a
    by (cases rule: remux_loop_Cons_cases[where e=e and m=m and ret=ret and pkt=pkt
            and rest=rest and w=w]) simp_all
qed

lemma remux_loop_polls:
  "all_followed poll_step (remux_loop e m rds w)"
proof (induction rds arbitrary: w)
  case Nil
  show ?case by simp
next
  case (Cons a rds)
  obtain ret pkt where a: "a = (ret, pkt)" by (cases a)
  let ?w' = "w\<lparr>write_frame_rets := snd (next_ret (write_frame_rets w)),
               test_destroy := snd (next_poll (test_destroy w))\<rparr>"
  let ?pkt' = "remux_packet e m pkt"
  let ?p = "progress e (pts (written_pkt e ?pkt')) (out_time_base e (stream_index ?pkt'))"
  note IHs = Cons.IH[of w]
  note IHw = Cons.IH[of ?w']
  have np: "TestDestroy False \<notin> set ?p" by (simp add: progress_def)
  have "all_followed poll_step (remux_loop e m ((ret, pkt) # rds) w)"
  proof (cases rule: remux_loop_Cons_cases[where e=e and m=m and ret=ret and pkt=pkt and rest=rds and w=w])
    case read_fail
    then show ?thesis by simp
  next
    case skipped
    then show ?thesis using IHs by simp
  next
    case write_fail
    then show ?thesis by simp
  next
    case cancelled
    have "all_followed poll_step (?p @ [TestDestroy True, Log ''Conversion cancelled''])"
      using np by (intro poll_step_none) simp
    with cancelled(4) show ?thesis by simp
  next
    case written
    from remux_loop_first[of e m rds ?w'] have "starts_next (remux_loop e m rds ?w')"
      unfolding starts_next_iff by auto
    with np IHw have "all_followed poll_step (?p @ TestDestroy False # remux_loop e m rds ?w')"
      by (intro poll_step_last)
    with written(4) show ?thesis by simp
  qed
  then show ?case unfolding a .
qed

lemma Entry_polls_next:
  "all_followed poll_step (Entry j e)"
proof (cases "m_reencode j")
  case False
  from Entry_remux_cases[OF False, of e] show ?thesis
  proof
    assume "\<forall>ev\<in>set (Entry j e). setup_event ev \<and> (\<forall>r. ev = avformat_write_header r \<longrightarrow> r < 0)"
    then have "TestDestroy False \<notin> set (Entry j e)" using setup_event_props(7) by blast
    then show ?thesis by (rule poll_step_none)
  next
    let ?RL = "remux_loop e (map int [0..<length (streams e)]) (reads e) (answers e)"
    let ?out = "make_output_path (m_input j) (m_outFormat j)"
    assume "\<exists>pre. Entry j e = pre @ ?RL @ finalize e ?out \<and> (\<forall>ev\<in>set pre. setup_event ev)"
    then obtain pre where E: "Entry j e = pre @ ?RL @ finalize e ?out"
      and pre: "\<forall>ev\<in>set pre. setup_event ev" by blast
    have p: "all_followed poll_step pre"
      using pre setup_event_props(7) by (intro poll_step_none) blast
    have c: "all_followed poll_step (finalize e ?out)"
      using finalize_events[of "TestDestroy False" e ?out] by (intro poll_step_none) auto
    show ?thesis unfolding E by (intro poll_step_append p c remux_loop_polls)
  qed
next
  case True
  then show ?thesis
  proof (cases rule: Entry_transcode_elim[where e=e])
    case setup_failed
    then have "TestDestroy False \<notin> set (Entry j e)" using setup_event_props(7) by blast
    then show ?thesis by (rule poll_step_none)
  next
    case (aborted pre)
    let ?out = "make_output_path (m_input j) (m_outFormat j)"
    have p: "all_followed poll_step pre"
      using aborted(2) setup_event_props(7) by (intro poll_step_none) blast
    have c: "all_followed poll_step (cleanup e ?out)"
      using cleanup_setup[of "TestDestroy False" e ?out] by (intro poll_step_none) auto
    show ?thesis unfolding aborted(1) by (intro poll_step_append p c transcode_loop_polls)
  next
    case (finished pre sr)
    let ?m = "map int [0..<length (streams e)]"
    let ?vsi = "nat (find_video_stream 0 (streams e))"
    let ?TL = "transcode_loop e ?vsi ?m (reads e) (decoded e) (encoded e) (answers e)"
    let ?fl = "flush_encoder e (nat (?m ! ?vsi)) (fst (snd (snd (snd ?TL))))
           ((snd (snd (snd (snd ?TL))))\<lparr>send_frame_rets :=
               snd (next_ret (send_frame_rets (snd (snd (snd (snd ?TL))))))\<rparr>)"
    let ?out = "make_output_path (m_input j) (m_outFormat j)"
    let ?S = "avcodec_send_frame None sr # ?fl @ av_write_trailer # cleanup e ?out"
    have p: "all_followed poll_step pre"
      using finished(2) setup_event_props(7) by (intro poll_step_none) blast
    have "TestDestroy False \<notin> set ?S"
      using cleanup_setup[of "TestDestroy False" e ?out]
        flush_encoder_events[of "TestDestroy False" e "nat (?m ! ?vsi)"] by auto
    then have c: "all_followed poll_step ?S" by (rule poll_step_none)
    have "all_followed poll_step (pre @ fst (snd ?TL) @ ?S)"
      by (rule poll_step_append[OF p poll_step_append[OF transcode_loop_polls c]])
    then show ?thesis unfolding finished(1) .
  qed
qed

section \<open>Evaluating a concrete job\<close>

lemmas job_defs =
  Entry_def remux_def transcode_def transcode_run_def cleanup_def finalize_def process_frame_def
  remux_job_def transcode_job_def env0_def video_stream_def audio_stream_def make_output_path_def
  AVERROR_EOF_def AVERROR_EAGAIN_def AVERROR_UNKNOWN_def AV_NOPTS_VALUE_def
  packet_def blank_packet_def dropped_def remux_packet_def rescale_encoded_def next_ret_def next_poll_def
  progress_def clamp_pct_def Let_def
  transcode_loop.simps remux_loop.simps

lemma floor_rat_numeral [simp]:
  "\<lfloor>(numeral a :: rat) / numeral b\<rfloor> = numeral a div numeral b"
  "\<lfloor>(1 :: rat) / numeral b\<rfloor> = 1 div numeral b"
  using floor_divide_of_int_eq[of "numeral a" "numeral b", where ?'a = rat]
        floor_divide_of_int_eq[of 1 "numeral b", where ?'a = rat]
  by simp_all

lemmas library_defs =
  spec_rescale_q_rnd_def spec_rescale_q_def q2rat_def round_half_away_def clamp_int64_def
  exact_progress_def

text \<open>The two paths on \<open>cancel_env\<close>, where the first poll sees the cancellation.\<close>

lemma cancel_remux_trace:
  "Entry remux_job cancel_env =
     [Log ''Starting remux (stream-copy) conversion...'', avformat_open_input 0,
      avformat_find_stream_info 0, avformat_alloc_output_context2 True,
      avformat_new_stream True, avcodec_parameters_copy 0,
      avformat_new_stream True, avcodec_parameters_copy 0,
      avio_open 0, avformat_write_header 0,
      av_read_frame 0,
      av_interleaved_write_frame
        \<lparr>stream_index = 0, pts = 0, dts = 0, duration = 1, pos = - 1, data = [0]\<rparr> 0,
      TestDestroy True, Log ''Conversion cancelled'',
      av_write_trailer, avio_closep, avformat_close_input, avformat_free_context,
      Log ''Remux finished. Output: /videos/clip_converted.mkv'', SetRunning False]"
  by (simp add: cancel_env_def job_defs library_defs)

lemma cancel_transcode_trace:
  "Entry transcode_job cancel_env =
     [Log ''Starting encoding conversion...'', avformat_open_input 0,
      avformat_find_stream_info 0, avcodec_find_decoder True, avcodec_open2_dec 0,
      avformat_alloc_output_context2 True, avformat_new_stream True,
      avformat_new_stream True, avcodec_parameters_copy 0, avcodec_find_encoder True,
      avcodec_open2_enc 0, avio_open 0, avformat_write_header 0,
      av_read_frame 0, avcodec_send_packet (Some (packet 0 0)) 0,
      avcodec_receive_frame 0, sws_scale, avcodec_send_frame (Some \<lparr>frame_pts = 0\<rparr>) 0,
      avcodec_receive_packet AVERROR_EAGAIN, PostProgress 0,
      TestDestroy True, Log ''Conversion cancelled'',
      avcodec_free_context_dec, avcodec_free_context_enc, avio_closep,
      avformat_free_context, avformat_close_input, SetRunning False,
      Log ''Conversion finished. Output: /videos/clip_converted.mp4'']"
  by (simp add: cancel_env_def job_defs library_defs)

text \<open>The transcode path on \<open>pick_env\<close>.\<close>

lemma pick_trace:
  "Entry transcode_job pick_env =
     [Log ''Starting encoding conversion...'', avformat_open_input 0,
      avformat_find_stream_info 0, avcodec_find_decoder True, avcodec_open2_dec 0,
      avformat_alloc_output_context2 True, avformat_new_stream True, avcodec_parameters_copy 0,
      avformat_new_stream True, avcodec_find_encoder True,
      avcodec_open2_enc 0, avio_open 0, avformat_write_header 0,
      av_read_frame 0,
      av_interleaved_write_frame
        \<lparr>stream_index = 0, pts = 0, dts = 0, duration = 0, pos = - 1, data = [0]\<rparr> 0,
      av_read_frame 0, avcodec_send_packet (Some (packet 1 0)) 0,
      avcodec_receive_frame 0, sws_scale, avcodec_send_frame (Some \<lparr>frame_pts = 0\<rparr>) 0,
      avcodec_receive_packet AVERROR_EAGAIN, PostProgress 0, TestDestroy False,
      av_read_frame 0,
      av_interleaved_write_frame
        \<lparr>stream_index = 0, pts = 0, dts = 0, duration = 0, pos = - 1, data = [0]\<rparr> 0,
      av_read_frame AVERROR_EOF,
      avcodec_send_frame None 0, avcodec_receive_packet AVERROR_EAGAIN,
      av_write_trailer,
      avcodec_free_context_dec, avcodec_free_context_enc, avio_closep,
      avformat_free_context, avformat_close_input, SetRunning False,
      Log ''Conversion finished. Output: /videos/clip_converted.mp4'']"
  by (simp add: pick_env_def job_defs library_defs)

text \<open>The transcode path on \<open>encode_env\<close>.\<close>

lemma encode_trace:
  "Entry transcode_job encode_env =
     [Log ''Starting encoding conversion...'', avformat_open_input 0,
      avformat_find_stream_info 0, avcodec_find_decoder True, avcodec_open2_dec 0,
      avformat_alloc_output_context2 True, avformat_new_stream True,
      avformat_new_stream True, avcodec_parameters_copy 0, avcodec_find_encoder True,
      avcodec_open2_enc 0, avio_open 0, avformat_write_header 0,
      av_read_frame 0, avcodec_send_packet (Some (packet 0 0)) 0,
      avcodec_receive_frame 0, sws_scale, avcodec_send_frame (Some \<lparr>frame_pts = 0\<rparr>) 0,
      avcodec_receive_packet 0, av_interleaved_write_frame (packet 0 5) 0,
      avcodec_receive_packet AVERROR_EAGAIN, PostProgress 0, TestDestroy False,
      av_read_frame AVERROR_EOF,
      avcodec_send_frame None 0, avcodec_receive_packet AVERROR_EAGAIN,
      av_write_trailer,
      avcodec_free_context_dec, avcodec_free_context_enc, avio_closep,
      avformat_free_context, avformat_close_input, SetRunning False,
      Log ''Conversion finished. Output: /videos/clip_converted.mp4'']"
  by (simp add: encode_env_def job_defs library_defs)

text \<open>
  Claim C1, as stated, fails: the transcode path never signals end of input to the
  decoder. On \<open>eos_env\<close> the decoder has answered "no frame ready" to the only video
  packet when the input ends; the job goes from the failed read straight to
  \<^verbatim>\<open>avcodec_send_frame(enc_ctx, NULL)\<close>, and no call
  \<^verbatim>\<open>avcodec_send_packet(dec_ctx, NULL)\<close> is made anywhere.
\<close>

theorem eos_env_no_decoder_flush:
  "Entry transcode_job eos_env =
     [Log ''Starting encoding conversion...'', avformat_open_input 0,
      avformat_find_stream_info 0, avcodec_find_decoder True, avcodec_open2_dec 0,
      avformat_alloc_output_context2 True, avformat_new_stream True,
      avformat_new_stream True, avcodec_parameters_copy 0, avcodec_find_encoder True,
      avcodec_open2_enc 0, avio_open 0, avformat_write_header 0,
      av_read_frame 0, avcodec_send_packet (Some (packet 0 0)) 0,
      avcodec_receive_frame AVERROR_EAGAIN,
      av_read_frame AVERROR_EOF,
      avcodec_send_frame None 0, avcodec_receive_packet AVERROR_EOF,
      av_write_trailer,
      avcodec_free_context_dec, avcodec_free_context_enc, avio_closep,
      avformat_free_context, avformat_close_input, SetRunning False,
      Log ''Conversion finished. Output: /videos/clip_converted.mp4''] \<and>
   filter decoder_flush (Entry transcode_job eos_env) = []"
  by (simp add: eos_env_def job_defs)

text \<open>
  Claim C1, amended. In the transcode path, whenever \<^verbatim>\<open>av_read_frame\<close> returns a
  negative value (end of stream or read error), the job, without flushing the decoder,
  signals end of input to the encoder, receives packets from the encoder until it
  reports none ready, the end of the stream or an error, writing each packet received;
  only then it writes the trailer, and after that the cleanup block closes the output
  handle (when the format has one). No call of the job signals end of input to the
  decoder.
\<close>

theorem end_of_stream_flushes_encoder:
  assumes "m_reencode j" and "av_read_frame r \<in> set (Entry j e)" and "r < 0"
  shows "\<exists>pre sr fl.
           Entry j e =
             pre @ [av_read_frame r, avcodec_send_frame None sr] @ fl @
             [av_write_trailer, avcodec_free_context_dec, avcodec_free_context_enc] @
             (if nofile e then [] else [avio_closep]) @
             [avformat_free_context, avformat_close_input, SetRunning False,
              Log (''Conversion finished. Output: ''
                   @ make_output_path (m_input j) (m_outFormat j))] \<and>
           flushed fl \<and> filter decoder_flush (Entry j e) = []"
  using assms(1)
proof (cases rule: Entry_transcode_elim[where e=e])
  case setup_failed
  with assms(2) have "setup_event (av_read_frame r)" by blast
  then show ?thesis by simp
next
  case (aborted pre)
  let ?TL = "transcode_loop e (nat (find_video_stream 0 (streams e))) (map int [0..<length (streams e)])
               (reads e) (decoded e) (encoded e) (answers e)"
  from assms(2) aborted(1) consider "av_read_frame r \<in> set pre" | "av_read_frame r \<in> set (fst (snd ?TL))"
    | "av_read_frame r \<in> set (cleanup e (make_output_path (m_input j) (m_outFormat j)))" by auto
  then show ?thesis
  proof cases
    case 1
    with aborted(2) have "setup_event (av_read_frame r)" by blast
    then show ?thesis by simp
  next
    case 2
    from transcode_loop_read_failed[OF _ this] assms(3) aborted(3) show ?thesis by simp
  next
    case 3
    from cleanup_setup[OF this] show ?thesis by simp
  qed
next
  case (finished pre sr)
  let ?m = "map int [0..<length (streams e)]"
  let ?vsi = "nat (find_video_stream 0 (streams e))"
  let ?TL = "transcode_loop e ?vsi ?m (reads e) (decoded e) (encoded e) (answers e)"
  let ?fl = "flush_encoder e (nat (?m ! ?vsi)) (fst (snd (snd (snd ?TL))))
           ((snd (snd (snd (snd ?TL))))\<lparr>send_frame_rets :=
               snd (next_ret (send_frame_rets (snd (snd (snd (snd ?TL))))))\<rparr>)"
  let ?out = "make_output_path (m_input j) (m_outFormat j)"
  from assms(2) finished(1) consider "av_read_frame r \<in> set pre" | "av_read_frame r \<in> set (fst (snd ?TL))"
    | "av_read_frame r \<in> set ?fl"
    | "av_read_frame r \<in> set (cleanup e ?out)" by auto
  then have "av_read_frame r \<in> set (fst (snd ?TL))"
  proof cases
    case 1
    with finished(2) have "setup_event (av_read_frame r)" by blast
    then show ?thesis by simp
  next
    case 2
    then show ?thesis .
  next
    case 3
    from flush_encoder_quiet[OF this] assms(3) show ?thesis by simp
  next
    case 4
    from cleanup_setup[OF this] show ?thesis by simp
  qed
  from transcode_loop_read_failed[OF _ this] assms(3) obtain pre' where
    "fst (snd ?TL) = pre' @ [av_read_frame r]" by auto
  with finished(1) have "Entry j e =
             (pre @ pre') @ [av_read_frame r, avcodec_send_frame None sr] @ ?fl @
             [av_write_trailer, avcodec_free_context_dec, avcodec_free_context_enc] @
             (if nofile e then [] else [avio_closep]) @
             [avformat_free_context, avformat_close_input, SetRunning False,
              Log (''Conversion finished. Output: '' @ ?out)]"
    by (simp add: cleanup_def)
  moreover have "flushed ?fl" by (rule flush_encoder_flushed)
  moreover note Entry_no_decoder_flush[of j e]
  ultimately show ?thesis by blast
qed

theorem end_of_stream_flushes_encoder_witness:
  "m_reencode transcode_job \<and> av_read_frame AVERROR_EOF \<in> set (Entry transcode_job flush_env) \<and>
   AVERROR_EOF < 0 \<and>
   (\<exists>pre sr fl.
      Entry transcode_job flush_env =
        pre @ [av_read_frame AVERROR_EOF, avcodec_send_frame None sr] @ fl @
        [av_write_trailer, avcodec_free_context_dec, avcodec_free_context_enc, avio_closep,
         avformat_free_context, avformat_close_input, SetRunning False,
         Log ''Conversion finished. Output: /videos/clip_converted.mp4''] \<and>
      flushed fl \<and> filter decoder_flush (Entry transcode_job flush_env) = [])"
proof -
  have 1: "m_reencode transcode_job" by (simp add: transcode_job_def)
  have 2: "av_read_frame AVERROR_EOF \<in> set (Entry transcode_job flush_env)"
    by (simp add: flush_env_def job_defs)
  have 3: "AVERROR_EOF < 0" by simp
  have 4: "make_output_path (m_input transcode_job) (m_outFormat transcode_job)
             = ''/videos/clip_converted.mp4''"
    by (simp add: job_defs)
  have 5: "\<not> nofile flush_env" by (simp add: flush_env_def env0_def)
  from end_of_stream_flushes_encoder[OF 1 2 3] 1 2 3 show ?thesis unfolding 4 using 5 by simp
qed

text \<open>
  Claim C2, as stated, fails: what was submitted to the decoder and what is drained from
  it, flush included, do not account for every frame the decoder holds. On \<open>held_env\<close>
  the decoder answers the request after the only video packet with "no frame ready"
  and would deliver the frame at the next request. The input ends; the job makes no
  further request, neither before the encoder is flushed nor after, and the decoder is
  never flushed: the frame is never obtained and nothing reaches the encoder.
\<close>

theorem held_env_frame_never_obtained:
  "Entry transcode_job held_env =
     [Log ''Starting encoding conversion...'', avformat_open_input 0,
      avformat_find_stream_info 0, avcodec_find_decoder True, avcodec_open2_dec 0,
      avformat_alloc_output_context2 True, avformat_new_stream True,
      avformat_new_stream True, avcodec_parameters_copy 0, avcodec_find_encoder True,
      avcodec_open2_enc 0, avio_open 0, avformat_write_header 0,
      av_read_frame 0, avcodec_send_packet (Some (packet 0 0)) 0,
      avcodec_receive_frame AVERROR_EAGAIN,
      av_read_frame AVERROR_EOF,
      avcodec_send_frame None 0, avcodec_receive_packet AVERROR_EAGAIN,
      av_write_trailer,
      avcodec_free_context_dec, avcodec_free_context_enc, avio_closep,
      avformat_free_context, avformat_close_input, SetRunning False,
      Log ''Conversion finished. Output: /videos/clip_converted.mp4''] \<and>
   decoded held_env = [(AVERROR_EAGAIN, \<lparr>frame_pts = 0\<rparr>), (0, \<lparr>frame_pts = 0\<rparr>)] \<and>
   length (filter frame_request (Entry transcode_job held_env)) = 1 \<and>
   filter is_frame (Entry transcode_job held_env) = [] \<and>
   List.map_filter sent_frame (Entry transcode_job held_env) = []"
  by (simp add: held_env_def job_defs List.map_filter_simps)

text \<open>
  Claim C2, amended. In the transcode path, right after every video packet the decoder
  accepts, a frame is requested from the decoder. Every frame obtained is converted and
  sent to the encoder at once, carrying the frame's \<^verbatim>\<open>pts\<close>: the frames sent to the
  encoder are, in order, exactly the frames obtained. After every frame the encoder
  accepts, packets are requested from the encoder until it reports that none is ready or
  the end of the stream, each packet received being written, unless an error of the
  encoder or of the muxer intervenes, which is logged. No call tells the decoder that the
  input has ended, and after the read that ends the input no call to the decoder is
  made at all: frames it still holds then are never obtained. (How many frames are
  requested for one packet is left open here; at the end of the input only the encoder
  is drained, see claim C1.)
\<close>

theorem frames_go_through_the_encoder:
  assumes "m_reencode j"
  shows "(Entry j e = pre @ avcodec_send_packet (Some p) sr # post \<and> 0 \<le> sr \<longrightarrow>
            (\<exists>r rest. post = avcodec_receive_frame r # rest)) \<and>
         (Entry j e = pre @ avcodec_receive_frame r # post \<and> 0 \<le> r \<longrightarrow>
            (\<exists>f sfr rest. post = sws_scale # avcodec_send_frame (Some f) sfr # rest)) \<and>
         (Entry j e = pre @ avcodec_send_frame (Some f) sfr # post \<and> 0 \<le> sfr \<longrightarrow>
            (\<exists>dr rest. post = dr @ rest \<and> (drained dr \<or> drain_failed dr))) \<and>
         List.map_filter sent_frame (Entry j e) =
           map (\<lambda>(r, f). \<lparr>frame_pts = frame_pts f\<rparr>)
             (filter (\<lambda>(r, f). 0 \<le> r)
                (take (length (filter frame_request (Entry j e))) (decoded e))) \<and>
         (Entry j e = pre @ av_read_frame x # post \<and> x < 0 \<longrightarrow>
            (\<forall>ev\<in>set post. \<not> decoder_call ev)) \<and>
         filter decoder_flush (Entry j e) = []"
proof -
  from Entry_steps[OF assms, of e]
  have st: "Entry j e = a @ ev # b \<Longrightarrow> frame_step ev b" for a ev b
    unfolding all_followed_iff by blast
  from Entry_after_end[OF assms, of e]
  have ae: "Entry j e = a @ ev # b \<Longrightarrow> after_end ev b" for a ev b
    unfolding all_followed_iff by blast
  have 1: "Entry j e = pre @ avcodec_send_packet (Some p) sr # post \<and> 0 \<le> sr \<longrightarrow>
            (\<exists>r rest. post = avcodec_receive_frame r # rest)"
  proof
    assume a: "Entry j e = pre @ avcodec_send_packet (Some p) sr # post \<and> 0 \<le> sr"
    then have "frame_step (avcodec_send_packet (Some p) sr) post" using st by blast
    with a show "\<exists>r rest. post = avcodec_receive_frame r # rest"
      by (simp add: frame_step_def starts_request_iff)
  qed
  have 2: "Entry j e = pre @ avcodec_receive_frame r # post \<and> 0 \<le> r \<longrightarrow>
            (\<exists>f sfr rest. post = sws_scale # avcodec_send_frame (Some f) sfr # rest)"
  proof
    assume a: "Entry j e = pre @ avcodec_receive_frame r # post \<and> 0 \<le> r"
    then have "frame_step (avcodec_receive_frame r) post" using st by blast
    with a show "\<exists>f sfr rest. post = sws_scale # avcodec_send_frame (Some f) sfr # rest"
      by (simp add: frame_step_def starts_conversion_iff)
  qed
  have 3: "Entry j e = pre @ avcodec_send_frame (Some f) sfr # post \<and> 0 \<le> sfr \<longrightarrow>
            (\<exists>dr rest. post = dr @ rest \<and> (drained dr \<or> drain_failed dr))"
  proof
    assume a: "Entry j e = pre @ avcodec_send_frame (Some f) sfr # post \<and> 0 \<le> sfr"
    then have "frame_step (avcodec_send_frame (Some f) sfr) post" using st by blast
    with a show "\<exists>dr rest. post = dr @ rest \<and> (drained dr \<or> drain_failed dr)"
      by (simp add: frame_step_def starts_drain_iff)
  qed
  have 5: "Entry j e = pre @ av_read_frame x # post \<and> x < 0 \<longrightarrow>
            (\<forall>ev\<in>set post. \<not> decoder_call ev)"
  proof
    assume a: "Entry j e = pre @ av_read_frame x # post \<and> x < 0"
    then have "after_end (av_read_frame x) post" using ae by blast
    with a show "\<forall>ev\<in>set post. \<not> decoder_call ev"
      by (simp add: after_end_def list_all_iff)
  qed
  from 1 2 3 Entry_sent_frames[OF assms, of e] 5 Entry_no_decoder_flush[of j e]
  show ?thesis by (intro conjI)
qed

theorem frames_go_through_the_encoder_witness:
  "m_reencode transcode_job \<and>
   Entry transcode_job encode_env ! 14 = avcodec_send_packet (Some (packet 0 0)) 0 \<and>
   (\<exists>r rest. drop 15 (Entry transcode_job encode_env) = avcodec_receive_frame r # rest) \<and>
   Entry transcode_job encode_env ! 15 = avcodec_receive_frame 0 \<and>
   (\<exists>f sfr rest. drop 16 (Entry transcode_job encode_env) =
       sws_scale # avcodec_send_frame (Some f) sfr # rest) \<and>
   Entry transcode_job encode_env ! 17 = avcodec_send_frame (Some \<lparr>frame_pts = 0\<rparr>) 0 \<and>
   (\<exists>dr rest. drop 18 (Entry transcode_job encode_env) = dr @ rest \<and>
       (drained dr \<or> drain_failed dr)) \<and>
   List.map_filter sent_frame (Entry transcode_job encode_env) = [\<lparr>frame_pts = 0\<rparr>] \<and>
   length (filter frame_request (Entry transcode_job encode_env)) = 1 \<and>
   decoded encode_env = [(0, \<lparr>frame_pts = 0\<rparr>)] \<and>
   Entry transcode_job encode_env ! 23 = av_read_frame AVERROR_EOF \<and>
   list_all (\<lambda>ev. \<not> decoder_call ev) (drop 24 (Entry transcode_job encode_env)) \<and>
   filter decoder_flush (Entry transcode_job encode_env) = []"
proof -
  let ?T = "Entry transcode_job encode_env"
  have t: "m_reencode transcode_job" by (simp add: transcode_job_def)
  have i14: "?T ! 14 = avcodec_send_packet (Some (packet 0 0)) 0"
    and i15: "?T ! 15 = avcodec_receive_frame 0"
    and i17: "?T ! 17 = avcodec_send_frame (Some \<lparr>frame_pts = 0\<rparr>) 0"
    and i23: "?T ! 23 = av_read_frame AVERROR_EOF"
    by (simp_all add: encode_trace)
  have h1: "?T = take 14 ?T @ avcodec_send_packet (Some (packet 0 0)) 0 # drop 15 ?T \<and> (0::int) \<le> 0"
    by (simp add: encode_trace)
  have h2: "?T = take 15 ?T @ avcodec_receive_frame 0 # drop 16 ?T \<and> (0::int) \<le> 0"
    by (simp add: encode_trace)
  have h3: "?T = take 17 ?T @ avcodec_send_frame (Some \<lparr>frame_pts = 0\<rparr>) 0 # drop 18 ?T \<and> (0::int) \<le> 0"
    by (simp add: encode_trace)
  have h5: "?T = take 23 ?T @ av_read_frame AVERROR_EOF # drop 24 ?T \<and> AVERROR_EOF < 0"
    by (simp add: encode_trace)
  have n: "length (filter frame_request ?T) = 1" by (simp add: encode_trace)
  have d: "decoded encode_env = [(0, \<lparr>frame_pts = 0\<rparr>)]" by (simp add: encode_env_def)
  note A = frames_go_through_the_encoder[OF t, of encode_env "take 14 ?T" "packet 0 0" 0 "drop 15 ?T",
             THEN conjunct1, THEN mp, OF h1]
  note B = frames_go_through_the_encoder[OF t, of encode_env "take 15 ?T" _ _ "drop 16 ?T" 0,
             THEN conjunct2, THEN conjunct1, THEN mp, OF h2]
  note C = frames_go_through_the_encoder[OF t, of encode_env "take 17 ?T" _ _ "drop 18 ?T" _
             "\<lparr>frame_pts = 0\<rparr>" 0,
             THEN conjunct2, THEN conjunct2, THEN conjunct1, THEN mp, OF h3]
  note D = frames_go_through_the_encoder[OF t, of encode_env,
             THEN conjunct2, THEN conjunct2, THEN conjunct2, THEN conjunct1]
  note E = frames_go_through_the_encoder[OF t, of encode_env "take 23 ?T" _ _ "drop 24 ?T" _ _ _
             AVERROR_EOF,
             THEN conjunct2, THEN conjunct2, THEN conjunct2, THEN conjunct2, THEN conjunct1,
             THEN mp, OF h5]
  note F = frames_go_through_the_encoder[OF t, of encode_env,
             THEN conjunct2, THEN conjunct2, THEN conjunct2, THEN conjunct2, THEN conjunct2]
  from D have D': "List.map_filter sent_frame ?T = [\<lparr>frame_pts = 0\<rparr>]"
    unfolding n d by simp
  from E have E': "list_all (\<lambda>ev. \<not> decoder_call ev) (drop 24 ?T)"
    by (simp only: list_all_iff)
  from t i14 A i15 B i17 C D' n d i23 E' F show ?thesis by (intro conjI)
qed

text \<open>
  Claim C3. When a poll in the packet loop sees the cancellation, the remux path still
  finalizes: after the log line the trailer is written and the output handle is closed
  (\<^verbatim>\<open>avio_closep\<close>, for every format that has a file), then the contexts are released
  and the job reports "Remux finished". The transcode path instead jumps to the cleanup
  block: the calls after the log line are those of the cleanup block alone, the trailer
  is never written, and no end of input is signalled to the encoder or the decoder, so
  the output container is left unfinalized.
\<close>

theorem cancellation_finalizes_remux_only:
  assumes "TestDestroy True \<in> set (Entry j e)"
  shows "(\<not> m_reencode j \<longrightarrow>
            (\<exists>pre. Entry j e =
               pre @ [TestDestroy True, Log ''Conversion cancelled'', av_write_trailer] @
               (if nofile e then [] else [avio_closep]) @
               [avformat_close_input, avformat_free_context,
                Log (''Remux finished. Output: '' @ make_output_path (m_input j) (m_outFormat j)),
                SetRunning False])) \<and>
         (m_reencode j \<longrightarrow>
            (\<exists>pre. Entry j e =
               pre @ [TestDestroy True, Log ''Conversion cancelled'',
                      avcodec_free_context_dec, avcodec_free_context_enc] @
               (if nofile e then [] else [avio_closep]) @
               [avformat_free_context, avformat_close_input, SetRunning False,
                Log (''Conversion finished. Output: ''
                     @ make_output_path (m_input j) (m_outFormat j))]) \<and>
            av_write_trailer \<notin> set (Entry j e) \<and>
            (\<forall>sr. avcodec_send_frame None sr \<notin> set (Entry j e)) \<and>
            filter decoder_flush (Entry j e) = [])"
proof (intro conjI impI)
  assume "\<not> m_reencode j"
  from Entry_cancel_remux[OF this assms] obtain pre where
    E: "Entry j e = pre @ TestDestroy True # Log ''Conversion cancelled'' #
                   finalize e (make_output_path (m_input j) (m_outFormat j))" by blast
  show "\<exists>pre. Entry j e =
               pre @ [TestDestroy True, Log ''Conversion cancelled'', av_write_trailer] @
               (if nofile e then [] else [avio_closep]) @
               [avformat_close_input, avformat_free_context,
                Log (''Remux finished. Output: '' @ make_output_path (m_input j) (m_outFormat j)),
                SetRunning False]"
    unfolding E finalize_def by (intro exI[of _ pre]) simp
next
  assume re: "m_reencode j"
  note ct = Entry_cancel_transcode[OF re assms]
  from ct[THEN conjunct1] obtain pre where
    E: "Entry j e = pre @ TestDestroy True # Log ''Conversion cancelled'' #
                   cleanup e (make_output_path (m_input j) (m_outFormat j))" by blast
  show "\<exists>pre. Entry j e =
               pre @ [TestDestroy True, Log ''Conversion cancelled'',
                      avcodec_free_context_dec, avcodec_free_context_enc] @
               (if nofile e then [] else [avio_closep]) @
               [avformat_free_context, avformat_close_input, SetRunning False,
                Log (''Conversion finished. Output: ''
                     @ make_output_path (m_input j) (m_outFormat j))]"
    unfolding E cleanup_def by (intro exI[of _ pre]) simp
  show "av_write_trailer \<notin> set (Entry j e)"
    by (rule ct[THEN conjunct2, THEN conjunct1])
  show "\<forall>sr. avcodec_send_frame None sr \<notin> set (Entry j e)"
    by (rule ct[THEN conjunct2, THEN conjunct2])
  show "filter decoder_flush (Entry j e) = []" by (rule Entry_no_decoder_flush)
qed

theorem cancellation_finalizes_remux_only_witness:
  "TestDestroy True \<in> set (Entry remux_job cancel_env) \<and> \<not> m_reencode remux_job \<and>
   (\<exists>pre. Entry remux_job cancel_env =
      pre @ [TestDestroy True, Log ''Conversion cancelled'', av_write_trailer, avio_closep,
             avformat_close_input, avformat_free_context,
             Log ''Remux finished. Output: /videos/clip_converted.mkv'', SetRunning False]) \<and>
   TestDestroy True \<in> set (Entry transcode_job cancel_env) \<and> m_reencode transcode_job \<and>
   (\<exists>pre. Entry transcode_job cancel_env =
      pre @ [TestDestroy True, Log ''Conversion cancelled'',
             avcodec_free_context_dec, avcodec_free_context_enc, avio_closep,
             avformat_free_context, avformat_close_input, SetRunning False,
             Log ''Conversion finished. Output: /videos/clip_converted.mp4'']) \<and>
   av_write_trailer \<notin> set (Entry transcode_job cancel_env) \<and>
   avcodec_send_frame None 0 \<notin> set (Entry transcode_job cancel_env)"
proof -
  have r1: "TestDestroy True \<in> set (Entry remux_job cancel_env)"
    by (simp add: cancel_remux_trace)
  have r2: "\<not> m_reencode remux_job" by (simp add: remux_job_def)
  have r3: "make_output_path (m_input remux_job) (m_outFormat remux_job)
             = ''/videos/clip_converted.mkv''"
    by (simp add: job_defs)
  have t1: "TestDestroy True \<in> set (Entry transcode_job cancel_env)"
    by (simp add: cancel_transcode_trace)
  have t2: "m_reencode transcode_job" by (simp add: transcode_job_def)
  have t3: "make_output_path (m_input transcode_job) (m_outFormat transcode_job)
             = ''/videos/clip_converted.mp4''"
    by (simp add: job_defs)
  have nf: "nofile cancel_env = False" by (simp add: cancel_env_def env0_def)
  note A = cancellation_finalizes_remux_only[OF r1, THEN conjunct1, rule_format, OF r2,
             unfolded r3 nf if_False append_Nil2 append.simps]
  note B = cancellation_finalizes_remux_only[OF t1, THEN conjunct2, rule_format, OF t2,
             unfolded t3 nf if_False append_Nil2 append.simps]
  from B have B3: "avcodec_send_frame None 0 \<notin> set (Entry transcode_job cancel_env)" by blast
  show ?thesis
    using r1 r2 t1 t2 A B[THEN conjunct1] B[THEN conjunct2, THEN conjunct1] B3
    by (intro conjI) simp_all
qed

text \<open>
  Claim C4. Every packet handed to the muxer is either an encoder packet (transcode mode
  only) or the copy of a packet read from the input - any packet in remux mode, a packet
  of a stream other than the video stream in transcode mode - and for every copied
  packet: \<^verbatim>\<open>pts\<close> and \<^verbatim>\<open>dts\<close> are the results of \<^verbatim>\<open>av_rescale_q_rnd\<close> from the
  input stream's time base to the output stream's with the flags
  \<^verbatim>\<open>AV_ROUND_NEAR_INF|AV_ROUND_PASS_MINMAX\<close>, \<^verbatim>\<open>duration\<close> is the result of
  \<^verbatim>\<open>av_rescale_q\<close>, \<^verbatim>\<open>pos\<close> is \<open>-1\<close>, and nothing else changes. With the
  library as the specification describes it, \<^verbatim>\<open>pts\<close> and \<^verbatim>\<open>dts\<close> are the
  timestamp times the ratio of the time bases, rounded to nearest with ties away from
  zero and clamped to the 64-bit range, and \<^verbatim>\<open>duration\<close> is rounded the same way
  without the clamp.
\<close>

theorem copied_packets_rescaled:
  assumes "av_interleaved_write_frame q r \<in> set (Entry j e)"
  shows "(\<exists>p\<in>snd ` set (reads e).
            stream_index p < length (streams e) \<and>
            (m_reencode j \<longrightarrow> stream_index p \<noteq> nat (find_video_stream 0 (streams e))) \<and>
            (let tb_in = time_base (streams e ! stream_index p);
                 tb_out = out_time_base e (stream_index p)
             in q = p\<lparr>pts := av_rescale_q_rnd e (pts p) tb_in tb_out
                               {AV_ROUND_NEAR_INF, AV_ROUND_PASS_MINMAX},
                       dts := av_rescale_q_rnd e (dts p) tb_in tb_out
                               {AV_ROUND_NEAR_INF, AV_ROUND_PASS_MINMAX},
                       duration := av_rescale_q e (duration p) tb_in tb_out,
                       pos := - 1\<rparr> \<and>
                (library_as_specified e \<longrightarrow>
                   pts q = clamp_int64 (round_half_away (of_int (pts p) * q2rat tb_in / q2rat tb_out)) \<and>
                   dts q = clamp_int64 (round_half_away (of_int (dts p) * q2rat tb_in / q2rat tb_out)) \<and>
                   duration q = round_half_away (of_int (duration p) * q2rat tb_in / q2rat tb_out)))) \<or>
         (m_reencode j \<and>
          (\<exists>p\<in>snd ` set (encoded e).
             q = rescale_encoded e (nat (find_video_stream 0 (streams e))) p))"
proof -
  let ?m = "map int [0..<length (streams e)]"
  let ?vsi = "nat (find_video_stream 0 (streams e))"
  have copy: ?thesis
    if p: "p \<in> snd ` set (reads e)" and nd: "\<not> dropped ?m p" and q: "q = remux_packet e ?m p"
      and v: "m_reencode j \<longrightarrow> stream_index p \<noteq> ?vsi" for p
  proof -
    note id1 = remux_packet_identity(1)[OF nd]
    note id2 = remux_packet_identity(2)[OF nd, of e]
    let ?tb_in = "time_base (streams e ! stream_index p)"
    let ?tb_out = "out_time_base e (stream_index p)"
    have eq: "q = p\<lparr>pts := av_rescale_q_rnd e (pts p) ?tb_in ?tb_out
                               {AV_ROUND_NEAR_INF, AV_ROUND_PASS_MINMAX},
                       dts := av_rescale_q_rnd e (dts p) ?tb_in ?tb_out
                               {AV_ROUND_NEAR_INF, AV_ROUND_PASS_MINMAX},
                       duration := av_rescale_q e (duration p) ?tb_in ?tb_out,
                       pos := - 1\<rparr>"
      using q id2 by simp
    have lib: "pts q = clamp_int64 (round_half_away (of_int (pts p) * q2rat ?tb_in / q2rat ?tb_out)) \<and>
               dts q = clamp_int64 (round_half_away (of_int (dts p) * q2rat ?tb_in / q2rat ?tb_out)) \<and>
               duration q = round_half_away (of_int (duration p) * q2rat ?tb_in / q2rat ?tb_out)"
      if "library_as_specified e"
      using that unfolding eq
      by (simp add: library_as_specified_def spec_rescale_q_rnd_def spec_rescale_q_def)
    from p id1 v eq lib show ?thesis
      by (intro disjI1 bexI[of _ p]) (simp_all add: Let_def)
  qed
  show ?thesis
  proof (cases "m_reencode j")
    case False
    from Entry_events_remux[OF False assms]
    obtain p where "p \<in> snd ` set (reads e)" "\<not> dropped ?m p" "q = remux_packet e ?m p"
      by auto
    with False show ?thesis by (intro copy[of p]) simp_all
  next
    case True
    from Entry_events_transcode[OF True assms]
    have v: "0 \<le> find_video_stream 0 (streams e)"
      and t: "transcode_event e ?vsi ?m (snd ` set (reads e)) (snd ` set (encoded e))
                (av_interleaved_write_frame q r)"
      by auto
    from find_video_stream_first[OF v] have "?vsi < length (streams e)" by auto
    then have k: "nat (?m ! ?vsi) = ?vsi" by simp
    from t consider p where "p \<in> snd ` set (encoded e)" "q = rescale_encoded e (nat (?m ! ?vsi)) p"
      | p where "p \<in> snd ` set (reads e)" "stream_index p \<noteq> ?vsi" "\<not> dropped ?m p"
          "q = remux_packet e ?m p"
      by auto
    then show ?thesis
    proof cases
      case 1
      with True k show ?thesis by auto
    next
      case 2
      then show ?thesis by (intro copy[of p]) simp_all
    qed
  qed
qed

lemma rescale_remux_trace:
  "Entry remux_job rescale_env =
     [Log ''Starting remux (stream-copy) conversion...'', avformat_open_input 0,
      avformat_find_stream_info 0, avformat_alloc_output_context2 True,
      avformat_new_stream True, avcodec_parameters_copy 0,
      avformat_new_stream True, avcodec_parameters_copy 0,
      avio_open 0, avformat_write_header 0,
      av_read_frame 0,
      av_interleaved_write_frame
        \<lparr>stream_index = 1, pts = 2, dts = 2, duration = 0, pos = - 1, data = [0]\<rparr> 0,
      TestDestroy False,
      av_read_frame 0,
      av_interleaved_write_frame
        \<lparr>stream_index = 1, pts = - 2, dts = - 2, duration = 0, pos = - 1, data = [0]\<rparr> 0,
      TestDestroy False,
      av_read_frame AVERROR_EOF,
      av_write_trailer, avio_closep, avformat_close_input, avformat_free_context,
      Log ''Remux finished. Output: /videos/clip_converted.mkv'', SetRunning False]"
  by (simp add: rescale_env_def job_defs library_defs)

theorem copied_packets_rescaled_witness:
  "av_interleaved_write_frame
     \<lparr>stream_index = 1, pts = - 2, dts = - 2, duration = 0, pos = - 1, data = [0]\<rparr> 0
     \<in> set (Entry remux_job rescale_env) \<and>
   library_as_specified rescale_env \<and>
   clamp_int64 (round_half_away (of_int (- 1500) * q2rat \<lparr>num = 1, den = 1000\<rparr>
                                  / q2rat \<lparr>num = 1, den = 1\<rparr>)) = - 2 \<and>
   ((\<exists>p\<in>snd ` set (reads rescale_env).
       stream_index p < length (streams rescale_env) \<and>
       (let tb_in = time_base (streams rescale_env ! stream_index p);
            tb_out = out_time_base rescale_env (stream_index p)
        in \<lparr>stream_index = 1, pts = - 2, dts = - 2, duration = 0, pos = - 1, data = [0]\<rparr>
             = p\<lparr>pts := av_rescale_q_rnd rescale_env (pts p) tb_in tb_out
                           {AV_ROUND_NEAR_INF, AV_ROUND_PASS_MINMAX},
                   dts := av_rescale_q_rnd rescale_env (dts p) tb_in tb_out
                           {AV_ROUND_NEAR_INF, AV_ROUND_PASS_MINMAX},
                   duration := av_rescale_q rescale_env (duration p) tb_in tb_out,
                   pos := - 1\<rparr> \<and>
           - 2 = clamp_int64 (round_half_away (of_int (pts p) * q2rat tb_in / q2rat tb_out)) \<and>
           - 2 = clamp_int64 (round_half_away (of_int (dts p) * q2rat tb_in / q2rat tb_out)) \<and>
           0 = round_half_away (of_int (duration p) * q2rat tb_in / q2rat tb_out))))"
proof -
  let ?q = "\<lparr>stream_index = 1, pts = - 2, dts = - 2, duration = 0, pos = - 1, data = [0]\<rparr>"
  have 1: "av_interleaved_write_frame ?q 0 \<in> set (Entry remux_job rescale_env)"
    by (simp add: rescale_remux_trace)
  have 2: "library_as_specified rescale_env"
    by (simp add: library_as_specified_def rescale_env_def env0_def)
  have 3: "clamp_int64 (round_half_away (of_int (- 1500) * q2rat \<lparr>num = 1, den = 1000\<rparr>
                                  / q2rat \<lparr>num = 1, den = 1\<rparr>)) = - 2"
    by (simp add: library_defs)
  have 4: "\<not> m_reencode remux_job" by (simp add: remux_job_def)
  from copied_packets_rescaled[OF 1] 2 4
  have 5: "\<exists>p\<in>snd ` set (reads rescale_env).
       stream_index p < length (streams rescale_env) \<and>
       (let tb_in = time_base (streams rescale_env ! stream_index p);
            tb_out = out_time_base rescale_env (stream_index p)
        in ?q = p\<lparr>pts := av_rescale_q_rnd rescale_env (pts p) tb_in tb_out
                           {AV_ROUND_NEAR_INF, AV_ROUND_PASS_MINMAX},
                   dts := av_rescale_q_rnd rescale_env (dts p) tb_in tb_out
                           {AV_ROUND_NEAR_INF, AV_ROUND_PASS_MINMAX},
                   duration := av_rescale_q rescale_env (duration p) tb_in tb_out,
                   pos := - 1\<rparr> \<and>
           - 2 = clamp_int64 (round_half_away (of_int (pts p) * q2rat tb_in / q2rat tb_out)) \<and>
           - 2 = clamp_int64 (round_half_away (of_int (dts p) * q2rat tb_in / q2rat tb_out)) \<and>
           0 = round_half_away (of_int (duration p) * q2rat tb_in / q2rat tb_out))"
    by (simp add: Let_def)
  from 1 2 3 5 show ?thesis by (intro conjI)
qed

text \<open>
  Claim C5. In remux mode, in every job that gets as far as writing the header, the
  stream loop has created exactly one output stream per input stream: for an input with
  N streams the job makes N successful calls of \<^verbatim>\<open>avformat_new_stream\<close>, output
  stream i holds a copy of input stream i's codec parameters with the codec tag set to
  0, and the mapping sends every input index i to the output index i, so it is
  order-preserving and injective and no stream is dropped. (When creating or copying a
  stream fails, the job ends before the header.)
\<close>

theorem remux_keeps_every_stream:
  assumes "\<not> m_reencode j" and "avformat_write_header r \<in> set (Entry j e)" and "0 \<le> r"
  shows "\<exists>ret evs mapping outs.
           remux_streams e 0 (streams e) (find_stream_info_ret e) 0
             (replicate (length (streams e)) (- 1)) [] = (ret, evs, mapping, outs) \<and>
           length outs = length (streams e) \<and>
           outs = map (\<lambda>s. Some ((codecpar s)\<lparr>codec_tag := 0\<rparr>)) (streams e) \<and>
           mapping = map int [0..<length (streams e)] \<and>
           distinct mapping \<and> sorted mapping \<and>
           length (filter stream_created (Entry j e)) = length (streams e)"
proof -
  from assms obtain ret evs mapping outs where
    rs: "remux_streams e 0 (streams e) (find_stream_info_ret e) 0
       (replicate (length (streams e)) (- 1)) [] = (ret, evs, mapping, outs)"
    and ret: "0 \<le> ret"
    and E: "Entry j e =
       [Log ''Starting remux (stream-copy) conversion...'', avformat_open_input (open_input_ret e),
        avformat_find_stream_info (find_stream_info_ret e), avformat_alloc_output_context2 True] @
       evs @ (if nofile e then [] else [avio_open (avio_open_ret e)]) @
       [avformat_write_header (write_header_ret e)] @
       remux_loop e mapping (reads e) (answers e) @
       finalize e (make_output_path (m_input j) (m_outFormat j))"
    by (rule remux_success)
  note id = remux_streams_identity[OF rs ret]
  have d: "distinct mapping" unfolding id(1) by (simp add: distinct_map inj_on_def)
  have s: "sorted mapping" unfolding id(1) by (simp add: sorted_map sorted_wrt_iff_nth_less)
  have loop: "filter stream_created (remux_loop e mapping (reads e) (answers e)) = []"
    unfolding filter_empty_conv
    by (blast dest: remux_loop_inv[OF subset_refl] remux_event_not_created)
  have fin: "filter stream_created (finalize e (make_output_path (m_input j) (m_outFormat j))) = []"
    by (simp add: finalize_def)
  have "length (filter stream_created (Entry j e)) = length (streams e)"
    unfolding E using remux_streams_created[OF rs ret] loop fin by simp
  with rs id d s show ?thesis by simp
qed

theorem remux_keeps_every_stream_witness:
  "\<not> m_reencode remux_job \<and> avformat_write_header 0 \<in> set (Entry remux_job reorder_env) \<and>
   (\<exists>ret evs mapping outs.
      remux_streams reorder_env 0 [video_stream, audio_stream] 0 0 [- 1, - 1] []
        = (ret, evs, mapping, outs) \<and>
      length outs = 2 \<and>
      outs = [Some ((codecpar video_stream)\<lparr>codec_tag := 0\<rparr>),
              Some ((codecpar audio_stream)\<lparr>codec_tag := 0\<rparr>)] \<and>
      mapping = [0, 1] \<and>
      length (filter stream_created (Entry remux_job reorder_env)) = 2)"
proof -
  have 1: "\<not> m_reencode remux_job" by (simp add: remux_job_def)
  have 2: "avformat_write_header 0 \<in> set (Entry remux_job reorder_env)"
    by (simp add: reorder_env_def job_defs library_defs)
  have s: "streams reorder_env = [video_stream, audio_stream]"
    "find_stream_info_ret reorder_env = 0"
    by (simp_all add: reorder_env_def env0_def)
  have u: "[0..<2] = [0, 1]" by (simp add: upt_rec)
  from remux_keeps_every_stream[OF 1 2] 1 2 show ?thesis
    unfolding s by (simp add: numeral_2_eq_2 u)
qed

text \<open>
  Claim C6. In transcode mode the stream that is re-encoded is the first stream, in
  index order, whose kind is video. Every packet sent to the decoder belongs to a video
  stream before which no stream is a video stream. If the input has no video stream, no
  output context is allocated and no output file is opened, whatever else happens; and
  when the input opens and its streams are found, the job logs "No video stream found
  for re-encoding", closes the input, resets the running flag and ends. If stream \<open>v\<close>
  is the first video stream, the scan yields \<open>v\<close>; the packets handed to the decoder
  are, in order, exactly the packets of stream \<open>v\<close> among the packets read; and when
  the input opens and its streams are found, the job does not refuse the input but goes
  on to look for the decoder.
\<close>

theorem first_video_stream_selected:
  assumes "m_reencode j"
  shows "(avcodec_send_packet (Some p) r \<in> set (Entry j e) \<longrightarrow>
            stream_index p < length (streams e) \<and>
            codec_type (codecpar (streams e ! stream_index p)) = AVMEDIA_TYPE_VIDEO \<and>
            (\<forall>i < stream_index p. codec_type (codecpar (streams e ! i)) \<noteq> AVMEDIA_TYPE_VIDEO)) \<and>
         ((\<forall>s\<in>set (streams e). codec_type (codecpar s) \<noteq> AVMEDIA_TYPE_VIDEO) \<longrightarrow>
            (\<forall>b. avformat_alloc_output_context2 b \<notin> set (Entry j e)) \<and>
            (\<forall>x. avio_open x \<notin> set (Entry j e)) \<and>
            (0 \<le> open_input_ret e \<and> 0 \<le> find_stream_info_ret e \<longrightarrow>
               Entry j e =
                 [Log ''Starting encoding conversion...'', avformat_open_input (open_input_ret e),
                  avformat_find_stream_info (find_stream_info_ret e),
                  Log ''No video stream found for re-encoding'', avformat_close_input,
                  SetRunning False])) \<and>
         (v < length (streams e) \<and>
          codec_type (codecpar (streams e ! v)) = AVMEDIA_TYPE_VIDEO \<and>
          (\<forall>i < v. codec_type (codecpar (streams e ! i)) \<noteq> AVMEDIA_TYPE_VIDEO) \<longrightarrow>
            find_video_stream 0 (streams e) = int v \<and>
            List.map_filter sent_packet (Entry j e) =
              filter (\<lambda>q. stream_index q = v)
                (map snd (take (length (filter read_ok (Entry j e))) (reads e))) \<and>
            (0 \<le> open_input_ret e \<and> 0 \<le> find_stream_info_ret e \<longrightarrow>
               (\<exists>rest. Entry j e =
                  [Log ''Starting encoding conversion...'', avformat_open_input (open_input_ret e),
                   avformat_find_stream_info (find_stream_info_ret e),
                   avcodec_find_decoder (decoder_found e)] @ rest)))"
proof (intro conjI)
  show "avcodec_send_packet (Some p) r \<in> set (Entry j e) \<longrightarrow>
            stream_index p < length (streams e) \<and>
            codec_type (codecpar (streams e ! stream_index p)) = AVMEDIA_TYPE_VIDEO \<and>
            (\<forall>i < stream_index p. codec_type (codecpar (streams e ! i)) \<noteq> AVMEDIA_TYPE_VIDEO)"
  proof
    assume s: "avcodec_send_packet (Some p) r \<in> set (Entry j e)"
    from Entry_events_transcode[OF assms s]
    have v: "0 \<le> find_video_stream 0 (streams e)"
      and i: "stream_index p = nat (find_video_stream 0 (streams e))" by auto
    from find_video_stream_first[OF v] obtain k where k: "k < length (streams e)"
      "find_video_stream 0 (streams e) = int (0 + k)"
      "codec_type (codecpar (streams e ! k)) = AVMEDIA_TYPE_VIDEO"
      "\<forall>j < k. codec_type (codecpar (streams e ! j)) \<noteq> AVMEDIA_TYPE_VIDEO" by blast
    from i k(2) have "stream_index p = k" by simp
    with k show "stream_index p < length (streams e) \<and>
            codec_type (codecpar (streams e ! stream_index p)) = AVMEDIA_TYPE_VIDEO \<and>
            (\<forall>i < stream_index p. codec_type (codecpar (streams e ! i)) \<noteq> AVMEDIA_TYPE_VIDEO)"
      by simp
  qed
next
  show "(\<forall>s\<in>set (streams e). codec_type (codecpar s) \<noteq> AVMEDIA_TYPE_VIDEO) \<longrightarrow>
            (\<forall>b. avformat_alloc_output_context2 b \<notin> set (Entry j e)) \<and>
            (\<forall>x. avio_open x \<notin> set (Entry j e)) \<and>
            (0 \<le> open_input_ret e \<and> 0 \<le> find_stream_info_ret e \<longrightarrow>
               Entry j e =
                 [Log ''Starting encoding conversion...'', avformat_open_input (open_input_ret e),
                  avformat_find_stream_info (find_stream_info_ret e),
                  Log ''No video stream found for re-encoding'', avformat_close_input,
                  SetRunning False])"
  proof
    assume "\<forall>s\<in>set (streams e). codec_type (codecpar s) \<noteq> AVMEDIA_TYPE_VIDEO"
    then have n: "find_video_stream 0 (streams e) < 0" by (simp add: find_video_stream_neg)
    note E = Entry_no_video[OF assms n]
    show "(\<forall>b. avformat_alloc_output_context2 b \<notin> set (Entry j e)) \<and>
            (\<forall>x. avio_open x \<notin> set (Entry j e)) \<and>
            (0 \<le> open_input_ret e \<and> 0 \<le> find_stream_info_ret e \<longrightarrow>
               Entry j e =
                 [Log ''Starting encoding conversion...'', avformat_open_input (open_input_ret e),
                  avformat_find_stream_info (find_stream_info_ret e),
                  Log ''No video stream found for re-encoding'', avformat_close_input,
                  SetRunning False])"
      unfolding E by simp
  qed
next
  show "v < length (streams e) \<and>
          codec_type (codecpar (streams e ! v)) = AVMEDIA_TYPE_VIDEO \<and>
          (\<forall>i < v. codec_type (codecpar (streams e ! i)) \<noteq> AVMEDIA_TYPE_VIDEO) \<longrightarrow>
            find_video_stream 0 (streams e) = int v \<and>
            List.map_filter sent_packet (Entry j e) =
              filter (\<lambda>q. stream_index q = v)
                (map snd (take (length (filter read_ok (Entry j e))) (reads e))) \<and>
            (0 \<le> open_input_ret e \<and> 0 \<le> find_stream_info_ret e \<longrightarrow>
               (\<exists>rest. Entry j e =
                  [Log ''Starting encoding conversion...'', avformat_open_input (open_input_ret e),
                   avformat_find_stream_info (find_stream_info_ret e),
                   avcodec_find_decoder (decoder_found e)] @ rest))"
  proof
    assume a: "v < length (streams e) \<and>
          codec_type (codecpar (streams e ! v)) = AVMEDIA_TYPE_VIDEO \<and>
          (\<forall>i < v. codec_type (codecpar (streams e ! i)) \<noteq> AVMEDIA_TYPE_VIDEO)"
    then have f: "find_video_stream 0 (streams e) = int v"
      using find_video_stream_least[of v "streams e" 0] by simp
    then have n: "nat (find_video_stream 0 (streams e)) = v" and p: "0 \<le> find_video_stream 0 (streams e)"
      by simp_all
    note S = Entry_sent_packets[OF assms, of e, unfolded n]
    have "0 \<le> open_input_ret e \<and> 0 \<le> find_stream_info_ret e \<longrightarrow>
               (\<exists>rest. Entry j e =
                  [Log ''Starting encoding conversion...'', avformat_open_input (open_input_ret e),
                   avformat_find_stream_info (find_stream_info_ret e),
                   avcodec_find_decoder (decoder_found e)] @ rest)"
      using Entry_video_found[OF assms p] by blast
    with f S show "find_video_stream 0 (streams e) = int v \<and>
            List.map_filter sent_packet (Entry j e) =
              filter (\<lambda>q. stream_index q = v)
                (map snd (take (length (filter read_ok (Entry j e))) (reads e))) \<and>
            (0 \<le> open_input_ret e \<and> 0 \<le> find_stream_info_ret e \<longrightarrow>
               (\<exists>rest. Entry j e =
                  [Log ''Starting encoding conversion...'', avformat_open_input (open_input_ret e),
                   avformat_find_stream_info (find_stream_info_ret e),
                   avcodec_find_decoder (decoder_found e)] @ rest))"
      by blast
  qed
qed

theorem first_video_stream_selected_witness:
  "m_reencode transcode_job \<and>
   avcodec_send_packet (Some (packet 1 0)) 0 \<in> set (Entry transcode_job pick_env) \<and>
   stream_index (packet 1 0) = 1 \<and>
   streams pick_env = [audio_stream, video_stream] \<and>
   codec_type (codecpar (streams pick_env ! 1)) = AVMEDIA_TYPE_VIDEO \<and>
   codec_type (codecpar (streams pick_env ! 0)) = AVMEDIA_TYPE_AUDIO \<and>
   find_video_stream 0 (streams pick_env) = 1 \<and>
   length (filter read_ok (Entry transcode_job pick_env)) = 3 \<and>
   List.map_filter sent_packet (Entry transcode_job pick_env) = [packet 1 0] \<and>
   filter (\<lambda>q. stream_index q = 1) (map snd (take 3 (reads pick_env))) = [packet 1 0] \<and>
   (\<exists>rest. Entry transcode_job pick_env =
      [Log ''Starting encoding conversion...'', avformat_open_input 0,
       avformat_find_stream_info 0, avcodec_find_decoder True] @ rest) \<and>
   list_all (\<lambda>s. codec_type (codecpar s) \<noteq> AVMEDIA_TYPE_VIDEO) (streams audio_only_env) \<and>
   0 \<le> open_input_ret audio_only_env \<and> 0 \<le> find_stream_info_ret audio_only_env \<and>
   Entry transcode_job audio_only_env =
     [Log ''Starting encoding conversion...'', avformat_open_input 0,
      avformat_find_stream_info 0,
      Log ''No video stream found for re-encoding'', avformat_close_input, SetRunning False]"
proof -
  have t: "m_reencode transcode_job" by (simp add: transcode_job_def)
  have s: "avcodec_send_packet (Some (packet 1 0)) 0 \<in> set (Entry transcode_job pick_env)"
    by (simp add: pick_trace)
  have ss: "streams pick_env = [audio_stream, video_stream]" by (simp add: pick_env_def env0_def)
  have c: "1 < length (streams pick_env) \<and>
          codec_type (codecpar (streams pick_env ! 1)) = AVMEDIA_TYPE_VIDEO \<and>
          (\<forall>i < 1. codec_type (codecpar (streams pick_env ! i)) \<noteq> AVMEDIA_TYPE_VIDEO)"
    by (simp add: ss audio_stream_def video_stream_def)
  have a: "\<forall>s\<in>set (streams audio_only_env). codec_type (codecpar s) \<noteq> AVMEDIA_TYPE_VIDEO"
    by (simp add: audio_only_env_def env0_def audio_stream_def)
  have o: "0 \<le> open_input_ret audio_only_env \<and> 0 \<le> find_stream_info_ret audio_only_env"
    by (simp add: audio_only_env_def env0_def)
  have o': "0 \<le> open_input_ret pick_env \<and> 0 \<le> find_stream_info_ret pick_env"
    by (simp add: pick_env_def env0_def)
  have v: "open_input_ret audio_only_env = 0" "find_stream_info_ret audio_only_env = 0"
    "open_input_ret pick_env = 0" "find_stream_info_ret pick_env = 0" "decoder_found pick_env"
    by (simp_all add: audio_only_env_def pick_env_def env0_def)
  have n: "length (filter read_ok (Entry transcode_job pick_env)) = 3"
    by (simp add: pick_trace)
  have rd: "reads pick_env = [(0, packet 0 0), (0, packet 1 0), (0, packet 0 1)]"
    by (simp add: pick_env_def)
  note A = first_video_stream_selected[OF t, of "packet 1 0" 0 pick_env, THEN conjunct1,
             THEN mp, OF s]
  note B = first_video_stream_selected[OF t, of _ _ audio_only_env, THEN conjunct2,
             THEN conjunct1, THEN mp, OF a, THEN conjunct2, THEN conjunct2, THEN mp, OF o,
             unfolded v]
  note C = first_video_stream_selected[OF t, of _ _ pick_env 1, THEN conjunct2,
             THEN conjunct2, THEN mp, OF c]
  note C1 = C[THEN conjunct1]
  note C2 = C[THEN conjunct2, THEN conjunct1, unfolded n]
  note C3 = C[THEN conjunct2, THEN conjunct2, THEN mp, OF o', unfolded v]
  have f: "filter (\<lambda>q. stream_index q = 1) (map snd (take 3 (reads pick_env))) = [packet 1 0]"
    by (simp add: rd packet_def)
  from a have a': "list_all (\<lambda>s. codec_type (codecpar s) \<noteq> AVMEDIA_TYPE_VIDEO) (streams audio_only_env)"
    by (simp add: list_all_iff)
  have i: "stream_index (packet 1 0) = 1" by (simp add: packet_def)
  have au: "codec_type (codecpar (streams pick_env ! 0)) = AVMEDIA_TYPE_AUDIO"
    by (simp add: ss audio_stream_def)
  from C2 f have C2': "List.map_filter sent_packet (Entry transcode_job pick_env) = [packet 1 0]"
    by simp
  from C3 have C3': "\<exists>rest. Entry transcode_job pick_env =
      [Log ''Starting encoding conversion...'', avformat_open_input 0,
       avformat_find_stream_info 0, avcodec_find_decoder True] @ rest" by (simp add: v(5))
  from A[unfolded i] have A': "codec_type (codecpar (streams pick_env ! 1)) = AVMEDIA_TYPE_VIDEO"
    by simp
  from C1 have C1': "find_video_stream 0 (streams pick_env) = 1" by simp
  from o have o1: "0 \<le> open_input_ret audio_only_env" and o2: "0 \<le> find_stream_info_ret audio_only_env"
    by simp_all
  from t s i ss A' au C1' n C2' f C3' a' o1 o2 B show ?thesis by (intro conjI)
qed

text \<open>
  Claim C7, as stated, fails: the progress values need not be non-decreasing. On
  \<open>reorder_env\<close> the duration is known (two seconds) and the decoder delivers two
  frames whose presentation times are 1 s and then 0 s; the transcode job reports 50
  and then 0. Each value is computed from the current frame alone.
\<close>

theorem reorder_env_progress_decreases:
  "Entry transcode_job reorder_env =
     [Log ''Starting encoding conversion...'', avformat_open_input 0,
      avformat_find_stream_info 0, avcodec_find_decoder True, avcodec_open2_dec 0,
      avformat_alloc_output_context2 True, avformat_new_stream True,
      avformat_new_stream True, avcodec_parameters_copy 0, avcodec_find_encoder True,
      avcodec_open2_enc 0, avio_open 0, avformat_write_header 0,
      av_read_frame 0, avcodec_send_packet (Some (packet 0 1)) 0,
      avcodec_receive_frame 0, sws_scale, avcodec_send_frame (Some \<lparr>frame_pts = 1\<rparr>) 0,
      avcodec_receive_packet AVERROR_EAGAIN, PostProgress 50, TestDestroy False,
      av_read_frame 0, avcodec_send_packet (Some (packet 0 0)) 0,
      avcodec_receive_frame 0, sws_scale, avcodec_send_frame (Some \<lparr>frame_pts = 0\<rparr>) 0,
      avcodec_receive_packet AVERROR_EAGAIN, PostProgress 0, TestDestroy False,
      av_read_frame AVERROR_EOF,
      avcodec_send_frame None 0, avcodec_receive_packet AVERROR_EAGAIN,
      av_write_trailer,
      avcodec_free_context_dec, avcodec_free_context_enc, avio_closep,
      avformat_free_context, avformat_close_input, SetRunning False,
      Log ''Conversion finished. Output: /videos/clip_converted.mp4''] \<and>
   in_duration reorder_env = 2000000"
  by (simp add: reorder_env_def job_defs library_defs)

text \<open>
  Claim C7, amended. Every progress event emitted during a job, in either mode, is an
  integer percentage between 0 and 100, and one is emitted only when the input's total
  duration is known (positive): when the duration is unknown no progress event is
  emitted at all. In remux mode the value is taken from the packet as the muxer's write
  call leaves it, so when that call hands every packet back blank, no progress event is
  emitted. No order between successive values is enforced.
\<close>

theorem progress_bounded:
  "(PostProgress n \<in> set (Entry j e) \<longrightarrow> 0 \<le> n \<and> n \<le> 100 \<and> 0 < in_duration e) \<and>
   (\<not> m_reencode j \<and> (\<forall>p. pts (written_pkt e p) = AV_NOPTS_VALUE) \<longrightarrow>
      (\<forall>k. PostProgress k \<notin> set (Entry j e)))"
proof (rule conjI)
  show "PostProgress n \<in> set (Entry j e) \<longrightarrow> 0 \<le> n \<and> n \<le> 100 \<and> 0 < in_duration e"
  proof
    assume a: "PostProgress n \<in> set (Entry j e)"
    show "0 \<le> n \<and> n \<le> 100 \<and> 0 < in_duration e"
    proof (cases "m_reencode j")
      case True
      from Entry_events_transcode[OF True a] show ?thesis by simp
    next
      case False
      from Entry_events_remux[OF False a] show ?thesis by simp
    qed
  qed
next
  show "\<not> m_reencode j \<and> (\<forall>p. pts (written_pkt e p) = AV_NOPTS_VALUE) \<longrightarrow>
      (\<forall>k. PostProgress k \<notin> set (Entry j e))"
    using Entry_remux_blank by blast
qed

theorem progress_bounded_witness:
  "PostProgress 50 \<in> set (Entry transcode_job reorder_env) \<and>
   (0::int) \<le> 50 \<and> (50::int) \<le> 100 \<and> 0 < in_duration reorder_env \<and>
   \<not> m_reencode remux_job \<and> pts (written_pkt reorder_env (packet 0 1)) = AV_NOPTS_VALUE \<and>
   list_all (\<lambda>ev. \<not> (\<exists>k. ev = PostProgress k)) (Entry remux_job reorder_env) \<and>
   length (filter is_written (Entry remux_job reorder_env)) = 2"
proof -
  have 1: "PostProgress 50 \<in> set (Entry transcode_job reorder_env)"
    by (simp add: reorder_env_def job_defs library_defs)
  have 2: "\<not> m_reencode remux_job \<and> (\<forall>p. pts (written_pkt reorder_env p) = AV_NOPTS_VALUE)"
    by (simp add: reorder_env_def job_defs)
  have 3: "length (filter is_written (Entry remux_job reorder_env)) = 2"
    by (simp add: reorder_env_def job_defs library_defs)
  note A = progress_bounded[of 50 transcode_job reorder_env, THEN conjunct1, THEN mp, OF 1]
  note B = progress_bounded[of _ remux_job reorder_env, THEN conjunct2, THEN mp, OF 2]
  from B have B': "list_all (\<lambda>ev. \<not> (\<exists>k. ev = PostProgress k)) (Entry remux_job reorder_env)"
    by (auto simp: list_all_iff)
  from 1 A 2 B' 3 show ?thesis by simp
qed

text \<open>
  Claim C8, as stated, fails: cancellation is not polled once per packet on the video
  path. On \<open>delay_env\<close> two video packets are read and sent to the decoder, which has
  no frame ready for either; the poll stands at the end of the frame loop's body, which
  is never reached, so the job makes no poll at all.
\<close>

theorem delay_env_no_poll:
  "Entry transcode_job delay_env =
     [Log ''Starting encoding conversion...'', avformat_open_input 0,
      avformat_find_stream_info 0, avcodec_find_decoder True, avcodec_open2_dec 0,
      avformat_alloc_output_context2 True, avformat_new_stream True,
      avformat_new_stream True, avcodec_parameters_copy 0, avcodec_find_encoder True,
      avcodec_open2_enc 0, avio_open 0, avformat_write_header 0,
      av_read_frame 0, avcodec_send_packet (Some (packet 0 0)) 0,
      avcodec_receive_frame AVERROR_EAGAIN,
      av_read_frame 0, avcodec_send_packet (Some (packet 0 1)) 0,
      avcodec_receive_frame AVERROR_EAGAIN,
      av_read_frame AVERROR_EOF,
      avcodec_send_frame None 0, avcodec_receive_packet AVERROR_EAGAIN,
      av_write_trailer,
      avcodec_free_context_dec, avcodec_free_context_enc, avio_closep,
      avformat_free_context, avformat_close_input, SetRunning False,
      Log ''Conversion finished. Output: /videos/clip_converted.mp4''] \<and>
   filter is_poll (Entry transcode_job delay_env) = []"
  by (simp add: delay_env_def job_defs)

text \<open>
  Claim C8, amended. Cancellation is polled at the end of a packet's processing, not
  once per packet. In remux mode there are as many polls as packets the muxer accepted:
  every accepted write is followed, after the progress report if any, by a poll, and
  every poll follows an accepted write in this way, so there is none for a skipped
  packet or after a failed write. In transcode mode the poll stands at the end of the
  frame loop's body: every poll closes the processing of a frame received from the
  decoder, with only the conversion, the encoder calls, the writes and the progress
  report in between; and every frame received is followed, after such calls only, by
  the poll or else by the log line of an encoder or muxer error, after which no call of
  the packet loops is made. So there are at most as many polls as frames and at most one
  frame more than polls, and no poll for a video packet that yields no frame or for a
  packet of another stream. A poll that does not see the cancellation is the last call
  of the processing: the next call is the next read (in transcode mode, the next read or
  the next request for a frame). When a poll sees the cancellation, the loop stops at
  once: the first such poll is followed by the log line and then by no call of the
  packet loops.
\<close>

theorem cancellation_polling:
  "(\<not> m_reencode j \<longrightarrow>
      length (filter is_poll (Entry j e)) = length (filter is_written (Entry j e)) \<and>
      (Entry j e = pre @ ev # post \<and> is_written ev \<longrightarrow>
         (\<exists>pg b rest. post = pg @ TestDestroy b # rest \<and> (\<forall>x\<in>set pg. is_progress x))) \<and>
      (Entry j e = pre @ ev # post \<and> is_poll ev \<longrightarrow>
         (\<exists>pre' x pg. pre = pre' @ x # pg \<and> is_written x \<and> (\<forall>y\<in>set pg. is_progress y))) \<and>
      (Entry j e = pre @ TestDestroy False # post \<longrightarrow>
         (\<exists>r rest. post = av_read_frame r # rest))) \<and>
   (m_reencode j \<longrightarrow>
      length (filter is_poll (Entry j e)) \<le> length (filter is_frame (Entry j e)) \<and>
      length (filter is_frame (Entry j e)) \<le> length (filter is_poll (Entry j e)) + 1 \<and>
      (Entry j e = pre @ ev # post \<and> is_poll ev \<longrightarrow>
         (\<exists>pre' x mid. pre = pre' @ x # mid \<and> is_frame x \<and> (\<forall>y\<in>set mid. frame_work y))) \<and>
      (Entry j e = pre @ ev # post \<and> is_frame ev \<longrightarrow>
         (\<exists>mid x rest. post = mid @ x # rest \<and> (\<forall>y\<in>set mid. frame_work y) \<and>
            (is_poll x \<or> frame_error x \<and> (\<forall>y\<in>set rest. \<not> loop_event y)))) \<and>
      (Entry j e = pre @ TestDestroy False # post \<longrightarrow>
         (\<exists>x rest. post = x # rest \<and> (is_read x \<or> frame_request x)))) \<and>
   (TestDestroy True \<in> set (Entry j e) \<longrightarrow>
      (\<exists>pre post. Entry j e = pre @ TestDestroy True # Log ''Conversion cancelled'' # post \<and>
         TestDestroy True \<notin> set pre \<and> (\<forall>ev\<in>set post. \<not> loop_event ev)))"
proof (intro conjI impI)
  assume "\<not> m_reencode j"
  then show "length (filter is_poll (Entry j e)) = length (filter is_written (Entry j e))"
    by (rule Entry_polls_remux)
next
  assume r: "\<not> m_reencode j" and a: "Entry j e = pre @ ev # post \<and> is_written ev"
  from Entry_phase_remux[OF r, of e] obtain s where
    s: "phase_run is_written is_progress (\<lambda>ev. False) Idle (pre @ ev # post) = Some s"
    and n: "s \<noteq> Pending" using a by auto
  from trigger_followed[OF s n] a trig_loop_event(2) obtain mid x rest where
    "post = mid @ x # rest" "\<forall>y\<in>set mid. is_progress y" "is_poll x" by blast
  with is_poll_cases[of x]
  show "\<exists>pg b rest. post = pg @ TestDestroy b # rest \<and> (\<forall>x\<in>set pg. is_progress x)" by blast
next
  assume r: "\<not> m_reencode j" and a: "Entry j e = pre @ ev # post \<and> is_poll ev"
  from Entry_phase_remux[OF r, of e] obtain s where
    s: "phase_run is_written is_progress (\<lambda>ev. False) Idle (pre @ ev # post) = Some s"
    using a by auto
  from poll_owned[OF s] a
  show "\<exists>pre' x pg. pre = pre' @ x # pg \<and> is_written x \<and> (\<forall>y\<in>set pg. is_progress y)" by simp
next
  assume r: "\<not> m_reencode j" and a: "Entry j e = pre @ TestDestroy False # post"
  from Entry_polls_next[of j e] a have "poll_step (TestDestroy False) post"
    unfolding all_followed_iff by blast
  then obtain x rest where p: "post = x # rest" and x: "is_read x \<or> frame_request x"
    unfolding poll_step_def starts_next_iff by auto
  from a p have "x \<in> set (Entry j e)" by simp
  from Entry_events_remux[OF r this] have "\<not> frame_request x" by (cases x) auto
  with x have "is_read x" by simp
  then obtain y where "x = av_read_frame y" by (cases x) auto
  with p show "\<exists>r rest. post = av_read_frame r # rest" by simp
next
  assume "m_reencode j"
  then show "length (filter is_poll (Entry j e)) \<le> length (filter is_frame (Entry j e))"
    by (rule Entry_polls_transcode)
next
  assume "m_reencode j"
  then show "length (filter is_frame (Entry j e)) \<le> length (filter is_poll (Entry j e)) + 1"
    by (rule Entry_frames_transcode)
next
  assume r: "m_reencode j" and a: "Entry j e = pre @ ev # post \<and> is_poll ev"
  from Entry_phase_transcode[OF r, of e] obtain s where
    s: "phase_run is_frame frame_work frame_error Idle (pre @ ev # post) = Some s"
    using a by auto
  from poll_owned[OF s] a
  show "\<exists>pre' x mid. pre = pre' @ x # mid \<and> is_frame x \<and> (\<forall>y\<in>set mid. frame_work y)" by simp
next
  assume r: "m_reencode j" and a: "Entry j e = pre @ ev # post \<and> is_frame ev"
  from Entry_phase_transcode[OF r, of e] obtain s where
    s: "phase_run is_frame frame_work frame_error Idle (pre @ ev # post) = Some s"
    and n: "s \<noteq> Pending" using a by auto
  from trigger_followed[OF s n] a trig_loop_event(1)
  show "\<exists>mid x rest. post = mid @ x # rest \<and> (\<forall>y\<in>set mid. frame_work y) \<and>
            (is_poll x \<or> frame_error x \<and> (\<forall>y\<in>set rest. \<not> loop_event y))" by blast
next
  assume a: "Entry j e = pre @ TestDestroy False # post"
  from Entry_polls_next[of j e] a have "poll_step (TestDestroy False) post"
    unfolding all_followed_iff by blast
  then show "\<exists>x rest. post = x # rest \<and> (is_read x \<or> frame_request x)"
    unfolding poll_step_def starts_next_iff by auto
next
  assume c: "TestDestroy True \<in> set (Entry j e)"
  let ?out = "make_output_path (m_input j) (m_outFormat j)"
  show "\<exists>pre post. Entry j e = pre @ TestDestroy True # Log ''Conversion cancelled'' # post \<and>
         TestDestroy True \<notin> set pre \<and> (\<forall>ev\<in>set post. \<not> loop_event ev)"
  proof (cases "m_reencode j")
    case False
    from Entry_cancel_remux[OF False c] obtain pre where
      "Entry j e = pre @ TestDestroy True # Log ''Conversion cancelled'' # finalize e ?out"
      "TestDestroy True \<notin> set pre" by blast
    moreover have "\<forall>ev\<in>set (finalize e ?out). \<not> loop_event ev"
      using finalize_events[of _ e ?out] setup_event_not_loop by fastforce
    ultimately show ?thesis by blast
  next
    case True
    from Entry_cancel_transcode[OF True c, THEN conjunct1] obtain pre where
      "Entry j e = pre @ TestDestroy True # Log ''Conversion cancelled'' # cleanup e ?out"
      "TestDestroy True \<notin> set pre" by blast
    moreover have "\<forall>ev\<in>set (cleanup e ?out). \<not> loop_event ev"
      using cleanup_setup[of _ e ?out] setup_event_not_loop by blast
    ultimately show ?thesis by blast
  qed
qed


theorem cancellation_polling_witness:
  "\<not> m_reencode remux_job \<and>
   is_written (Entry remux_job cancel_env ! 11) \<and> is_poll (Entry remux_job cancel_env ! 12) \<and>
   length (filter is_poll (Entry remux_job cancel_env)) = 1 \<and>
   length (filter is_written (Entry remux_job cancel_env)) = 1 \<and>
   (\<exists>pg b rest. drop 12 (Entry remux_job cancel_env) = pg @ TestDestroy b # rest \<and>
      list_all is_progress pg) \<and>
   (\<exists>pre' x pg. take 12 (Entry remux_job cancel_env) = pre' @ x # pg \<and> is_written x \<and>
      list_all is_progress pg) \<and>
   Entry remux_job reorder_env ! 12 = TestDestroy False \<and>
   (\<exists>r rest. drop 13 (Entry remux_job reorder_env) = av_read_frame r # rest) \<and>
   m_reencode transcode_job \<and>
   is_frame (Entry transcode_job cancel_env ! 15) \<and> is_poll (Entry transcode_job cancel_env ! 20) \<and>
   length (filter is_poll (Entry transcode_job cancel_env)) = 1 \<and>
   length (filter is_frame (Entry transcode_job cancel_env)) = 1 \<and>
   (\<exists>pre' x mid. take 20 (Entry transcode_job cancel_env) = pre' @ x # mid \<and> is_frame x \<and>
      list_all frame_work mid) \<and>
   (\<exists>mid x rest. drop 16 (Entry transcode_job cancel_env) = mid @ x # rest \<and>
      list_all frame_work mid \<and>
      (is_poll x \<or> frame_error x \<and> list_all (\<lambda>y. \<not> loop_event y) rest)) \<and>
   Entry transcode_job encode_env ! 22 = TestDestroy False \<and>
   (\<exists>x rest. drop 23 (Entry transcode_job encode_env) = x # rest \<and>
      (is_read x \<or> frame_request x)) \<and>
   TestDestroy True \<in> set (Entry transcode_job cancel_env) \<and>
   (\<exists>pre post. Entry transcode_job cancel_env =
        pre @ TestDestroy True # Log ''Conversion cancelled'' # post \<and>
      TestDestroy True \<notin> set pre \<and> list_all (\<lambda>ev. \<not> loop_event ev) post)"
proof -
  let ?R = "Entry remux_job cancel_env"
  let ?T = "Entry transcode_job cancel_env"
  let ?R2 = "Entry remux_job reorder_env"
  let ?T2 = "Entry transcode_job encode_env"
  have r: "\<not> m_reencode remux_job" by (simp add: remux_job_def)
  have t: "m_reencode transcode_job" by (simp add: transcode_job_def)
  have c: "TestDestroy True \<in> set ?T" by (simp add: cancel_transcode_trace)
  have p1: "length (filter is_poll ?R) = 1" by (simp add: cancel_remux_trace)
  have p2: "length (filter is_poll ?T) = 1" by (simp add: cancel_transcode_trace)
  have f2: "length (filter is_frame ?T) = 1" by (simp add: cancel_transcode_trace)
  have rw: "?R = take 11 ?R @ ?R ! 11 # drop 12 ?R \<and> is_written (?R ! 11)"
    by (simp add: cancel_remux_trace)
  have rp: "?R = take 12 ?R @ ?R ! 12 # drop 13 ?R \<and> is_poll (?R ! 12)"
    by (simp add: cancel_remux_trace)
  have tp: "?T = take 20 ?T @ ?T ! 20 # drop 21 ?T \<and> is_poll (?T ! 20)"
    by (simp add: cancel_transcode_trace)
  have tf: "?T = take 15 ?T @ ?T ! 15 # drop 16 ?T \<and> is_frame (?T ! 15)"
    by (simp add: cancel_transcode_trace)
  have R2: "?R2 =
     [Log ''Starting remux (stream-copy) conversion...'', avformat_open_input 0,
      avformat_find_stream_info 0, avformat_alloc_output_context2 True,
      avformat_new_stream True, avcodec_parameters_copy 0,
      avformat_new_stream True, avcodec_parameters_copy 0,
      avio_open 0, avformat_write_header 0,
      av_read_frame 0,
      av_interleaved_write_frame
        \<lparr>stream_index = 0, pts = 1, dts = 1, duration = 1, pos = - 1, data = [0]\<rparr> 0,
      TestDestroy False,
      av_read_frame 0,
      av_interleaved_write_frame
        \<lparr>stream_index = 0, pts = 0, dts = 0, duration = 1, pos = - 1, data = [0]\<rparr> 0,
      TestDestroy False,
      av_read_frame AVERROR_EOF,
      av_write_trailer, avio_closep, avformat_close_input, avformat_free_context,
      Log ''Remux finished. Output: /videos/clip_converted.mkv'', SetRunning False]"
    by (simp add: reorder_env_def job_defs library_defs)
  have rn: "?R2 = take 12 ?R2 @ TestDestroy False # drop 13 ?R2" by (simp add: R2)
  have tn: "?T2 = take 22 ?T2 @ TestDestroy False # drop 23 ?T2" by (simp add: encode_trace)
  have rn': "?R2 ! 12 = TestDestroy False" by (simp add: R2)
  have tn': "?T2 ! 22 = TestDestroy False" by (simp add: encode_trace)
  note R = cancellation_polling[of remux_job cancel_env, THEN conjunct1, THEN mp, OF r]
  note T = cancellation_polling[of transcode_job cancel_env, THEN conjunct2, THEN conjunct1,
             THEN mp, OF t]
  note A = cancellation_polling[of remux_job cancel_env "take 11 ?R" "?R ! 11" "drop 12 ?R",
             THEN conjunct1, THEN mp, OF r, THEN conjunct2, THEN conjunct1, THEN mp, OF rw]
  note B = cancellation_polling[of remux_job cancel_env "take 12 ?R" "?R ! 12" "drop 13 ?R",
             THEN conjunct1, THEN mp, OF r, THEN conjunct2, THEN conjunct2, THEN conjunct1,
             THEN mp, OF rp]
  note B2 = cancellation_polling[of remux_job reorder_env "take 12 ?R2" _ "drop 13 ?R2",
             THEN conjunct1, THEN mp, OF r, THEN conjunct2, THEN conjunct2, THEN conjunct2,
             THEN mp, OF rn]
  note C = cancellation_polling[of transcode_job cancel_env "take 20 ?T" "?T ! 20" "drop 21 ?T",
             THEN conjunct2, THEN conjunct1, THEN mp, OF t, THEN conjunct2, THEN conjunct2,
             THEN conjunct1, THEN mp, OF tp]
  note D = cancellation_polling[of transcode_job cancel_env "take 15 ?T" "?T ! 15" "drop 16 ?T",
             THEN conjunct2, THEN conjunct1, THEN mp, OF t, THEN conjunct2, THEN conjunct2,
             THEN conjunct2, THEN conjunct1, THEN mp, OF tf]
  note D2 = cancellation_polling[of transcode_job encode_env "take 22 ?T2" _ "drop 23 ?T2",
             THEN conjunct2, THEN conjunct1, THEN mp, OF t, THEN conjunct2, THEN conjunct2,
             THEN conjunct2, THEN conjunct2, THEN mp, OF tn]
  note S = cancellation_polling[of transcode_job cancel_env, THEN conjunct2, THEN conjunct2,
             THEN mp, OF c]
  from R[THEN conjunct1] p1 have w1: "length (filter is_written ?R) = 1" by simp
  from A have A': "\<exists>pg b rest. drop 12 ?R = pg @ TestDestroy b # rest \<and> list_all is_progress pg"
    by (simp only: list_all_iff)
  from B have B': "\<exists>pre' x pg. take 12 ?R = pre' @ x # pg \<and> is_written x \<and> list_all is_progress pg"
    by (simp only: list_all_iff)
  from C have C': "\<exists>pre' x mid. take 20 ?T = pre' @ x # mid \<and> is_frame x \<and> list_all frame_work mid"
    by (simp only: list_all_iff)
  from D have D': "\<exists>mid x rest. drop 16 ?T = mid @ x # rest \<and> list_all frame_work mid \<and>
      (is_poll x \<or> frame_error x \<and> list_all (\<lambda>y. \<not> loop_event y) rest)"
    by (simp only: list_all_iff)
  from S have S': "\<exists>pre post. ?T = pre @ TestDestroy True # Log ''Conversion cancelled'' # post \<and>
      TestDestroy True \<notin> set pre \<and> list_all (\<lambda>ev. \<not> loop_event ev) post"
    by (simp only: list_all_iff)
  from rw have rw': "is_written (?R ! 11)" by simp
  from rp have rp': "is_poll (?R ! 12)" by simp
  from tp have tp': "is_poll (?T ! 20)" by simp
  from tf have tf': "is_frame (?T ! 15)" by simp
  from r rw' rp' p1 w1 A' B' rn' B2 t tf' tp' p2 f2 C' D' tn' D2 c S' show ?thesis by (intro conjI)
qed

text \<open>
  Claim C10. In the transcode path, every exit that reaches the common cleanup block -
  which is every run in which the header was written: normal completion, a decode, encode
  or mux error during the loop, and cancellation - first resets the controller's running
  flag and then emits the log line "Conversion finished. Output: <path>": these are the
  last two calls of the job, in this order, so failed and cancelled jobs end with the
  finished message too.
\<close>

theorem cleanup_resets_then_logs:
  assumes "m_reencode j" and "avformat_write_header r \<in> set (Entry j e)" and "0 \<le> r"
  shows "\<exists>pre. Entry j e =
           pre @ [SetRunning False,
                  Log (''Conversion finished. Output: ''
                       @ make_output_path (m_input j) (m_outFormat j))]"
  using assms(1)
proof (cases rule: Entry_transcode_elim[where e=e])
  case setup_failed
  with assms(2,3) show ?thesis by force
next
  case (aborted pre)
  show ?thesis unfolding aborted(1) by (intro ends_append cleanup_last)
next
  case (finished pre sr)
  show ?thesis unfolding finished(1) by (intro ends_append ends_Cons cleanup_last)
qed

theorem cleanup_resets_then_logs_witness:
  "m_reencode transcode_job \<and>
   avformat_write_header 0 \<in> set (Entry transcode_job decode_error_env) \<and>
   Log ''Error during decoding'' \<in> set (Entry transcode_job decode_error_env) \<and>
   (\<exists>pre. Entry transcode_job decode_error_env =
      pre @ [SetRunning False, Log ''Conversion finished. Output: /videos/clip_converted.mp4''])"
proof -
  have 1: "m_reencode transcode_job" by (simp add: transcode_job_def)
  have 2: "avformat_write_header 0 \<in> set (Entry transcode_job decode_error_env)"
    by (simp add: decode_error_env_def job_defs)
  have 3: "Log ''Error during decoding'' \<in> set (Entry transcode_job decode_error_env)"
    by (simp add: decode_error_env_def job_defs)
  have 4: "make_output_path (m_input transcode_job) (m_outFormat transcode_job)
             = ''/videos/clip_converted.mp4''"
    by (simp add: job_defs)
  from cleanup_resets_then_logs[OF 1 2] 1 2 3 show ?thesis unfolding 4 by simp
qed

end
